(* ===== verification/Prelude.thy ===== *)
theory Prelude
  imports Main "HOL-Library.AList" "HOL-Library.Multiset" "HOL-Library.Word"
begin

text \<open>
  Shared vocabulary of the development.

  \<^item> \<open>outcome\<close>: what a Rust call can do. \<open>Ok\<close> and \<open>Err\<close> are the two constructors of
    \<^verbatim>\<open>Result\<close>; \<open>Panic\<close> stands for an unwinding \<^verbatim>\<open>unwrap\<close>, \<^verbatim>\<open>expect\<close>, \<^verbatim>\<open>assert!\<close>,
    out-of-range index or division by zero.
  \<^item> Machine integers are words. The release profile of the workspace (Cargo.toml) does not
    switch overflow checks on, so \<open>+\<close>, \<open>-\<close> and \<open>*\<close> on words wrap around as the built code does;
    the \<open>saturating\<close> and \<open>checked\<close> variants of the standard library are defined here.
  \<^item> \<^verbatim>\<open>BTreeMap\<close> is a key-sorted association list (iteration is in key order), \<^verbatim>\<open>HashMap\<close> is an
    association list with distinct keys (its list order stands for the iteration order, which
    Rust leaves open). Both meet the contract of the locale \<open>entry_map\<close>, in which the counting
    and summation laws used by the components are proved once.
\<close>

section \<open>Outcomes of fallible calls\<close>

datatype ('e, 'a) outcome = Ok 'a | Err 'e | Panic

fun is_ok :: "('e, 'a) outcome \<Rightarrow> bool" where
  "is_ok (Ok _) = True"
| "is_ok (Err _) = False"
| "is_ok Panic = False"

lemma is_ok_iff: "is_ok r \<longleftrightarrow> (\<exists>a. r = Ok a)"
  by (cases r) auto

section \<open>Machine integers\<close>

type_synonym u8 = "8 word"
type_synonym u16 = "16 word"
type_synonym u32 = "32 word"
type_synonym u64 = "64 word"

text \<open>Byte strings: a \<^verbatim>\<open>PublicKeyHash\<close> holds 20 bytes, a \<^verbatim>\<open>Hash\<close> 32.\<close>

type_synonym pkh = "u8 list"
type_synonym hash = "u8 list"

definition saturating_add :: "'l::len word \<Rightarrow> 'l word \<Rightarrow> 'l word" where
  "saturating_add a b = (if unat a + unat b < 2 ^ LENGTH('l) then a + b else - 1)"

definition saturating_sub :: "'l::len word \<Rightarrow> 'l word \<Rightarrow> 'l word" where
  "saturating_sub a b = (if b \<le> a then a - b else 0)"

definition saturating_mul :: "'l::len word \<Rightarrow> 'l word \<Rightarrow> 'l word" where
  "saturating_mul a b = (if unat a * unat b < 2 ^ LENGTH('l) then a * b else - 1)"

definition checked_add :: "'l::len word \<Rightarrow> 'l word \<Rightarrow> 'l word option" where
  "checked_add a b = (if unat a + unat b < 2 ^ LENGTH('l) then Some (a + b) else None)"

definition checked_sub :: "'l::len word \<Rightarrow> 'l word \<Rightarrow> 'l word option" where
  "checked_sub a b = (if b \<le> a then Some (a - b) else None)"

definition checked_mul :: "'l::len word \<Rightarrow> 'l word \<Rightarrow> 'l word option" where
  "checked_mul a b = (if unat a * unat b < 2 ^ LENGTH('l) then Some (a * b) else None)"

named_theorems unat_simps \<open>reading word arithmetic as natural-number arithmetic\<close>

lemma unat_add_nowrap [unat_simps]:
  fixes a b :: "'l::len word"
  shows "unat a + unat b < 2 ^ LENGTH('l) \<Longrightarrow> unat (a + b) = unat a + unat b"
  by (simp add: unat_word_ariths)

lemma unat_mult_nowrap [unat_simps]:
  fixes a b :: "'l::len word"
  shows "unat a * unat b < 2 ^ LENGTH('l) \<Longrightarrow> unat (a * b) = unat a * unat b"
  by (simp add: unat_word_ariths)

lemma unat_sub_nowrap [unat_simps]:
  fixes a b :: "'l::len word"
  shows "b \<le> a \<Longrightarrow> unat (a - b) = unat a - unat b"
  by (simp add: unat_sub_if' word_le_nat_alt)

lemma unat_saturating_sub [unat_simps]:
  "unat (saturating_sub a b) = unat a - unat b"
  by (simp add: saturating_sub_def unat_sub_nowrap word_le_nat_alt)

lemma unat_minus_one_word_max [unat_simps]: "unat (- 1 :: 'l::len word) = 2 ^ LENGTH('l) - 1"
  by (simp add: unsigned_minus_1_eq_mask mask_eq_exp_minus_1)

lemma unat_lt_size: "unat (a :: 'l::len word) < 2 ^ LENGTH('l)"
  by (rule unsigned_less)

lemma unat_saturating_add [unat_simps]:
  "unat (saturating_add a b) = min (2 ^ LENGTH('l) - 1) (unat a + unat (b :: 'l::len word))"
  by (auto simp: saturating_add_def unat_simps min_def)

lemma unat_saturating_mul [unat_simps]:
  "unat (saturating_mul a b) = min (2 ^ LENGTH('l) - 1) (unat a * unat (b :: 'l::len word))"
  by (auto simp: saturating_mul_def unat_simps min_def)

lemma unat_cast_mod: "unat (ucast w :: 'l::len word) = unat w mod 2 ^ LENGTH('l)"
  by (simp add: unsigned_ucast_eq take_bit_eq_mod)

lemma checked_add_Some:
  "checked_add a b = Some c \<longleftrightarrow> unat a + unat b < 2 ^ LENGTH('l) \<and> c = a + (b :: 'l::len word)"
  by (auto simp: checked_add_def)

lemma unat_checked_add: "checked_add a b = Some c \<Longrightarrow> unat c = unat a + unat b"
  by (auto simp: checked_add_Some unat_simps)

lemma unat_checked_mul: "checked_mul a b = Some c \<Longrightarrow> unat c = unat a * unat b"
  by (auto simp: checked_mul_def unat_simps split: if_splits)

section \<open>Maps with iteration\<close>

text \<open>
  The contract of a map that can be iterated over: \<open>map_of\<close> reads it, and the list of its
  entries has one entry per key.
\<close>

locale entry_map =
  fixes insert_kv :: "'k \<Rightarrow> 'v \<Rightarrow> ('k \<times> 'v) list \<Rightarrow> ('k \<times> 'v) list"
    and remove_k :: "'k \<Rightarrow> ('k \<times> 'v) list \<Rightarrow> ('k \<times> 'v) list"
    and invar :: "('k \<times> 'v) list \<Rightarrow> bool"
  assumes invar_Nil: "invar []"
    and invar_distinct: "invar m \<Longrightarrow> distinct (map fst m)"
    and invar_insert: "invar m \<Longrightarrow> invar (insert_kv k v m)"
    and invar_remove: "invar m \<Longrightarrow> invar (remove_k k m)"
    and lookup_insert: "invar m \<Longrightarrow> map_of (insert_kv k v m) = (map_of m)(k \<mapsto> v)"
    and lookup_remove: "invar m \<Longrightarrow> map_of (remove_k k m) = (map_of m)(k := None)"
begin

lemma distinct_entries: "invar m \<Longrightarrow> distinct m"
  using invar_distinct distinct_map by blast

lemma entry_iff: "invar m \<Longrightarrow> (k, v) \<in> set m \<longleftrightarrow> map_of m k = Some v"
  by (simp add: invar_distinct)

lemma set_insert_kv:
  "invar m \<Longrightarrow> set (insert_kv k v m) = insert (k, v) {p \<in> set m. fst p \<noteq> k}"
  by (auto simp: entry_iff invar_insert lookup_insert split: if_splits)

lemma set_remove_k: "invar m \<Longrightarrow> set (remove_k k m) = {p \<in> set m. fst p \<noteq> k}"
  by (auto simp: entry_iff invar_remove lookup_remove split: if_splits)

lemma mset_entries: "invar m \<Longrightarrow> mset m = mset_set (set m)"
  by (simp add: distinct_entries mset_set_set)

lemma mset_remove_k:
  assumes "invar m" and "map_of m k = Some w"
  shows "mset m = add_mset (k, w) (mset (remove_k k m))"
proof -
  have "set m = insert (k, w) (set (remove_k k m))"
    using assms by (auto simp: set_remove_k entry_iff)
  moreover have "(k, w) \<notin> set (remove_k k m)"
    using assms by (simp add: set_remove_k)
  ultimately show ?thesis
    using assms(1) by (simp add: mset_entries invar_remove)
qed

lemma mset_insert_kv:
  assumes "invar m"
  shows "mset (insert_kv k v m) = add_mset (k, v) (mset (remove_k k m))"
proof -
  have "(k, v) \<notin> set (remove_k k m)"
    using assms by (simp add: set_remove_k)
  then show ?thesis
    using assms by (simp add: mset_entries invar_remove invar_insert set_insert_kv set_remove_k)
qed

lemma mset_insert_new:
  assumes "invar m" and "map_of m k = None"
  shows "mset (insert_kv k v m) = add_mset (k, v) (mset m)"
proof -
  have "set (remove_k k m) = set m"
    using assms by (auto simp: set_remove_k map_of_eq_None_iff)
  then have "mset (remove_k k m) = mset m"
    using assms(1) by (simp add: mset_entries invar_remove)
  then show ?thesis
    using assms(1) by (simp add: mset_insert_kv)
qed

lemma sum_insert_new:
  fixes f :: "'k \<times> 'v \<Rightarrow> 'b::comm_monoid_add"
  assumes "invar m" and "map_of m k = None"
  shows "sum_list (map f (insert_kv k v m)) = f (k, v) + sum_list (map f m)"
proof -
  have "sum_mset (image_mset f (mset (insert_kv k v m))) = f (k, v) + sum_mset (image_mset f (mset m))"
    using assms by (simp add: mset_insert_new)
  then show ?thesis
    by (simp flip: sum_mset_sum_list add: mset_map)
qed

lemma sum_remove_k:
  fixes f :: "'k \<times> 'v \<Rightarrow> 'b::comm_monoid_add"
  assumes "invar m" and "map_of m k = Some w"
  shows "sum_list (map f m) = f (k, w) + sum_list (map f (remove_k k m))"
proof -
  have "sum_mset (image_mset f (mset m)) = f (k, w) + sum_mset (image_mset f (mset (remove_k k m)))"
    using assms by (simp add: mset_remove_k)
  then show ?thesis
    by (simp flip: sum_mset_sum_list add: mset_map)
qed

lemma sum_insert_old:
  fixes f :: "'k \<times> 'v \<Rightarrow> 'b::comm_monoid_add"
  assumes "invar m" and "map_of m k = Some w"
  shows "f (k, w) + sum_list (map f (insert_kv k v m)) = f (k, v) + sum_list (map f m)"
proof -
  have "sum_mset (image_mset f (mset (insert_kv k v m)))
      = f (k, v) + sum_mset (image_mset f (mset (remove_k k m)))"
    using assms by (simp add: mset_insert_kv)
  then have "sum_list (map f (insert_kv k v m)) = f (k, v) + sum_list (map f (remove_k k m))"
    by (simp flip: sum_mset_sum_list add: mset_map)
  then show ?thesis
    using sum_remove_k [OF assms, of f] by (simp add: ac_simps)
qed

lemma length_insert_new:
  "invar m \<Longrightarrow> map_of m k = None \<Longrightarrow> length (insert_kv k v m) = Suc (length m)"
  using mset_insert_new [of m k v] by (metis size_add_mset size_mset)

lemma length_remove_k:
  "invar m \<Longrightarrow> map_of m k = Some w \<Longrightarrow> length m = Suc (length (remove_k k m))"
  using mset_remove_k [of m k w] by (metis size_add_mset size_mset)

end

subsection \<open>BTreeMap\<close>

fun bt_insert :: "'k::linorder \<Rightarrow> 'v \<Rightarrow> ('k \<times> 'v) list \<Rightarrow> ('k \<times> 'v) list" where
  "bt_insert k v [] = [(k, v)]"
| "bt_insert k v ((k', v') # m) =
     (if k < k' then (k, v) # (k', v') # m
      else if k = k' then (k, v) # m
      else (k', v') # bt_insert k v m)"

definition bt_remove :: "'k::linorder \<Rightarrow> ('k \<times> 'v) list \<Rightarrow> ('k \<times> 'v) list" where
  "bt_remove k m = filter (\<lambda>p. fst p \<noteq> k) m"

definition bt_wf :: "('k::linorder \<times> 'v) list \<Rightarrow> bool" where
  "bt_wf m \<longleftrightarrow> sorted_wrt (<) (map fst m)"

lemma fst_set_bt_insert: "fst ` set (bt_insert k v m) = insert k (fst ` set m)"
  by (induction k v m rule: bt_insert.induct) auto

lemma bt_wf_insert: "bt_wf m \<Longrightarrow> bt_wf (bt_insert k v m)"
proof (induction k v m rule: bt_insert.induct)
  case (1 k v)
  then show ?case by (simp add: bt_wf_def)
next
  case (2 k v k' v' m)
  then show ?case
    using fst_set_bt_insert [of k v m] by (fastforce simp: bt_wf_def)
qed

lemma bt_wf_remove: "bt_wf m \<Longrightarrow> bt_wf (bt_remove k m)"
  unfolding bt_wf_def bt_remove_def
  by (induction m) auto

lemma lookup_bt_insert: "map_of (bt_insert k v m) = (map_of m)(k \<mapsto> v)"
  by (induction k v m rule: bt_insert.induct) (auto simp: fun_eq_iff)

lemma lookup_bt_remove: "map_of (bt_remove k m) = (map_of m)(k := None)"
  by (induction m) (auto simp: bt_remove_def fun_eq_iff)

interpretation btm: entry_map bt_insert bt_remove bt_wf
proof unfold_locales
  show "bt_wf []" by (simp add: bt_wf_def)
next
  fix m :: "('a \<times> 'b) list"
  assume "bt_wf m"
  then show "distinct (map fst m)"
    by (simp add: bt_wf_def strict_sorted_iff)
qed (simp_all add: bt_wf_insert bt_wf_remove lookup_bt_insert lookup_bt_remove)

subsection \<open>HashMap\<close>

definition hm_wf :: "('k \<times> 'v) list \<Rightarrow> bool" where
  "hm_wf m \<longleftrightarrow> distinct (map fst m)"

interpretation hm: entry_map AList.update AList.delete hm_wf
  by unfold_locales
    (simp_all add: hm_wf_def distinct_update distinct_delete update_conv' delete_conv')

section \<open>Lists\<close>

text \<open>Position of the first element with a property, as \<^verbatim>\<open>Iterator::position\<close> reports it.\<close>

fun position :: "('a \<Rightarrow> bool) \<Rightarrow> 'a list \<Rightarrow> nat option" where
  "position P [] = None"
| "position P (x # xs) = (if P x then Some 0 else map_option Suc (position P xs))"

text \<open>\<^verbatim>\<open>Vec::remove\<close>: the element at an index is taken out and the rest moves up.\<close>

definition remove_nth :: "nat \<Rightarrow> 'a list \<Rightarrow> 'a list" where
  "remove_nth i xs = take i xs @ drop (Suc i) xs"

lemma position_Some:
  "position P xs = Some i \<Longrightarrow> i < length xs \<and> P (xs ! i) \<and> (\<forall>j < i. \<not> P (xs ! j))"
proof (induction xs arbitrary: i)
  case Nil
  then show ?case by simp
next
  case (Cons x xs)
  show ?case
  proof (cases "P x")
    case True
    with Cons.prems show ?thesis by simp
  next
    case False
    with Cons.prems obtain j where j: "position P xs = Some j" "i = Suc j" by auto
    with Cons.IH False show ?thesis by (auto simp: less_Suc_eq_0_disj)
  qed
qed

lemma position_None: "position P xs = None \<longleftrightarrow> (\<forall>x \<in> set xs. \<not> P x)"
  by (induction xs) auto

lemma set_remove_nth:
  "distinct xs \<Longrightarrow> i < length xs \<Longrightarrow> set (remove_nth i xs) = set xs - {xs ! i}"
proof -
  assume d: "distinct xs" and i: "i < length xs"
  have "xs = take i xs @ xs ! i # drop (Suc i) xs"
    using i by (rule id_take_nth_drop)
  then have "distinct (take i xs @ xs ! i # drop (Suc i) xs)"
      and "set xs = set (take i xs @ xs ! i # drop (Suc i) xs)"
    using d by simp_all
  then show "set (remove_nth i xs) = set xs - {xs ! i}"
    by (auto simp: remove_nth_def)
qed

lemma distinct_remove_nth: "distinct xs \<Longrightarrow> distinct (remove_nth i xs)"
  by (simp add: remove_nth_def set_take_disj_set_drop_if_distinct)

text \<open>
  \<^verbatim>\<open>sort_by\<close> and \<^verbatim>\<open>sort_unstable_by\<close> with a comparator, given as the relation \<open>le\<close> of being less
  or equal: insertion sort.
\<close>

fun insort_by :: "('a \<Rightarrow> 'a \<Rightarrow> bool) \<Rightarrow> 'a \<Rightarrow> 'a list \<Rightarrow> 'a list" where
  "insort_by le x [] = [x]"
| "insort_by le x (y # ys) = (if le x y then x # y # ys else y # insort_by le x ys)"

definition sort_by :: "('a \<Rightarrow> 'a \<Rightarrow> bool) \<Rightarrow> 'a list \<Rightarrow> 'a list" where
  "sort_by le xs = foldr (insort_by le) xs []"

lemma mset_insort_by [simp]: "mset (insort_by le x xs) = add_mset x (mset xs)"
  by (induction xs) auto

lemma mset_sort_by [simp]: "mset (sort_by le xs) = mset xs"
  by (induction xs) (simp_all add: sort_by_def)

lemma set_insort_by [simp]: "set (insort_by le x xs) = insert x (set xs)"
  by (simp flip: set_mset_mset)

lemma set_sort_by [simp]: "set (sort_by le xs) = set xs"
  by (simp flip: set_mset_mset)

lemma length_sort_by [simp]: "length (sort_by le xs) = length xs"
  using mset_sort_by [of le xs] by (metis size_mset)

lemma distinct_sort_by [simp]: "distinct (sort_by le xs) \<longleftrightarrow> distinct xs"
  using mset_sort_by [of le xs] by (metis mset_eq_imp_distinct_iff)

lemma sorted_insort_by:
  assumes "\<And>x y. le x y \<or> le y x" and "\<And>x y z. le x y \<Longrightarrow> le y z \<Longrightarrow> le x z"
  shows "sorted_wrt le xs \<Longrightarrow> sorted_wrt le (insort_by le x xs)"
proof (induction xs)
  case (Cons y ys)
  then show ?case
    using assms(1) [of x y] assms(2) [of x y] by auto
qed simp

lemma sorted_sort_by:
  assumes "\<And>x y. le x y \<or> le y x" and "\<And>x y z. le x y \<Longrightarrow> le y z \<Longrightarrow> le x z"
  shows "sorted_wrt le (sort_by le xs)"
  by (induction xs) (simp_all add: sort_by_def sorted_insort_by [OF assms])

section \<open>Refinement of an abstract machine\<close>

text \<open>
  A component refines an abstract machine when, under its invariant, every step that succeeds is
  matched by a step of the abstract machine on the abstracted state, and keeps the invariant.
  Runs then refine runs. The abstract machine is a relation, since a specification may leave a
  choice open that the component makes by the order of an index.
\<close>

fun run_ops :: "('o \<Rightarrow> 's \<Rightarrow> 's option) \<Rightarrow> 'o list \<Rightarrow> 's \<Rightarrow> 's option" where
  "run_ops step [] s = Some s"
| "run_ops step (op # ops) s = (case step op s of None \<Rightarrow> None | Some s' \<Rightarrow> run_ops step ops s')"

inductive spec_run :: "('o \<Rightarrow> 'a \<Rightarrow> 'a \<Rightarrow> bool) \<Rightarrow> 'o list \<Rightarrow> 'a \<Rightarrow> 'a \<Rightarrow> bool" for spec where
  spec_run_Nil: "spec_run spec [] a a"
| spec_run_Cons: "spec op a b \<Longrightarrow> spec_run spec ops b c \<Longrightarrow> spec_run spec (op # ops) a c"

inductive_simps spec_run_simps [simp]:
  "spec_run spec [] a c"
  "spec_run spec (op # ops) a c"

locale refinement =
  fixes invar :: "'s \<Rightarrow> bool"
    and abstraction :: "'s \<Rightarrow> 'a"
    and step :: "'o \<Rightarrow> 's \<Rightarrow> 's option"
    and spec :: "'o \<Rightarrow> 'a \<Rightarrow> 'a \<Rightarrow> bool"
  assumes step_invar: "invar s \<Longrightarrow> step op s = Some s' \<Longrightarrow> invar s'"
    and step_spec: "invar s \<Longrightarrow> step op s = Some s' \<Longrightarrow> spec op (abstraction s) (abstraction s')"
begin

lemma run_invar: "invar s \<Longrightarrow> run_ops step ops s = Some s' \<Longrightarrow> invar s'"
  by (induction ops arbitrary: s) (auto split: option.splits dest: step_invar)

lemma run_spec:
  assumes "invar s" and "run_ops step ops s = Some s'"
  shows "spec_run spec ops (abstraction s) (abstraction s')"
  using assms
proof (induction ops arbitrary: s)
  case Nil
  then show ?case by simp
next
  case (Cons op ops)
  then obtain t where t: "step op s = Some t" "run_ops step ops t = Some s'"
    by (auto split: option.splits)
  then show ?case
    using Cons.IH [OF step_invar [OF Cons.prems(1) t(1)] t(2)] step_spec [OF Cons.prems(1) t(1)]
    by (auto intro: spec_run_Cons)
qed

end

end
