(* ===== verification/Wit.thy ===== *)
theory Wit
  imports Prelude
begin

text \<open>
  Units of value (data_structures/src/wit.rs) and the capability map
  (data_structures/src/capabilities.rs).

  \<^verbatim>\<open>Wit\<close> is a newtype around a 64-bit number of nanowits; \<^verbatim>\<open>Epoch\<close> is a 32-bit number and
  \<^verbatim>\<open>Power\<close> a 64-bit one.
\<close>

type_synonym wit = u64
type_synonym epoch = u32
type_synonym power = u64

section \<open>Wit\<close>

definition NANOWITS_PER_WIT :: u64 where
  "NANOWITS_PER_WIT = 1000000000"

definition WIT_DECIMAL_PLACES :: nat where
  "WIT_DECIMAL_PLACES = 9"

definition from_wits :: "u64 \<Rightarrow> (unit, wit) outcome" where
  "from_wits wits = (case checked_mul wits NANOWITS_PER_WIT of Some n \<Rightarrow> Ok n | None \<Rightarrow> Panic)"

definition wits_and_nanowits :: "wit \<Rightarrow> u64 \<times> u64" where
  "wits_and_nanowits w = (w div NANOWITS_PER_WIT, w mod NANOWITS_PER_WIT)"

definition wit_mul_epoch :: "wit \<Rightarrow> epoch \<Rightarrow> power" where
  "wit_mul_epoch w e = w * ucast e"

fun wit_sum_from :: "wit \<Rightarrow> wit list \<Rightarrow> wit" where
  "wit_sum_from acc [] = acc"
| "wit_sum_from acc (w # ws) = wit_sum_from (acc + w) ws"

definition wit_sum :: "wit list \<Rightarrow> wit" where
  "wit_sum ws = wit_sum_from 0 ws"

definition lose_precision :: "wit \<Rightarrow> nat \<Rightarrow> wit" where
  "lose_precision w digits = w div 10 ^ digits"

text \<open>Decimal notation of a number, least number of digits first.\<close>

fun show_nat :: "nat \<Rightarrow> string" where
  "show_nat n = (if n < 10 then [char_of (48 + n)] else show_nat (n div 10) @ [char_of (48 + n mod 10)])"

declare show_nat.simps [simp del]

fun pad_left :: "nat \<Rightarrow> string \<Rightarrow> string" where
  "pad_left width s = replicate (width - length s) CHR ''0'' @ s"

definition wit_display :: "wit \<Rightarrow> string" where
  "wit_display w =
     (let (amount_wits, amount_nanowits) = wits_and_nanowits w
      in show_nat (unat amount_wits) @ ''.''
         @ pad_left WIT_DECIMAL_PLACES (show_nat (unat amount_nanowits)))"

lemma wits_and_nanowits_value:
  "wits_and_nanowits w = (a, b) \<Longrightarrow>
     unat w = unat a * unat NANOWITS_PER_WIT + unat b \<and> unat b < unat NANOWITS_PER_WIT"
  by (auto simp: wits_and_nanowits_def NANOWITS_PER_WIT_def unat_div unat_mod)

lemma wit_sum_from_eq: "wit_sum_from t ws = t + sum_list ws"
  by (induction t ws rule: wit_sum_from.induct) (simp_all add: add.assoc)

lemma wit_sum_eq [simp]: "wit_sum ws = sum_list ws"
  by (simp add: wit_sum_def wit_sum_from_eq)

text \<open>Whole wits of an amount: the form in which the staking code uses \<open>lose_precision\<close>.\<close>

lemma unat_lose_precision_wit [unat_simps]:
  "unat (lose_precision w WIT_DECIMAL_PLACES) = unat w div 1000000000"
  by (simp add: lose_precision_def WIT_DECIMAL_PLACES_def unat_div)

text \<open>Reading the decimal notation back.\<close>

fun digits_value :: "string \<Rightarrow> nat" where
  "digits_value s = foldl (\<lambda>acc c. 10 * acc + (of_char c - 48)) 0 s"

lemma digits_value_snoc: "digits_value (s @ [c]) = 10 * digits_value s + (of_char c - 48)"
  by simp

lemma foldl_digits_zeros:
  "foldl (\<lambda>acc c. 10 * acc + (of_char c - 48 :: nat)) 0 (replicate n CHR ''0'' @ s)
     = foldl (\<lambda>acc c. 10 * acc + (of_char c - 48)) 0 s"
  by (induction n) simp_all

lemma digits_value_pad [simp]: "digits_value (pad_left n s) = digits_value s"
  by (simp add: foldl_digits_zeros del: foldl_append)

lemma digits_value_show [simp]: "digits_value (show_nat n) = n"
proof (induction n rule: show_nat.induct)
  case (1 n)
  show ?case
  proof (cases "n < 10")
    case True
    then show ?thesis by (subst show_nat.simps) simp
  next
    case False
    have d: "of_char (char_of (48 + n mod 10) :: char) = 48 + n mod 10" by simp
    from False have "digits_value (show_nat n) = 10 * digits_value (show_nat (n div 10)) + n mod 10"
      by (subst show_nat.simps) (simp del: digits_value.simps add: digits_value_snoc d)
    also have "\<dots> = n" using 1 False by (simp del: digits_value.simps)
    finally show ?thesis .
  qed
qed

lemma dot_not_digit: "CHR ''.'' \<notin> set (show_nat n)"
proof (induction n rule: show_nat.induct)
  case (1 n)
  have no: "char_of (48 + d) \<noteq> CHR ''.''" if "d < 10" for d :: nat
  proof
    assume "char_of (48 + d) = CHR ''.''"
    then have "of_char (char_of (48 + d) :: char) = (of_char CHR ''.'' :: nat)" by simp
    with that show False by simp
  qed
  show ?case
  proof (cases "n < 10")
    case True
    with no show ?thesis by (subst show_nat.simps) (simp, metis)
  next
    case False
    with 1 no [of "n mod 10"] show ?thesis by (subst show_nat.simps) auto
  qed
qed

section \<open>Capabilities\<close>

datatype capability = Mining | Witnessing

definition ALL_CAPABILITIES :: "capability list" where
  "ALL_CAPABILITIES = [Mining, Witnessing]"

record 't capability_map =
  mining :: 't
  witnessing :: 't

fun cap_get :: "'t capability_map \<Rightarrow> capability \<Rightarrow> 't" where
  "cap_get m Mining = mining m"
| "cap_get m Witnessing = witnessing m"

fun cap_update :: "'t capability_map \<Rightarrow> capability \<Rightarrow> 't \<Rightarrow> 't capability_map" where
  "cap_update m Mining v = m\<lparr>mining := v\<rparr>"
| "cap_update m Witnessing v = m\<lparr>witnessing := v\<rparr>"

definition cap_update_all :: "'t capability_map \<Rightarrow> 't \<Rightarrow> 't capability_map" where
  "cap_update_all m v = m\<lparr>mining := v, witnessing := v\<rparr>"

lemma cap_get_update [simp]:
  "cap_get (cap_update m c v) c' = (if c = c' then v else cap_get m c')"
  by (cases c; cases c') auto

lemma capability_map_eqI:
  "(\<And>c. cap_get m c = cap_get m' c) \<Longrightarrow> m = (m' :: 't capability_map)"
  by (metis (full_types) cap_get.simps capability_map.equality old.unit.exhaust)

lemma cap_get_update_all [simp]: "cap_get (cap_update_all m v) c = v"
  by (cases c) (auto simp: cap_update_all_def)

end
