(* ===== verification/Stake.thy ===== *)
theory Stake
  imports Wit
begin

text \<open>
  Stake entries (data_structures/src/staking/stake.rs, errors.rs and the nonce policy of
  helpers.rs), at the types of \<^verbatim>\<open>StakesTracker\<close>: coins are \<open>wit\<close>, epochs 32 bits, nonces and
  power 64 bits, UNIT is \<open>WIT_DECIMAL_PLACES\<close>. The address type stays a parameter.

  A method taking \<^verbatim>\<open>&mut self\<close> returns its outcome together with the entry it leaves behind,
  because an error return can leave a partly updated entry.
\<close>

section \<open>Definitions\<close>

datatype 'a stake_key = StakeKey (validator: 'a) (withdrawer: 'a)

datatype 'a stakes_error =
    AmountIsBelowMinimum wit wit
  | EpochInThePast epoch epoch
  | EpochOverflow u64 epoch
  | EntryNotFound "'a stake_key"
  | PoisonedLock
  | InvalidAuthentication
  | ValidatorNotFound 'a
  | WithdrawerNotFound 'a
  | DifferentWithdrawer 'a
  | EmptyQuery

datatype nonce_policy = SetFromEpoch epoch | KeepAsIs

record stake =
  coins :: wit
  epochs :: "epoch capability_map"
  nonce :: u64

definition default_stake :: stake where
  "default_stake = \<lparr>coins = 0, epochs = \<lparr>mining = 0, witnessing = 0\<rparr>, nonce = 0\<rparr>"

text \<open>The loop over \<open>ALL_CAPABILITIES\<close>; \<open>None\<close> is the division by zero.\<close>

fun average_epochs ::
  "wit \<Rightarrow> wit \<Rightarrow> wit \<Rightarrow> epoch \<Rightarrow> capability list \<Rightarrow> epoch capability_map \<Rightarrow> epoch capability_map option"
where
  "average_epochs coins_before added coins_after e [] m = Some m"
| "average_epochs coins_before added coins_after e (c # cs) m =
     (let epoch_before = cap_get m c;
          product_before = wit_mul_epoch (lose_precision coins_before WIT_DECIMAL_PLACES) epoch_before;
          product_added = wit_mul_epoch (lose_precision added WIT_DECIMAL_PLACES) e;
          divisor = lose_precision coins_after WIT_DECIMAL_PLACES
      in if divisor = 0 then None
         else average_epochs coins_before added coins_after e cs
                (cap_update m c (ucast ((product_before + product_added) div divisor))))"

fun apply_nonce_policy :: "nonce_policy \<Rightarrow> stake \<Rightarrow> stake" where
  "apply_nonce_policy (SetFromEpoch e) s = s\<lparr>nonce := ucast e\<rparr>"
| "apply_nonce_policy KeepAsIs s = s"

definition stake_add_stake ::
  "stake \<Rightarrow> wit \<Rightarrow> epoch \<Rightarrow> nonce_policy \<Rightarrow> wit \<Rightarrow> ('a stakes_error, wit) outcome \<times> stake"
where
  "stake_add_stake s added e nonce_pol minimum_stakeable =
     (if added < minimum_stakeable
      then (Err (AmountIsBelowMinimum added minimum_stakeable), s)
      else
        let coins_before = coins s;
            coins_after = coins_before + added;
            s1 = s\<lparr>coins := coins_after\<rparr>
        in case average_epochs coins_before added coins_after e ALL_CAPABILITIES (epochs s1) of
             None \<Rightarrow> (Panic, s1)
           | Some m \<Rightarrow> (Ok coins_after, apply_nonce_policy nonce_pol (s1\<lparr>epochs := m\<rparr>)))"

definition stake_power :: "stake \<Rightarrow> capability \<Rightarrow> epoch \<Rightarrow> power" where
  "stake_power s c current_epoch =
     wit_mul_epoch (lose_precision (coins s) WIT_DECIMAL_PLACES)
       (saturating_sub current_epoch (cap_get (epochs s) c))"

definition stake_remove_stake ::
  "stake \<Rightarrow> wit \<Rightarrow> nonce_policy \<Rightarrow> wit \<Rightarrow> ('a stakes_error, wit) outcome \<times> stake"
where
  "stake_remove_stake s removed nonce_pol minimum_stakeable =
     (let coins_after = coins s - removed
      in if 0 < coins_after \<and> coins_after < minimum_stakeable
         then (Err (AmountIsBelowMinimum coins_after minimum_stakeable), s)
         else
           let s1 = apply_nonce_policy nonce_pol (s\<lparr>coins := coins_after\<rparr>)
           in (Ok (coins s1), s1))"

definition stake_reset_age :: "stake \<Rightarrow> capability \<Rightarrow> epoch \<Rightarrow> stake" where
  "stake_reset_age s c reset_epoch = s\<lparr>epochs := cap_update (epochs s) c reset_epoch\<rparr>"

definition totalize_stakes :: "stake list \<Rightarrow> wit" where
  "totalize_stakes stakes = foldl (\<lambda>a b. a + coins b) 0 stakes"

section \<open>Ordering of stake keys\<close>

text \<open>The derived \<^verbatim>\<open>Ord\<close> of \<^verbatim>\<open>StakeKey\<close> compares the fields in order.\<close>

instantiation stake_key :: (linorder) linorder
begin

definition less_eq_stake_key :: "'a stake_key \<Rightarrow> 'a stake_key \<Rightarrow> bool" where
  "less_eq_stake_key k1 k2 \<longleftrightarrow>
     validator k1 < validator k2 \<or> validator k1 = validator k2 \<and> withdrawer k1 \<le> withdrawer k2"

definition less_stake_key :: "'a stake_key \<Rightarrow> 'a stake_key \<Rightarrow> bool" where
  "less_stake_key k1 k2 \<longleftrightarrow>
     validator k1 < validator k2 \<or> validator k1 = validator k2 \<and> withdrawer k1 < withdrawer k2"

instance
  by standard
    (auto simp: less_eq_stake_key_def less_stake_key_def intro: stake_key.expand)

end

section \<open>Averaging\<close>

lemma weighted_average_le_max:
  fixes a b d x y :: nat
  assumes "a + b \<le> d"
  shows "(a * x + b * y) div d \<le> max x y"
proof -
  have "a * x + b * y \<le> a * max x y + b * max x y"
    by (intro add_mono mult_le_mono2) auto
  also have "\<dots> \<le> d * max x y"
    using assms by (metis add_mult_distrib mult_le_mono1)
  finally show ?thesis
    by (metis div_le_mono div_mult_self1_is_m mult_is_0 nat_less_le zero_le div_by_0 neq0_conv)
qed

lemma div_add_superadditive: "(a :: nat) div d + b div d \<le> (a + b) div d"
  by (metis add.commute div_add1_eq le_add1 add_le_cancel_left)

lemma stake_apply_nonce_policy [simp]:
  "coins (apply_nonce_policy p s) = coins s" "epochs (apply_nonce_policy p s) = epochs s"
  by (cases p; simp)+


lemma average_epochs_Some:
  assumes "average_epochs cb a ca e cs m = Some m'" and "distinct cs"
  shows "cap_get m' c =
    (if c \<in> set cs
     then ucast ((wit_mul_epoch (lose_precision cb WIT_DECIMAL_PLACES) (cap_get m c)
                  + wit_mul_epoch (lose_precision a WIT_DECIMAL_PLACES) e)
                 div lose_precision ca WIT_DECIMAL_PLACES)
     else cap_get m c)"
  using assms
  by (induction cb a ca e cs m rule: average_epochs.induct)
    (auto simp: Let_def split: if_splits)

lemma average_epochs_None:
  "average_epochs cb a ca e cs m = None \<longleftrightarrow> cs \<noteq> [] \<and> lose_precision ca WIT_DECIMAL_PLACES = 0"
  by (induction cb a ca e cs m rule: average_epochs.induct) (auto simp: Let_def)

lemma unat_lose_precision_less:
  "unat (w :: wit) < 2 ^ 32 * 1000000000 \<Longrightarrow> unat w div 1000000000 < 2 ^ 32"
  by (simp add: less_mult_imp_div_less)

lemma unat_epoch_to_u64 [unat_simps]: "unat (ucast (e :: epoch) :: u64) = unat e"
proof -
  have "unat e < 2 ^ 32" using unat_lt_size [of e] by simp
  then show ?thesis by (simp add: unat_cast_mod)
qed

lemma unat_wit_mul_epoch [unat_simps]:
  assumes "unat w < 2 ^ 32"
  shows "unat (wit_mul_epoch w e) = unat w * unat e"
proof -
  have "unat w * unat e < 2 ^ 32 * 2 ^ 32"
    using assms unsigned_less [of e] by (intro mult_strict_mono) auto
  then show ?thesis
    by (simp add: wit_mul_epoch_def unat_simps)
qed

text \<open>Below 2^32 wits, well above the total supply, nothing in the averaging wraps around.\<close>

lemma unat_averaged_epoch:
  assumes "unat cb + unat a < 2 ^ 32 * 1000000000"
  shows "unat (ucast ((wit_mul_epoch (lose_precision cb WIT_DECIMAL_PLACES) e0
                  + wit_mul_epoch (lose_precision a WIT_DECIMAL_PLACES) e)
                 div lose_precision (cb + a) WIT_DECIMAL_PLACES) :: epoch)
       = (unat cb div 1000000000 * unat e0 + unat a div 1000000000 * unat e)
           div ((unat cb + unat a) div 1000000000)" (is "unat (ucast ?q :: epoch) = ?n div ?d")
proof -
  have sum: "unat (cb + a) = unat cb + unat a"
    using assms by (simp add: unat_simps)
  have dd: "unat cb div 1000000000 + unat a div 1000000000 \<le> ?d"
    by (rule div_add_superadditive)
  have d: "?d < 2 ^ 32"
    using assms by (simp add: less_mult_imp_div_less)
  have e: "unat e0 < 2 ^ 32" "unat e < 2 ^ 32"
    using unsigned_less [of e0] unsigned_less [of e] by simp_all
  have small: "unat cb div 1000000000 < 2 ^ 32" "unat a div 1000000000 < 2 ^ 32"
    using dd d by simp_all
  have "?n \<le> unat cb div 1000000000 * 2 ^ 32 + unat a div 1000000000 * 2 ^ 32"
    using e by (intro add_mono mult_le_mono2) simp_all
  also have "\<dots> \<le> ?d * 2 ^ 32"
    using dd by (metis add_mult_distrib mult_le_mono1)
  also have "\<dots> < 2 ^ 32 * 2 ^ 32"
    using d by simp
  finally have n: "?n < 2 ^ 64" by simp
  have q: "unat ?q = ?n div ?d"
    using n small by (simp add: unat_div sum unat_simps)
  have "?n div ?d \<le> max (unat e0) (unat e)"
    using dd by (rule weighted_average_le_max)
  with e have "?n div ?d < 2 ^ 32" by linarith
  with q show ?thesis
    by (simp add: unat_cast_mod)
qed

lemma stake_add_stake_Ok:
  assumes "unat (coins s) + unat added < 2 ^ 32 * 1000000000"
    and "1000000000 \<le> unat (coins s) + unat added"
    and "minimum_stakeable \<le> added"
  obtains s' where
    "stake_add_stake s added e np minimum_stakeable = (Ok (coins s + added), s')"
    "coins s' = coins s + added"
    "nonce s' = (case np of SetFromEpoch e' \<Rightarrow> ucast e' | KeepAsIs \<Rightarrow> nonce s)"
    "\<And>c. unat (cap_get (epochs s') c)
       = (unat (coins s) div 1000000000 * unat (cap_get (epochs s) c)
          + unat added div 1000000000 * unat e) div ((unat (coins s) + unat added) div 1000000000)"
proof -
  let ?avg = "average_epochs (coins s) added (coins s + added) e ALL_CAPABILITIES (epochs s)"
  have "unat (coins s + added) = unat (coins s) + unat added"
    using assms(1) by (simp add: unat_simps)
  then have "unat (lose_precision (coins s + added) WIT_DECIMAL_PLACES) > 0"
    using assms(2) by (simp add: unat_simps div_greater_zero_iff)
  then have "?avg \<noteq> None"
    by (auto simp: average_epochs_None)
  then obtain m where m: "?avg = Some m" by auto
  have "distinct ALL_CAPABILITIES" and all: "c \<in> set ALL_CAPABILITIES" for c
    by (simp add: ALL_CAPABILITIES_def) (cases c; simp add: ALL_CAPABILITIES_def)
  then have avg: "unat (cap_get m c)
       = (unat (coins s) div 1000000000 * unat (cap_get (epochs s) c)
          + unat added div 1000000000 * unat e) div ((unat (coins s) + unat added) div 1000000000)" for c
    using average_epochs_Some [OF m, of c] unat_averaged_epoch [OF assms(1)] by simp
  show thesis
  proof (rule that)
    show "stake_add_stake s added e np minimum_stakeable =
        (Ok (coins s + added), apply_nonce_policy np (s\<lparr>coins := coins s + added, epochs := m\<rparr>))"
      using m assms(3) by (simp add: stake_add_stake_def Let_def not_less)
  qed (use avg in \<open>simp_all split: nonce_policy.split\<close>)
qed


lemma stake_add_stake_Err:
  "added < minimum_stakeable \<Longrightarrow>
     stake_add_stake s added e np minimum_stakeable
       = (Err (AmountIsBelowMinimum added minimum_stakeable), s)"
  by (simp add: stake_add_stake_def)

lemma stake_add_stake_Panic_iff:
  "(\<exists>s'. stake_add_stake s added e np minimum_stakeable = (Panic, s')) \<longleftrightarrow>
     minimum_stakeable \<le> added \<and> lose_precision (coins s + added) WIT_DECIMAL_PLACES = 0"
proof -
  have "ALL_CAPABILITIES \<noteq> []" by (simp add: ALL_CAPABILITIES_def)
  then show ?thesis
    using average_epochs_None [of "coins s" added "coins s + added" e ALL_CAPABILITIES "epochs s"]
    by (auto simp: stake_add_stake_def Let_def not_less split: option.splits)
qed

lemma unat_stake_power:
  assumes "unat (coins s) < 2 ^ 32 * 1000000000"
  shows "unat (stake_power s c now)
    = unat (coins s) div 1000000000 * (unat now - unat (cap_get (epochs s) c))"
  using unat_lose_precision_less [OF assms] by (simp add: stake_power_def unat_simps)

text \<open>Adding stake never moves coin age to the future of both its sources.\<close>

lemma stake_add_stake_epoch_le:
  assumes "unat (coins s) + unat added < 2 ^ 32 * 1000000000"
    and "1000000000 \<le> unat (coins s) + unat added"
    and "minimum_stakeable \<le> added"
    and "stake_add_stake s added e np minimum_stakeable = (r, s')"
  shows "cap_get (epochs s') c \<le> max (cap_get (epochs s) c) e"
proof -
  obtain s1 where s1: "stake_add_stake s added e np minimum_stakeable = (Ok (coins s + added) :: ('a stakes_error, wit) outcome, s1)"
    and ep: "unat (cap_get (epochs s1) c)
       = (unat (coins s) div 1000000000 * unat (cap_get (epochs s) c)
          + unat added div 1000000000 * unat e) div ((unat (coins s) + unat added) div 1000000000)"
    using stake_add_stake_Ok [OF assms(1-3)] by metis
  have "unat (cap_get (epochs s1) c) \<le> max (unat (cap_get (epochs s) c)) (unat e)"
    unfolding ep by (rule weighted_average_le_max) (rule div_add_superadditive)
  then show ?thesis
    using s1 assms(4) by (auto simp: word_le_nat_alt max_def split: if_splits)
qed

lemma weighted_age_bounds:
  fixes a b d x now :: nat
  assumes "a + b \<le> d" and "0 < d" and "x \<le> now"
  shows "a * (now - x) \<le> d * (now - (a * x + b * now) div d)"
    and "d * (now - (a * x + b * now) div d) < a * (now - x) + (d - a - b) * now + d"
proof -
  let ?q = "(a * x + b * now) div d"
  have le: "?q \<le> now"
    using weighted_average_le_max [OF assms(1), of x now] assms(3) by simp
  have lo: "d * ?q \<le> a * x + b * now" by simp
  have hi: "a * x + b * now < d * ?q + d"
    using assms(2) by (metis add.commute dividend_less_times_div)
  have ax: "a * x \<le> a * now" using assms(3) by simp
  have dn: "d * now = a * now + b * now + (d - a - b) * now"
    using assms(1) by (simp flip: add_mult_distrib)
  have "d * ?q \<le> d * now" using le by simp
  then show "a * (now - x) \<le> d * (now - ?q)"
    and "d * (now - ?q) < a * (now - x) + (d - a - b) * now + d"
    unfolding diff_mult_distrib2 using lo hi dn ax by linarith+
qed


section \<open>Properties\<close>



end
