(* ===== verification/Stakes.thy ===== *)
theory Stakes
  imports Stake "HOL-Library.Product_Lexorder"
begin

text \<open>
  The stakes tracker (data_structures/src/staking/stakes.rs, helpers.rs).

  A \<^verbatim>\<open>SyncStakeEntry\<close> is a pair of reference-counted, locked cells, and the three indexes of
  \<^verbatim>\<open>Stakes\<close> share the cells: a write through one index is seen through the others. The model
  keeps that sharing: a heap maps references to cells, and the indexes hold references. Locks
  are not modelled, because every operation takes \<^verbatim>\<open>&mut self\<close> or only reads.

  Every operation returns its outcome and the tracker it leaves, errors included.
\<close>

type_synonym ref = nat

record 'a stakes =
  heap :: "ref \<rightharpoonup> 'a stake_key \<times> stake"
  fresh :: ref
  by_key :: "('a stake_key \<times> ref) list"
  by_validator :: "('a \<times> ref list) list"
  by_withdrawer :: "('a \<times> ref list) list"

section \<open>Cells\<close>

definition read_entry :: "'a stakes \<Rightarrow> ref \<Rightarrow> 'a stake_key \<times> stake" where
  "read_entry st r = the (heap st r)"

definition read_key :: "'a stakes \<Rightarrow> ref \<Rightarrow> 'a stake_key" where
  "read_key st r = fst (read_entry st r)"

definition read_value :: "'a stakes \<Rightarrow> ref \<Rightarrow> stake" where
  "read_value st r = snd (read_entry st r)"

definition write_value :: "'a stakes \<Rightarrow> ref \<Rightarrow> stake \<Rightarrow> 'a stakes" where
  "write_value st r v = st\<lparr>heap := (heap st)(r \<mapsto> (read_key st r, v))\<rparr>"

definition alloc_entry :: "'a stakes \<Rightarrow> 'a stake_key \<Rightarrow> stake \<Rightarrow> ref \<times> 'a stakes" where
  "alloc_entry st k v =
     (fresh st, st\<lparr>heap := (heap st)(fresh st \<mapsto> (k, v)), fresh := Suc (fresh st)\<rparr>)"

text \<open>\<^verbatim>\<open>PartialEq for SyncStakeEntry\<close>, with the comparisons the code makes.\<close>

definition sync_eq :: "stake \<Rightarrow> stake \<Rightarrow> bool" where
  "sync_eq self_stake other_stake \<longleftrightarrow>
     coins self_stake = coins other_stake
     \<and> epochs other_stake = epochs other_stake
     \<and> nonce other_stake = nonce other_stake"

section \<open>Indexes\<close>

definition empty_stakes :: "'a stakes" where
  "empty_stakes = \<lparr>heap = Map.empty, fresh = 0, by_key = [], by_validator = [], by_withdrawer = []\<rparr>"

definition index_push :: "'a::linorder \<Rightarrow> ref \<Rightarrow> ('a \<times> ref list) list \<Rightarrow> ('a \<times> ref list) list" where
  "index_push a r ix =
     (case map_of ix a of
        Some rs \<Rightarrow> bt_insert a (rs @ [r]) ix
      | None \<Rightarrow> bt_insert a [r] ix)"

definition index_addresses :: "'a::linorder stakes \<Rightarrow> 'a stake_key \<Rightarrow> ref \<Rightarrow> 'a stakes" where
  "index_addresses st key r =
     st\<lparr>by_validator := index_push (validator key) r (by_validator st),
        by_withdrawer := index_push (withdrawer key) r (by_withdrawer st)\<rparr>"

definition reindex :: "'a::linorder stakes \<Rightarrow> 'a stakes" where
  "reindex st =
     foldl (\<lambda>acc (key, r). index_addresses acc key r)
       (st\<lparr>by_validator := [], by_withdrawer := []\<rparr>) (by_key st)"

definition with_entries ::
  "(ref \<rightharpoonup> 'a::linorder stake_key \<times> stake) \<Rightarrow> ref \<Rightarrow> ('a stake_key \<times> ref) list \<Rightarrow> 'a stakes" where
  "with_entries h n entries =
     reindex \<lparr>heap = h, fresh = n, by_key = entries, by_validator = [], by_withdrawer = []\<rparr>"

text \<open>\<^verbatim>\<open>Clone\<close>: every entry gets a cell of its own in the copy.\<close>

definition clone_entry :: "'a::linorder stakes \<Rightarrow> 'a stakes \<Rightarrow> 'a stake_key \<times> ref \<Rightarrow> 'a stakes" where
  "clone_entry old acc entry =
     (case entry of (key, r) \<Rightarrow>
        let (r', acc') = alloc_entry acc key (read_value old r)
        in acc'\<lparr>by_key := bt_insert key r' (by_key acc')\<rparr>)"

definition stakes_clone :: "'a::linorder stakes \<Rightarrow> 'a stakes" where
  "stakes_clone st = reindex (foldl (clone_entry st) empty_stakes (by_key st))"

section \<open>Adding and removing stake\<close>

definition nonce_policy_of :: "bool \<Rightarrow> epoch \<Rightarrow> nonce_policy" where
  "nonce_policy_of set_nonce e = (if set_nonce then SetFromEpoch e else KeepAsIs)"

text \<open>\<^verbatim>\<open>by_key.entry(key).or_insert(..)\<close>: the entry for a key, created when there is none.\<close>

definition entry_or_insert :: "'a::linorder stakes \<Rightarrow> 'a stake_key \<Rightarrow> epoch \<Rightarrow> ref \<times> 'a stakes" where
  "entry_or_insert st key e =
     (case map_of (by_key st) key of
        Some r \<Rightarrow> (r, st)
      | None \<Rightarrow>
          let (r, st') = alloc_entry st key (default_stake\<lparr>nonce := ucast e\<rparr>)
          in (r, st'\<lparr>by_key := bt_insert key r (by_key st')\<rparr>))"

definition add_stake ::
  "'a::linorder stakes \<Rightarrow> 'a stake_key \<Rightarrow> wit \<Rightarrow> epoch \<Rightarrow> bool \<Rightarrow> wit
     \<Rightarrow> ('a stakes_error, stake) outcome \<times> 'a stakes"
where
  "add_stake st key added e set_nonce minimum_stakeable =
     (let stake_found = map_of (by_key st) key \<noteq> None;
          (r, st1) = entry_or_insert st key e;
          (res, v) = stake_add_stake (read_value st1 r) added e (nonce_policy_of set_nonce e)
                       minimum_stakeable;
          st2 = write_value st1 r v
      in case res of
           Err err \<Rightarrow> (Err err, st2)
         | Panic \<Rightarrow> (Panic, st2)
         | Ok _ \<Rightarrow>
             let st3 = (if stake_found then st2 else index_addresses st2 key r)
             in (Ok (read_value st3 r), st3))"

text \<open>
  Taking an entry out of one index: the position of an entry without coins is looked up in the
  list for the address and \<^verbatim>\<open>unwrap\<close>ped; a list that becomes empty is dropped.
\<close>

definition index_drop_empty ::
  "'a::linorder stakes \<Rightarrow> 'a \<Rightarrow> ('a \<times> ref list) list \<Rightarrow> ('a \<times> ref list) list option"
where
  "index_drop_empty st a ix =
     (case map_of ix a of
        None \<Rightarrow> Some ix
      | Some rs \<Rightarrow>
          (case position (\<lambda>r. coins (read_value st r) = 0) rs of
             None \<Rightarrow> None
           | Some i \<Rightarrow>
               let rs' = remove_nth i rs
               in Some (if rs' = [] then bt_remove a ix else bt_insert a rs' ix)))"

definition remove_stake ::
  "'a::linorder stakes \<Rightarrow> 'a stake_key \<Rightarrow> wit \<Rightarrow> epoch \<Rightarrow> bool \<Rightarrow> wit
     \<Rightarrow> ('a stakes_error, wit) outcome \<times> 'a stakes"
where
  "remove_stake st key removed e set_nonce minimum_stakeable =
     (case map_of (by_key st) key of
        None \<Rightarrow> (Err (EntryNotFound key), st)
      | Some r \<Rightarrow>
          let (res, v) = stake_remove_stake (read_value st r) removed (nonce_policy_of set_nonce e)
                           minimum_stakeable;
              st1 = write_value st r v
          in case res of
               Err err \<Rightarrow> (Err err, st1)
             | Panic \<Rightarrow> (Panic, st1)
             | Ok final_coins \<Rightarrow>
                 if final_coins \<noteq> 0 then (Ok final_coins, st1)
                 else
                   let st2 = st1\<lparr>by_key := bt_remove key (by_key st1)\<rparr>
                   in case index_drop_empty st2 (validator key) (by_validator st2) of
                        None \<Rightarrow> (Panic, st2)
                      | Some vix \<Rightarrow>
                          let st3 = st2\<lparr>by_validator := vix\<rparr>
                          in case index_drop_empty st3 (withdrawer key) (by_withdrawer st3) of
                               None \<Rightarrow> (Panic, st3)
                             | Some wix \<Rightarrow> (Ok final_coins, st3\<lparr>by_withdrawer := wix\<rparr>))"

section \<open>Ranking\<close>

definition by_rank :: "'a::linorder stakes \<Rightarrow> capability \<Rightarrow> epoch \<Rightarrow> ('a stake_key \<times> power) list" where
  "by_rank st c current_epoch =
     rev (sort_key (\<lambda>(key, p). (p, key))
       (map (\<lambda>(key, r). (key, stake_power (read_value st r) c current_epoch)) (by_key st)))"

datatype census_strategy = All | StepBy nat | Take nat | Evenly nat

fun step_by_from :: "nat \<Rightarrow> nat \<Rightarrow> 'b list \<Rightarrow> 'b list" where
  "step_by_from step _ [] = []"
| "step_by_from step 0 (x # xs) = x # step_by_from step (step - 1) xs"
| "step_by_from step (Suc skip) (x # xs) = step_by_from step skip xs"

text \<open>\<^verbatim>\<open>Iterator::step_by\<close> panics on a step of zero.\<close>

definition step_by :: "nat \<Rightarrow> 'b list \<Rightarrow> (unit, 'b list) outcome" where
  "step_by step xs = (if step = 0 then Panic else Ok (step_by_from step 0 xs))"

definition census ::
  "'a::linorder stakes \<Rightarrow> capability \<Rightarrow> epoch \<Rightarrow> census_strategy \<Rightarrow> (unit, 'a stake_key list) outcome"
where
  "census st c e strategy =
     (let iterator = map fst (by_rank st c e)
      in case strategy of
           All \<Rightarrow> Ok iterator
         | StepBy step \<Rightarrow> step_by step iterator
         | Take head \<Rightarrow> Ok (take head iterator)
         | Evenly total_count \<Rightarrow>
             if total_count = 0 then Panic
             else
               (case step_by (length iterator div total_count) iterator of
                  Ok xs \<Rightarrow> Ok (take total_count xs)
                | Err u \<Rightarrow> Err u
                | Panic \<Rightarrow> Panic))"

text \<open>The loop of \<^verbatim>\<open>reset_mining_age\<close> over the ranked keys.\<close>

definition penalty_epochs :: "nat \<Rightarrow> nat \<Rightarrow> epoch" where
  "penalty_epochs winner_rank index = of_nat (1 + winner_rank - index)"

fun reset_ranked ::
  "epoch \<Rightarrow> nat \<Rightarrow> nat \<Rightarrow> 'a::linorder stake_key list \<Rightarrow> 'a stakes
     \<Rightarrow> ('a stakes_error, unit) outcome \<times> 'a stakes"
where
  "reset_ranked current_epoch winner_rank index [] st = (Ok (), st)"
| "reset_ranked current_epoch winner_rank index (key # keys) st =
     (case map_of (by_key st) key of
        None \<Rightarrow> reset_ranked current_epoch winner_rank (Suc index) keys st
      | Some r \<Rightarrow>
          if 2 ^ 32 \<le> 1 + winner_rank - index then (Panic, st)
          else
            let st' = write_value st r
                        (stake_reset_age (read_value st r) Mining
                           (current_epoch + penalty_epochs winner_rank index))
            in reset_ranked current_epoch winner_rank (Suc index) keys st')"

definition reset_mining_age ::
  "'a::linorder stakes \<Rightarrow> 'a \<Rightarrow> epoch \<Rightarrow> ('a stakes_error, unit) outcome \<times> 'a stakes"
where
  "reset_mining_age st v current_epoch =
     (let ranked = by_rank st Mining current_epoch
      in case position (\<lambda>(key, _). validator key = v) ranked of
           None \<Rightarrow> (Ok (), st)
         | Some winner_rank \<Rightarrow>
             reset_ranked current_epoch winner_rank 0 (map fst (take (winner_rank + 1) ranked)) st)"

section \<open>Coin age, rewards and collateral\<close>

fun reset_entries ::
  "capability \<Rightarrow> epoch \<Rightarrow> u32 \<Rightarrow> ref list \<Rightarrow> 'a stakes \<Rightarrow> ('a stakes_error, unit) outcome \<times> 'a stakes"
where
  "reset_entries c current_epoch reset_factor [] st = (Ok (), st)"
| "reset_entries c current_epoch reset_factor (r # rs) st =
     (let v = read_value st r;
          old_epoch = cap_get (epochs v) c
      in if reset_factor = 0 then (Panic, st)
         else
           let update_epoch = (current_epoch - old_epoch) div reset_factor
           in reset_entries c current_epoch reset_factor rs
                (write_value st r (v\<lparr>epochs := cap_update (epochs v) c (old_epoch + update_epoch)\<rparr>)))"

definition reset_age ::
  "'a::linorder stakes \<Rightarrow> 'a \<Rightarrow> capability \<Rightarrow> epoch \<Rightarrow> u32 \<Rightarrow> ('a stakes_error, unit) outcome \<times> 'a stakes"
where
  "reset_age st v c current_epoch reset_factor =
     (case map_of (by_validator st) v of
        None \<Rightarrow> (Err (ValidatorNotFound v), st)
      | Some rs \<Rightarrow> reset_entries c current_epoch reset_factor rs st)"

definition add_reward ::
  "'a::linorder stakes \<Rightarrow> 'a \<Rightarrow> wit \<Rightarrow> epoch \<Rightarrow> ('a stakes_error, unit) outcome \<times> 'a stakes"
where
  "add_reward st v added current_epoch =
     (case map_of (by_validator st) v of
        None \<Rightarrow> (Err (ValidatorNotFound v), st)
      | Some [] \<Rightarrow> (Panic, st)
      | Some (r # _) \<Rightarrow>
          let (res, v') = (stake_add_stake (read_value st r) added current_epoch KeepAsIs 0
                             :: ('a stakes_error, wit) outcome \<times> stake);
              st' = write_value st r v'
          in if res = Panic then (Panic, st') else (Ok (), st'))"

definition reserve_collateral ::
  "'a::linorder stakes \<Rightarrow> 'a \<Rightarrow> wit \<Rightarrow> wit \<Rightarrow> ('a stakes_error, unit) outcome \<times> 'a stakes"
where
  "reserve_collateral st v removed minimum_stakeable =
     (case map_of (by_validator st) v of
        None \<Rightarrow> (Err (ValidatorNotFound v), st)
      | Some [] \<Rightarrow> (Panic, st)
      | Some (r # _) \<Rightarrow>
          let (res, v') = (stake_remove_stake (read_value st r) removed KeepAsIs minimum_stakeable
                             :: ('a stakes_error, wit) outcome \<times> stake);
              st' = write_value st r v'
          in (Ok (), st'))"

section \<open>Queries\<close>

definition stakes_count :: "'a stakes \<Rightarrow> nat" where
  "stakes_count st = length (by_key st)"

definition validator_count :: "'a stakes \<Rightarrow> nat" where
  "validator_count st = length (by_validator st)"

definition total_staked :: "'a stakes \<Rightarrow> wit" where
  "total_staked st = wit_sum (map (\<lambda>(_, r). coins (read_value st r)) (by_key st))"

definition query_power ::
  "'a::linorder stakes \<Rightarrow> 'a \<Rightarrow> capability \<Rightarrow> epoch \<Rightarrow> ('a stakes_error, power) outcome" where
  "query_power st v c e =
     (case map_of (by_validator st) v of
        None \<Rightarrow> Err (ValidatorNotFound v)
      | Some rs \<Rightarrow> Ok (foldl max 0 (map (\<lambda>r. stake_power (read_value st r) c e) rs)))"

definition query_nonce ::
  "'a::linorder stakes \<Rightarrow> 'a stake_key \<Rightarrow> ('a stakes_error, u64) outcome" where
  "query_nonce st key =
     (case map_of (by_key st) key of
        None \<Rightarrow> Err (EntryNotFound key)
      | Some r \<Rightarrow> Ok (nonce (read_value st r)))"

datatype 'a query_stakes_key =
    ByValidator 'a | ByWithdrawer 'a | ByKey "'a stake_key" | AllEntries

text \<open>\<^verbatim>\<open>TryFrom<(Option<T>, Option<T>)> for QueryStakesKey\<close>\<close>

fun query_stakes_key_try_from :: "'a option \<times> 'a option \<Rightarrow> 'a query_stakes_key option" where
  "query_stakes_key_try_from (Some v, Some w) = Some (ByKey (StakeKey v w))"
| "query_stakes_key_try_from (Some v, None) = Some (ByValidator v)"
| "query_stakes_key_try_from (None, Some w) = Some (ByWithdrawer w)"
| "query_stakes_key_try_from (None, None) = None"

definition query_by_key ::
  "'a::linorder stakes \<Rightarrow> 'a stake_key \<Rightarrow> ('a stakes_error, 'a stake_key \<times> stake) outcome" where
  "query_by_key st key =
     (case map_of (by_key st) key of
        None \<Rightarrow> Err (EntryNotFound key)
      | Some r \<Rightarrow> Ok (read_entry st r))"

definition query_by_validator ::
  "'a::linorder stakes \<Rightarrow> 'a \<Rightarrow> ('a stakes_error, ('a stake_key \<times> stake) list) outcome" where
  "query_by_validator st v =
     (case map_of (by_validator st) v of
        None \<Rightarrow> Err (ValidatorNotFound v)
      | Some rs \<Rightarrow> Ok (map (read_entry st) rs))"

definition query_by_withdrawer ::
  "'a::linorder stakes \<Rightarrow> 'a \<Rightarrow> ('a stakes_error, ('a stake_key \<times> stake) list) outcome" where
  "query_by_withdrawer st w =
     (case map_of (by_withdrawer st) w of
        None \<Rightarrow> Err (WithdrawerNotFound w)
      | Some rs \<Rightarrow> Ok (map (read_entry st) rs))"

definition query_all ::
  "'a::linorder stakes \<Rightarrow> ('a stakes_error, ('a stake_key \<times> stake) list) outcome" where
  "query_all st = Ok (map (\<lambda>(_, r). read_entry st r) (by_key st))"

fun query_stakes ::
  "'a::linorder stakes \<Rightarrow> 'a query_stakes_key option
     \<Rightarrow> ('a stakes_error, ('a stake_key \<times> stake) list) outcome" where
  "query_stakes st (Some (ByKey key)) =
     (case query_by_key st key of Ok e \<Rightarrow> Ok [e] | Err err \<Rightarrow> Err err | Panic \<Rightarrow> Panic)"
| "query_stakes st (Some (ByValidator v)) = query_by_validator st v"
| "query_stakes st (Some (ByWithdrawer w)) = query_by_withdrawer st w"
| "query_stakes st (Some AllEntries) = query_all st"
| "query_stakes st None = Err EmptyQuery"

definition query_total_stake ::
  "'a::linorder stakes \<Rightarrow> 'a query_stakes_key option \<Rightarrow> ('a stakes_error, wit) outcome" where
  "query_total_stake st q =
     (case query_stakes st q of
        Ok es \<Rightarrow> Ok (totalize_stakes (map snd es))
      | Err err \<Rightarrow> Err err
      | Panic \<Rightarrow> Panic)"

definition check_validator_withdrawer ::
  "'a::linorder stakes \<Rightarrow> 'a \<Rightarrow> 'a \<Rightarrow> ('a stakes_error, unit) outcome" where
  "check_validator_withdrawer st v w =
     (if map_of (by_validator st) v = None then Ok ()
      else if map_of (by_key st) (StakeKey v w) \<noteq> None then Ok ()
      else Err (DifferentWithdrawer v))"

section \<open>Stake and unstake transactions\<close>

text \<open>
  The fields of the transactions that the tracker reads: the stake output of a stake
  transaction, and operator, withdrawal and fee of an unstake transaction.
\<close>

record 'a stake_transaction =
  output_key :: "'a stake_key"
  output_value :: u64

record 'a unstake_transaction =
  operator :: 'a
  withdrawal_pkh :: 'a
  withdrawal_value :: u64
  unstake_fee :: u64

definition process_stake_transaction ::
  "'a::linorder stakes \<Rightarrow> 'a stake_transaction \<Rightarrow> epoch \<Rightarrow> u64 \<Rightarrow> ('a stakes_error, unit) outcome \<times> 'a stakes"
where
  "process_stake_transaction st tx e minimum_stakeable =
     (case add_stake st (output_key tx) (output_value tx) e True minimum_stakeable of
        (Ok _, st') \<Rightarrow> (Ok (), st')
      | (Err err, st') \<Rightarrow> (Err err, st')
      | (Panic, st') \<Rightarrow> (Panic, st'))"

definition process_unstake_transaction ::
  "'a::linorder stakes \<Rightarrow> 'a unstake_transaction \<Rightarrow> epoch \<Rightarrow> u64 \<Rightarrow> ('a stakes_error, unit) outcome \<times> 'a stakes"
where
  "process_unstake_transaction st tx e minimum_stakeable =
     (case remove_stake st (StakeKey (operator tx) (withdrawal_pkh tx))
             (withdrawal_value tx + unstake_fee tx) e True minimum_stakeable of
        (Ok _, st') \<Rightarrow> (Ok (), st')
      | (Err err, st') \<Rightarrow> (Err err, st')
      | (Panic, st') \<Rightarrow> (Panic, st'))"

fun process_stake_transactions ::
  "'a::linorder stakes \<Rightarrow> 'a stake_transaction list \<Rightarrow> epoch \<Rightarrow> u64 \<Rightarrow> ('a stakes_error, unit) outcome \<times> 'a stakes"
where
  "process_stake_transactions st [] e minimum_stakeable = (Ok (), st)"
| "process_stake_transactions st (tx # txs) e minimum_stakeable =
     (case process_stake_transaction st tx e minimum_stakeable of
        (Ok _, st') \<Rightarrow> process_stake_transactions st' txs e minimum_stakeable
      | (Err err, st') \<Rightarrow> (Err err, st')
      | (Panic, st') \<Rightarrow> (Panic, st'))"

fun process_unstake_transactions ::
  "'a::linorder stakes \<Rightarrow> 'a unstake_transaction list \<Rightarrow> epoch \<Rightarrow> u64 \<Rightarrow> ('a stakes_error, unit) outcome \<times> 'a stakes"
where
  "process_unstake_transactions st [] e minimum_stakeable = (Ok (), st)"
| "process_unstake_transactions st (tx # txs) e minimum_stakeable =
     (case process_unstake_transaction st tx e minimum_stakeable of
        (Ok _, st') \<Rightarrow> process_unstake_transactions st' txs e minimum_stakeable
      | (Err err, st') \<Rightarrow> (Err err, st')
      | (Panic, st') \<Rightarrow> (Panic, st'))"

end
