(* ===== verification/Stakes_Inv.thy ===== *)
theory Stakes_Inv
  imports Stakes
begin

text \<open>
  The invariant of the stakes tracker and what its operations keep of it.

  \<open>stakes_wf\<close>: the primary index is sorted and every entry owns the cell that carries its key,
  and both secondary indexes list, for each address, exactly the cells of its entries.
  \<open>stakes_positive\<close>: no entry is without coins. \<open>ledger\<close> forgets cells and indexes: a partial
  map from stake keys to stakes, the abstract view that the operations refine.
\<close>

section \<open>Secondary indexes\<close>

definition indexed :: "('a \<times> ref list) list \<Rightarrow> 'a \<Rightarrow> ref list" where
  "indexed ix a = (case map_of ix a of None \<Rightarrow> [] | Some rs \<Rightarrow> rs)"

definition indexes ::
  "('a::linorder stake_key \<Rightarrow> 'a) \<Rightarrow> ('a stake_key \<times> ref) list \<Rightarrow> ('a \<times> ref list) list \<Rightarrow> bool"
where
  "indexes f bk ix \<longleftrightarrow>
     bt_wf ix
     \<and> (\<forall>a. set (indexed ix a) = {r. \<exists>k. (k, r) \<in> set bk \<and> f k = a})
     \<and> (\<forall>a. distinct (indexed ix a))
     \<and> (\<forall>a. map_of ix a \<noteq> Some [])"

lemma indexes_Nil: "indexes f [] []"
  by (simp add: indexes_def bt_wf_def indexed_def)

lemma indexed_push:
  "bt_wf ix \<Longrightarrow> indexed (index_push a r ix) b = (if b = a then indexed ix a @ [r] else indexed ix b)"
  by (auto simp: indexed_def index_push_def lookup_bt_insert split: option.splits)

lemma bt_wf_index_push: "bt_wf ix \<Longrightarrow> bt_wf (index_push a r ix)"
  by (auto simp: index_push_def bt_wf_insert split: option.splits)

lemma index_push_not_empty:
  "bt_wf ix \<Longrightarrow> map_of ix b \<noteq> Some [] \<Longrightarrow> map_of (index_push a r ix) b \<noteq> Some []"
  by (auto simp: index_push_def lookup_bt_insert split: option.splits)

lemma indexes_push:
  assumes "indexes f bk ix" and "set bk' = insert (k, r) (set bk)" and "r \<notin> snd ` set bk"
  shows "indexes f bk' (index_push (f k) r ix)"
proof -
  have wf: "bt_wf ix" and ne: "\<And>a. map_of ix a \<noteq> Some []" and d: "\<And>a. distinct (indexed ix a)"
    and s: "\<And>a. set (indexed ix a) = {r. \<exists>k. (k, r) \<in> set bk \<and> f k = a}"
    using assms(1) by (auto simp: indexes_def)
  have "r \<notin> set (indexed ix a)" for a
    using assms(3) s by force
  then show ?thesis
    unfolding indexes_def
    using wf ne d s assms(2)
    by (auto simp: indexed_push bt_wf_index_push index_push_not_empty)
qed

lemma indexes_remove:
  assumes ix: "indexes f bk ix" and wf: "bt_wf bk" and k: "map_of bk k = Some r"
    and only: "\<And>k'. (k', r) \<in> set bk \<Longrightarrow> k' = k"
    and zero: "\<And>r'. r' \<in> set (indexed ix (f k)) \<Longrightarrow> coins (read_value st r') = 0 \<longleftrightarrow> r' = r"
  obtains ix' where "index_drop_empty st (f k) ix = Some ix'" "indexes f (bt_remove k bk) ix'"
proof -
  have bt: "bt_wf ix" and ne: "\<And>a. map_of ix a \<noteq> Some []" and d: "\<And>a. distinct (indexed ix a)"
    and s: "\<And>a. set (indexed ix a) = {r. \<exists>k. (k, r) \<in> set bk \<and> f k = a}"
    using ix by (auto simp: indexes_def)
  let ?rs = "indexed ix (f k)"
  have kr: "(k, r) \<in> set bk" using k wf by (simp add: btm.entry_iff)
  have single: "r' = r" if "(k, r') \<in> set bk" for r'
    using that k wf by (simp add: btm.entry_iff)
  from kr have mem: "r \<in> set ?rs" using s by blast
  then obtain rs where rs: "map_of ix (f k) = Some rs" "?rs = rs"
    by (cases "map_of ix (f k)") (auto simp: indexed_def)
  obtain i where i: "position (\<lambda>r. coins (read_value st r) = 0) rs = Some i"
    using mem zero rs position_None [of "\<lambda>r. coins (read_value st r) = 0" rs] by auto
  then have "i < length rs" "rs ! i = r"
    using position_Some [OF i] zero rs(2) by (auto simp: in_set_conv_nth)
  then have rs': "set (remove_nth i rs) = set rs - {r}"
    using set_remove_nth d [of "f k"] rs(2) by metis
  define ix' where "ix' = (if remove_nth i rs = [] then bt_remove (f k) ix
                           else bt_insert (f k) (remove_nth i rs) ix)"
  have look: "indexed ix' a = (if a = f k then remove_nth i rs else indexed ix a)" for a
    by (auto simp: ix'_def indexed_def lookup_bt_insert lookup_bt_remove split: option.splits)
  have keep: "set (bt_remove k bk) = {p \<in> set bk. fst p \<noteq> k}"
    using wf by (rule btm.set_remove_k)
  have sets: "set (indexed ix' a) = {r. \<exists>k'. (k', r) \<in> set (bt_remove k bk) \<and> f k' = a}" for a
  proof (cases "a = f k")
    case True
    have "set (indexed ix' a) = {r'. \<exists>k'. (k', r') \<in> set bk \<and> f k' = f k} - {r}"
      using True look rs' rs(2) s [of "f k"] by simp
    also have "\<dots> = {r'. \<exists>k'. (k', r') \<in> set bk \<and> k' \<noteq> k \<and> f k' = f k}"
      using only single by blast
    finally show ?thesis using True keep by auto
  next
    case False
    then show ?thesis using look s keep by auto
  qed
  have "bt_wf ix'"
    using bt by (simp add: ix'_def bt_wf_insert bt_wf_remove)
  moreover have "map_of ix' a \<noteq> Some []" for a
    using ne by (simp add: ix'_def lookup_bt_insert lookup_bt_remove)
  moreover have "distinct (indexed ix' a)" for a
    using d [of a] d [of "f k"] rs(2) by (simp add: look distinct_remove_nth)
  ultimately have "indexes f (bt_remove k bk) ix'"
    using sets by (simp add: indexes_def)
  moreover have "index_drop_empty st (f k) ix = Some ix'"
    using rs i by (simp add: index_drop_empty_def ix'_def Let_def)
  ultimately show thesis using that by blast
qed

section \<open>The invariant\<close>

definition stakes_wf :: "'a::linorder stakes \<Rightarrow> bool" where
  "stakes_wf st \<longleftrightarrow>
     bt_wf (by_key st)
     \<and> (\<forall>k r. (k, r) \<in> set (by_key st) \<longrightarrow> (\<exists>v. heap st r = Some (k, v)))
     \<and> (\<forall>r. heap st r \<noteq> None \<longrightarrow> r < fresh st)
     \<and> indexes validator (by_key st) (by_validator st)
     \<and> indexes withdrawer (by_key st) (by_withdrawer st)"

definition ledger :: "'a::linorder stakes \<Rightarrow> 'a stake_key \<rightharpoonup> stake" where
  "ledger st k = map_option (read_value st) (map_of (by_key st) k)"

definition stakes_positive :: "'a::linorder stakes \<Rightarrow> bool" where
  "stakes_positive st \<longleftrightarrow> (\<forall>k v. ledger st k = Some v \<longrightarrow> coins v \<noteq> 0)"

lemma stakes_wf_empty: "stakes_wf empty_stakes"
  by (simp add: stakes_wf_def empty_stakes_def bt_wf_def indexes_Nil)

lemma wf_by_key: "stakes_wf st \<Longrightarrow> bt_wf (by_key st)"
  by (simp add: stakes_wf_def)

lemma wf_cell:
  "stakes_wf st \<Longrightarrow> map_of (by_key st) k = Some r \<Longrightarrow> heap st r = Some (k, read_value st r)"
  by (metis btm.entry_iff read_entry_def read_value_def option.sel snd_conv stakes_wf_def)

lemma wf_ref_inj:
  "stakes_wf st \<Longrightarrow> (k, r) \<in> set (by_key st) \<Longrightarrow> (k', r) \<in> set (by_key st) \<Longrightarrow> k' = k"
  unfolding stakes_wf_def by (metis option.inject prod.inject)

lemma read_write [simp]:
  "read_value (write_value st r v) r' = (if r' = r then v else read_value st r')"
  "read_key (write_value st r v) r' = read_key st r'"
  by (auto simp: read_value_def read_key_def read_entry_def write_value_def)

lemma write_value_frame [simp]:
  "by_key (write_value st r v) = by_key st"
  "by_validator (write_value st r v) = by_validator st"
  "by_withdrawer (write_value st r v) = by_withdrawer st"
  "fresh (write_value st r v) = fresh st"
  by (simp_all add: write_value_def)

lemma write_value_wf:
  assumes "stakes_wf st" and "map_of (by_key st) k = Some r"
  shows "stakes_wf (write_value st r v)"
proof -
  note cell = wf_cell [OF assms]
  have kr: "(k, r) \<in> set (by_key st)"
    using assms by (simp add: btm.entry_iff wf_by_key)
  have "heap (write_value st r v) = (heap st)(r \<mapsto> (k, v))"
    using cell by (simp add: write_value_def read_key_def read_entry_def)
  moreover have "\<exists>w. ((heap st)(r \<mapsto> (k, v))) r' = Some (k', w)" if "(k', r') \<in> set (by_key st)" for k' r'
    using that assms(1) wf_ref_inj [OF assms(1) kr] by (cases "r' = r") (auto simp: stakes_wf_def)
  moreover have "r < fresh st"
    using assms(1) cell by (simp add: stakes_wf_def)
  ultimately show ?thesis
    using assms(1) by (simp add: stakes_wf_def)
qed

lemma ledger_write_value:
  assumes "stakes_wf st" and "map_of (by_key st) k = Some r"
  shows "ledger (write_value st r v) = (ledger st)(k \<mapsto> v)"
proof
  fix k'
  show "ledger (write_value st r v) k' = ((ledger st)(k \<mapsto> v)) k'"
    using assms wf_ref_inj [OF assms(1), of k r k'] wf_by_key [OF assms(1)]
    by (cases "map_of (by_key st) k'") (auto simp: ledger_def btm.entry_iff)
qed

section \<open>Adding stake\<close>

text \<open>The tracker after a new entry was created and indexed.\<close>

definition insert_entry :: "'a::linorder stakes \<Rightarrow> 'a stake_key \<Rightarrow> stake \<Rightarrow> 'a stakes" where
  "insert_entry st key v =
     st\<lparr>heap := (heap st)(fresh st \<mapsto> (key, v)), fresh := Suc (fresh st),
        by_key := bt_insert key (fresh st) (by_key st),
        by_validator := index_push (validator key) (fresh st) (by_validator st),
        by_withdrawer := index_push (withdrawer key) (fresh st) (by_withdrawer st)\<rparr>"

lemma wf_refs_allocated:
  "stakes_wf st \<Longrightarrow> (k, r) \<in> set (by_key st) \<Longrightarrow> r < fresh st"
  unfolding stakes_wf_def by (metis option.distinct(1))

lemma insert_entry_wf:
  assumes wf: "stakes_wf st" and new: "map_of (by_key st) key = None"
  shows "stakes_wf (insert_entry st key v)"
proof -
  let ?r = "fresh st" and ?st = "insert_entry st key v"
  have bt: "bt_wf (by_key st)" using wf by (rule wf_by_key)
  have "key \<notin> fst ` set (by_key st)"
    using new by (simp add: map_of_eq_None_iff)
  then have sets: "set (bt_insert key ?r (by_key st)) = insert (key, ?r) (set (by_key st))"
    using btm.set_insert_kv [OF bt, of key ?r] by force
  have unused: "?r \<notin> snd ` set (by_key st)"
    using wf_refs_allocated [OF wf] by fastforce
  have ixs: "indexes validator (by_key st) (by_validator st)"
      "indexes withdrawer (by_key st) (by_withdrawer st)"
    using wf by (simp_all add: stakes_wf_def)
  have "indexes validator (by_key ?st) (by_validator ?st)"
    and "indexes withdrawer (by_key ?st) (by_withdrawer ?st)"
    using indexes_push [OF ixs(1) sets unused] indexes_push [OF ixs(2) sets unused]
    by (simp_all add: insert_entry_def)
  moreover have "bt_wf (by_key ?st)"
    using bt by (simp add: insert_entry_def bt_wf_insert)
  moreover have "\<exists>w. heap ?st r = Some (k, w)" if "(k, r) \<in> set (by_key ?st)" for k r
  proof (cases "r = ?r")
    case True
    then have "k = key" using that unused sets by (force simp: insert_entry_def)
    with True show ?thesis by (simp add: insert_entry_def)
  next
    case False
    then have "(k, r) \<in> set (by_key st)" using that sets by (simp add: insert_entry_def)
    with False wf show ?thesis by (simp add: stakes_wf_def insert_entry_def)
  qed
  moreover have "r < fresh ?st" if "heap ?st r \<noteq> None" for r
    using that wf by (cases "r = ?r") (simp_all add: insert_entry_def stakes_wf_def less_SucI)
  ultimately show ?thesis by (simp add: stakes_wf_def)
qed

lemma ledger_insert_entry:
  assumes wf: "stakes_wf st" and new: "map_of (by_key st) key = None"
  shows "ledger (insert_entry st key v) = (ledger st)(key \<mapsto> v)"
proof
  fix k
  have "r \<noteq> fresh st" if "map_of (by_key st) k = Some r" for r
    using that wf_refs_allocated [OF wf, of k r] wf_by_key [OF wf] by (auto simp: btm.entry_iff)
  then show "ledger (insert_entry st key v) k = ((ledger st)(key \<mapsto> v)) k"
    by (cases "map_of (by_key st) k")
      (auto simp: ledger_def insert_entry_def lookup_bt_insert read_value_def read_entry_def)
qed

text \<open>What adding stake to a ledger means: the entry, or a default one, takes the addition.\<close>

definition spec_entry :: "('a stake_key \<rightharpoonup> stake) \<Rightarrow> 'a stake_key \<Rightarrow> epoch \<Rightarrow> stake" where
  "spec_entry m key e = (case m key of Some v \<Rightarrow> v | None \<Rightarrow> default_stake\<lparr>nonce := ucast e\<rparr>)"

lemma add_stake_found:
  assumes "stakes_wf st" and "map_of (by_key st) key = Some r"
    and "stake_add_stake (spec_entry (ledger st) key e) added e (nonce_policy_of set_nonce e) m = (res, v)"
  shows "add_stake st key added e set_nonce m =
    (case res of Ok _ \<Rightarrow> Ok v | Err err \<Rightarrow> Err err | Panic \<Rightarrow> Panic, write_value st r v)"
  using assms by (cases res) (simp_all add: add_stake_def entry_or_insert_def spec_entry_def ledger_def)

lemma add_stake_new:
  fixes st :: "'a::linorder stakes"
  assumes "stakes_wf st" and "map_of (by_key st) key = None"
    and "stake_add_stake (spec_entry (ledger st) key e) added e (nonce_policy_of set_nonce e) m
           = (Ok c :: ('a stakes_error, wit) outcome, v)"
  shows "add_stake st key added e set_nonce m = (Ok v, insert_entry st key v)"
proof -
  have "stake_add_stake (default_stake\<lparr>nonce := ucast e\<rparr>) added e (nonce_policy_of set_nonce e) m
           = (Ok c :: ('a stakes_error, wit) outcome, v)"
    using assms(2,3) by (simp add: spec_entry_def ledger_def)
  then show ?thesis
    using assms(2)
    by (simp add: add_stake_def entry_or_insert_def alloc_entry_def insert_entry_def index_addresses_def
        read_value_def read_entry_def write_value_def read_key_def)
qed

lemma add_stake_Ok:
  fixes st :: "'a::linorder stakes"
  assumes wf: "stakes_wf st"
    and run: "add_stake st key added e set_nonce m = (Ok v, st')"
  shows "stakes_wf st'" and "ledger st' = (ledger st)(key \<mapsto> v)"
    and "stake_add_stake (spec_entry (ledger st) key e) added e (nonce_policy_of set_nonce e) m
           = (Ok (coins v) :: ('a stakes_error, wit) outcome, v)"
proof -
  obtain res v' where r: "stake_add_stake (spec_entry (ledger st) key e) added e
      (nonce_policy_of set_nonce e) m = (res :: ('a stakes_error, wit) outcome, v')"
    by (cases "stake_add_stake (spec_entry (ledger st) key e) added e (nonce_policy_of set_nonce e) m
               :: ('a stakes_error, wit) outcome \<times> stake")
  have ok: "\<exists>c. res = Ok c \<and> v' = v \<and> stakes_wf st' \<and> ledger st' = (ledger st)(key \<mapsto> v)"
  proof (cases "map_of (by_key st) key")
    case None
    show ?thesis
    proof (cases res)
      case (Ok c)
      have "add_stake st key added e set_nonce m = (Ok v', insert_entry st key v')"
        using add_stake_new [OF wf None r [unfolded Ok]] .
      then show ?thesis
        using run Ok insert_entry_wf [OF wf None] ledger_insert_entry [OF wf None] by simp
    next
      case (Err x)
      then show ?thesis using run None r
        by (simp add: add_stake_def entry_or_insert_def alloc_entry_def spec_entry_def ledger_def
            read_value_def read_entry_def)
    next
      case Panic
      then show ?thesis using run None r
        by (simp add: add_stake_def entry_or_insert_def alloc_entry_def spec_entry_def ledger_def
            read_value_def read_entry_def)
    qed
  next
    case (Some r')
    show ?thesis
      using add_stake_found [OF wf Some r] run write_value_wf [OF wf Some] ledger_write_value [OF wf Some]
      by (cases res) simp_all
  qed
  then show "stakes_wf st'" "ledger st' = (ledger st)(key \<mapsto> v)" by simp_all
  have "c = coins v'" if "res = Ok c" for c
    using r that by (auto simp: stake_add_stake_def Let_def split: if_splits option.splits)
  then show "stake_add_stake (spec_entry (ledger st) key e) added e (nonce_policy_of set_nonce e) m
           = (Ok (coins v) :: ('a stakes_error, wit) outcome, v)"
    using ok r by auto
qed

lemma stake_add_stake_nonzero:
  assumes "stake_add_stake s added e np m = (Ok c, s')"
  shows "coins s' = c" and "c \<noteq> 0"
proof -
  have c: "c = coins s + added" "coins s' = c"
      "average_epochs (coins s) added (coins s + added) e ALL_CAPABILITIES (epochs s) \<noteq> None"
    using assms by (auto simp: stake_add_stake_def Let_def split: if_splits option.splits)
  have "lose_precision c WIT_DECIMAL_PLACES \<noteq> 0"
    using c(3) [unfolded average_epochs_None] c(1) by (simp add: ALL_CAPABILITIES_def)
  then show "c \<noteq> 0" by (auto simp: lose_precision_def)
  show "coins s' = c" by (rule c(2))
qed

lemma add_stake_positive:
  assumes "stakes_wf st" and "stakes_positive st" and "add_stake st key added e b m = (Ok v, st')"
  shows "stakes_positive st'"
proof -
  have "coins v \<noteq> 0"
    using add_stake_Ok(3) [OF assms(1,3)] by (rule stake_add_stake_nonzero(2))
  then show ?thesis
    using assms(2) add_stake_Ok(2) [OF assms(1,3)] by (simp add: stakes_positive_def)
qed

section \<open>Removing stake\<close>

lemma stake_remove_stake_cases:
  "stake_remove_stake s removed np m =
     (if 0 < coins s - removed \<and> coins s - removed < m
      then (Err (AmountIsBelowMinimum (coins s - removed) m), s)
      else (Ok (coins s - removed), apply_nonce_policy np (s\<lparr>coins := coins s - removed\<rparr>)))"
  by (simp add: stake_remove_stake_def Let_def)

text \<open>
  Removing the last coins of an entry takes the entry out of all three indexes; the entry taken
  out of the secondary indexes is the right one because no other entry is without coins.
\<close>

lemma remove_entry_wf:
  assumes wf: "stakes_wf st" and pos: "stakes_positive st"
    and k: "map_of (by_key st) key = Some r" and v: "coins v = 0"
  obtains vix wix where
    "index_drop_empty ((write_value st r v)\<lparr>by_key := bt_remove key (by_key st)\<rparr>) (validator key)
       (by_validator st) = Some vix"
    "index_drop_empty ((write_value st r v)\<lparr>by_key := bt_remove key (by_key st), by_validator := vix\<rparr>)
       (withdrawer key) (by_withdrawer st) = Some wix"
    "stakes_wf ((write_value st r v)\<lparr>by_key := bt_remove key (by_key st), by_validator := vix,
       by_withdrawer := wix\<rparr>)"
    "ledger ((write_value st r v)\<lparr>by_key := bt_remove key (by_key st), by_validator := vix,
       by_withdrawer := wix\<rparr>) = (ledger st)(key := None)"
proof -
  let ?w = "write_value st r v"
  have bt: "bt_wf (by_key st)" using wf by (rule wf_by_key)
  have kr: "(key, r) \<in> set (by_key st)" using k bt by (simp add: btm.entry_iff)
  note inj = wf_ref_inj [OF wf kr]
  have ixs: "indexes validator (by_key st) (by_validator st)"
      "indexes withdrawer (by_key st) (by_withdrawer st)"
    using wf by (simp_all add: stakes_wf_def)
  have other: "coins (read_value st r') \<noteq> 0" if "(k', r') \<in> set (by_key st)" for k' r'
    using pos that bt by (auto simp: stakes_positive_def ledger_def btm.entry_iff)
  have zero: "coins (read_value ?w r') = 0 \<longleftrightarrow> r' = r" if "(k', r') \<in> set (by_key st)" for k' r'
    using other [OF that] v by simp
  have zeroV: "coins (read_value (?w\<lparr>by_key := bk\<rparr>) r') = 0 \<longleftrightarrow> r' = r"
    if "r' \<in> set (indexed (by_validator st) (validator key))" for r' bk
    using that ixs(1) zero by (auto simp: indexes_def read_value_def read_entry_def)
  have zeroW: "coins (read_value (?w\<lparr>by_key := bk, by_validator := vx\<rparr>) r') = 0 \<longleftrightarrow> r' = r"
    if "r' \<in> set (indexed (by_withdrawer st) (withdrawer key))" for r' bk vx
    using that ixs(2) zero by (auto simp: indexes_def read_value_def read_entry_def)
  obtain vix where vix: "index_drop_empty (?w\<lparr>by_key := bt_remove key (by_key st)\<rparr>) (validator key)
       (by_validator st) = Some vix" "indexes validator (bt_remove key (by_key st)) vix"
    using indexes_remove [OF ixs(1) bt k inj zeroV] by blast
  obtain wix where wix: "index_drop_empty (?w\<lparr>by_key := bt_remove key (by_key st), by_validator := vix\<rparr>)
       (withdrawer key) (by_withdrawer st) = Some wix" "indexes withdrawer (bt_remove key (by_key st)) wix"
    using indexes_remove [OF ixs(2) bt k inj zeroW] by blast
  let ?st' = "?w\<lparr>by_key := bt_remove key (by_key st), by_validator := vix, by_withdrawer := wix\<rparr>"
  have wwf: "stakes_wf ?w" using wf k by (rule write_value_wf)
  have "stakes_wf ?st'"
    using wwf vix(2) wix(2) by (simp add: stakes_wf_def bt_wf_remove btm.set_remove_k [OF bt])
  moreover have "ledger ?st' = (ledger st)(key := None)"
  proof
    fix k'
    show "ledger ?st' k' = ((ledger st)(key := None)) k'"
      using inj [of k'] bt
      by (cases "map_of (by_key st) k'")
        (auto simp: ledger_def lookup_bt_remove btm.entry_iff read_value_def read_entry_def write_value_def)
  qed
  ultimately show thesis using that vix(1) wix(1) by blast
qed

lemma remove_stake_Ok:
  fixes st :: "'a::linorder stakes"
  assumes wf: "stakes_wf st" and pos: "stakes_positive st"
    and run: "remove_stake st key removed e set_nonce m = (Ok c, st')"
  shows "\<exists>v. ledger st key = Some v \<and> c = coins v - removed \<and> (c = 0 \<or> m \<le> c)
    \<and> stakes_wf st' \<and> stakes_positive st'
    \<and> ledger st' = (if c = 0 then (ledger st)(key := None)
        else (ledger st)(key \<mapsto> apply_nonce_policy (nonce_policy_of set_nonce e) (v\<lparr>coins := c\<rparr>)))"
proof -
  obtain r where r: "map_of (by_key st) key = Some r"
    using run by (cases "map_of (by_key st) key") (auto simp: remove_stake_def)
  let ?v = "read_value st r" and ?pol = "nonce_policy_of set_nonce e"
  let ?v' = "apply_nonce_policy ?pol (?v\<lparr>coins := coins ?v - removed\<rparr>)"
  have small: "\<not> (0 < coins ?v - removed \<and> coins ?v - removed < m)"
    using run r by (auto simp: remove_stake_def stake_remove_stake_cases split: if_splits)
  have led: "ledger st key = Some ?v" using r by (simp add: ledger_def)
  show ?thesis
  proof (cases "coins ?v - removed = 0")
    case True
    have cv: "coins ?v' = 0" using True by simp
    obtain vix wix where ix:
      "index_drop_empty ((write_value st r ?v')\<lparr>by_key := bt_remove key (by_key st)\<rparr>) (validator key)
         (by_validator st) = Some vix"
      "index_drop_empty ((write_value st r ?v')\<lparr>by_key := bt_remove key (by_key st), by_validator := vix\<rparr>)
         (withdrawer key) (by_withdrawer st) = Some wix"
      "stakes_wf ((write_value st r ?v')\<lparr>by_key := bt_remove key (by_key st), by_validator := vix,
         by_withdrawer := wix\<rparr>)"
      "ledger ((write_value st r ?v')\<lparr>by_key := bt_remove key (by_key st), by_validator := vix,
         by_withdrawer := wix\<rparr>) = (ledger st)(key := None)"
      by (rule remove_entry_wf [OF wf pos r cv])
    have "c = 0 \<and> st' = (write_value st r ?v')\<lparr>by_key := bt_remove key (by_key st),
        by_validator := vix, by_withdrawer := wix\<rparr>"
      using run r True small ix(1,2)
      by (simp add: remove_stake_def stake_remove_stake_cases Let_def)
    then show ?thesis
      using led True ix(3,4) pos by (simp add: stakes_positive_def)
  next
    case False
    have "c = coins ?v - removed \<and> st' = write_value st r ?v'"
      using run r False small by (auto simp: remove_stake_def stake_remove_stake_cases Let_def)
    moreover have "m \<le> coins ?v - removed"
      using small False by (simp add: word_greater_zero_iff not_less)
    ultimately show ?thesis
      using led False write_value_wf [OF wf r] ledger_write_value [OF wf r] pos
      by (simp add: stakes_positive_def)
  qed
qed

end
