(* ===== verification/Stakes_Ops.thy ===== *)
theory Stakes_Ops
  imports Stakes_Inv
begin

text \<open>
  Ranking, coin-age resets, rewards and collateral of the stakes tracker, the refinement of the
  ledger by runs of its operations, and the properties of the component.
\<close>

section \<open>Ranking\<close>

lemma by_rank_perm:
  "mset (by_rank st c now) =
     mset (map (\<lambda>(key, r). (key, stake_power (read_value st r) c now)) (by_key st))"
  by (simp add: by_rank_def)

lemma by_rank_iff:
  assumes "stakes_wf st"
  shows "(k, p) \<in> set (by_rank st c now) \<longleftrightarrow>
    (\<exists>v. ledger st k = Some v \<and> p = stake_power v c now)"
proof -
  have "set (by_rank st c now)
      = (\<lambda>(key, r). (key, stake_power (read_value st r) c now)) ` set (by_key st)"
    using arg_cong [OF by_rank_perm, of set_mset st c now] by simp
  then show ?thesis
    using wf_by_key [OF assms]
    by (force simp: ledger_def btm.entry_iff image_iff simp flip: btm.entry_iff)
qed

lemma mset_keys_by_rank: "mset (map fst (by_rank st c now)) = mset (map fst (by_key st))"
proof -
  let ?ranked = "map (\<lambda>(key, r). (key, stake_power (read_value st r) c now)) (by_key st)"
  have "mset (map fst (by_rank st c now)) = mset (map fst ?ranked)"
    unfolding mset_map [of fst] by_rank_perm ..
  also have "map fst ?ranked = map fst (by_key st)"
    by (simp add: case_prod_beta)
  finally show ?thesis .
qed

lemma distinct_keys_by_rank: "stakes_wf st \<Longrightarrow> distinct (map fst (by_rank st c now))"
  using mset_eq_imp_distinct_iff [OF mset_keys_by_rank] btm.invar_distinct wf_by_key by blast

lemma length_by_rank: "length (by_rank st c now) = length (by_key st)"
  using arg_cong [OF mset_keys_by_rank, of size] by simp

lemma by_rank_sorted:
  assumes "stakes_wf st"
  shows "sorted_wrt (\<lambda>x y. (snd y, fst y) < (snd x, fst x)) (by_rank st c now)"
proof -
  let ?f = "\<lambda>(key :: 'a stake_key, p :: power). (p, key)"
  let ?xs = "sort_key ?f (map (\<lambda>(key, r). (key, stake_power (read_value st r) c now)) (by_key st))"
  have "sorted (map ?f ?xs)" by simp
  moreover have "distinct (map ?f ?xs)"
  proof -
    have "distinct (rev (by_rank st c now))"
      using distinct_keys_by_rank [OF assms] distinct_map by auto
    then have "distinct ?xs" by (simp add: by_rank_def)
    then show ?thesis by (simp add: distinct_map inj_on_def case_prod_beta prod_eq_iff)
  qed
  ultimately have "sorted_wrt (<) (map ?f ?xs)" by (simp add: strict_sorted_iff)
  then show ?thesis
    by (simp add: by_rank_def sorted_wrt_rev sorted_wrt_map case_prod_beta)
qed

section \<open>Coin age resets\<close>

lemma reset_ranked_ledger:
  fixes st :: "'a::linorder stakes"
  assumes "stakes_wf st" and "distinct keys" and "set keys \<subseteq> dom (ledger st)"
    and "winner_rank < 2 ^ 32 - 1" and "length keys + index \<le> Suc winner_rank"
  shows "\<exists>st'. reset_ranked now winner_rank index keys st = (Ok (), st') \<and> stakes_wf st'
    \<and> (\<forall>k. ledger st' k =
        (case position (\<lambda>x. x = k) keys of
           None \<Rightarrow> ledger st k
         | Some i \<Rightarrow> map_option (\<lambda>v. stake_reset_age v Mining
                       (now + penalty_epochs winner_rank (index + i))) (ledger st k)))"
  using assms
proof (induction keys arbitrary: index st)
  case Nil
  then show ?case by simp
next
  case (Cons key keys)
  obtain r where r: "map_of (by_key st) key = Some r"
    using Cons.prems(3) by (auto simp: ledger_def)
  let ?st = "write_value st r (stake_reset_age (read_value st r) Mining
      (now + penalty_epochs winner_rank index))"
  have led: "ledger ?st = (ledger st)(key \<mapsto> stake_reset_age (read_value st r) Mining
      (now + penalty_epochs winner_rank index))"
    using Cons.prems(1) r by (rule ledger_write_value)
  have old: "ledger st key = Some (read_value st r)" using r by (simp add: ledger_def)
  have wf: "stakes_wf ?st" using Cons.prems(1) r by (rule write_value_wf)
  have d: "distinct keys" and l: "length keys + Suc index \<le> Suc winner_rank"
    and dom: "set keys \<subseteq> dom (ledger ?st)"
    using Cons.prems(2,3,5) led by auto
  have "\<not> 2 ^ 32 \<le> 1 + winner_rank - index"
    using Cons.prems(4) by arith
  then have "reset_ranked now winner_rank index (key # keys) st
      = reset_ranked now winner_rank (Suc index) keys ?st"
    using r by (simp add: Let_def)
  moreover obtain st' where st': "reset_ranked now winner_rank (Suc index) keys ?st = (Ok (), st')"
      "stakes_wf st'"
      "\<And>k. ledger st' k =
        (case position (\<lambda>x. x = k) keys of
           None \<Rightarrow> ledger ?st k
         | Some i \<Rightarrow> map_option (\<lambda>v. stake_reset_age v Mining
                       (now + penalty_epochs winner_rank (Suc index + i))) (ledger ?st k))"
    using Cons.IH [OF wf d dom Cons.prems(4) l] by blast
  moreover have "position (\<lambda>x. x = key) keys = None"
    using Cons.prems(2) by (auto simp: position_None)
  ultimately show ?case
    using led old by (auto split: option.splits)
qed

lemma position_nth:
  "distinct xs \<Longrightarrow> i < length xs \<Longrightarrow> position (\<lambda>x. x = xs ! i) xs = Some i"
  by (induction xs arbitrary: i) (auto simp: nth_Cons split: nat.splits)

lemma position_Some_nth: "position (\<lambda>x. x = k) xs = Some i \<Longrightarrow> i < length xs \<and> xs ! i = k"
  using position_Some by fastforce

lemma unat_penalty_epochs:
  "winner_rank < 2 ^ 32 - 1 \<Longrightarrow> unat (penalty_epochs winner_rank i) = 1 + winner_rank - i"
  unfolding penalty_epochs_def
  by (subst unat_of_nat) (simp add: mod_less del: of_nat_diff)

lemma stake_reset_age_simps [simp]:
  "coins (stake_reset_age v c e) = coins v"
  "nonce (stake_reset_age v c e) = nonce v"
  "cap_get (epochs (stake_reset_age v c e)) c' = (if c = c' then e else cap_get (epochs v) c')"
  by (simp_all add: stake_reset_age_def)

lemma reset_mining_age_ledger:
  fixes st :: "'a::linorder stakes"
  assumes wf: "stakes_wf st" and few: "length (by_key st) < 2 ^ 32"
    and winner: "position (\<lambda>(key, _). validator key = v) (by_rank st Mining now) = Some w"
  obtains st' where "reset_mining_age st v now = (Ok (), st')" "stakes_wf st'"
    "\<And>i k p. i < length (by_rank st Mining now) \<Longrightarrow> by_rank st Mining now ! i = (k, p) \<Longrightarrow>
       ledger st' k =
         (if i \<le> w then map_option (\<lambda>s. stake_reset_age s Mining (now + penalty_epochs w i)) (ledger st k)
          else ledger st k)"
    "dom (ledger st') = dom (ledger st)"
proof -
  let ?ranked = "by_rank st Mining now"
  let ?keys = "map fst (take (w + 1) ?ranked)"
  have w: "w < length ?ranked" using position_Some [OF winner] by simp
  have d: "distinct (map fst ?ranked)" using wf by (rule distinct_keys_by_rank)
  then have dk: "distinct ?keys" by (simp add: distinct_take flip: take_map)
  have dom: "set (map fst ?ranked) = dom (ledger st)"
    using by_rank_iff [OF wf] by (force simp: image_iff)
  then have sub: "set ?keys \<subseteq> dom (ledger st)"
    using set_take_subset [of "w + 1" "map fst ?ranked"] by (simp add: take_map)
  have wl: "w < 2 ^ 32 - 1" and lk: "length ?keys + 0 \<le> Suc w"
    using w few length_by_rank [of st Mining now] by simp_all
  obtain st' where st': "reset_ranked now w 0 ?keys st = (Ok (), st')" "stakes_wf st'"
    "\<And>k. ledger st' k =
        (case position (\<lambda>x. x = k) ?keys of
           None \<Rightarrow> ledger st k
         | Some i \<Rightarrow> map_option (\<lambda>v. stake_reset_age v Mining (now + penalty_epochs w (0 + i))) (ledger st k))"
    using reset_ranked_ledger [OF wf dk sub wl lk] by blast
  have "reset_mining_age st v now = (Ok (), st')"
    using winner st'(1) by (simp add: reset_mining_age_def Let_def)
  moreover have "ledger st' k =
         (if i \<le> w then map_option (\<lambda>s. stake_reset_age s Mining (now + penalty_epochs w i)) (ledger st k)
          else ledger st k)"
    if i: "i < length ?ranked" and k: "?ranked ! i = (k, p)" for i k p
  proof (cases "i \<le> w")
    case True
    then have "i < length ?keys" "?keys ! i = k" using w i k by simp_all
    then have "position (\<lambda>x. x = k) ?keys = Some i" using position_nth [OF dk] by blast
    then show ?thesis using True st'(3) [of k] by simp
  next
    case False
    have "position (\<lambda>x. x = k) ?keys = None"
    proof (rule ccontr)
      assume "position (\<lambda>x. x = k) ?keys \<noteq> None"
      then obtain j where j: "position (\<lambda>x. x = k) ?keys = Some j" by blast
      from position_Some_nth [OF j] have "j < length ?ranked" "map fst ?ranked ! j = map fst ?ranked ! i" "j \<noteq> i"
        using False i k by (auto simp: take_map)
      then show False using d i nth_eq_iff_index_eq [OF d, of j i] by simp
    qed
    then show ?thesis using False st'(3) [of k] by simp
  qed
  moreover have "dom (ledger st') = dom (ledger st)"
    using st'(3) by (auto split: option.splits)
  ultimately show thesis using that st'(2) by blast
qed

text \<open>\<^verbatim>\<open>reset_age\<close> moves the epoch of every entry of a validator.\<close>

definition aged :: "capability \<Rightarrow> epoch \<Rightarrow> u32 \<Rightarrow> stake \<Rightarrow> stake" where
  "aged c now factor v =
     v\<lparr>epochs := cap_update (epochs v) c
        (cap_get (epochs v) c + (now - cap_get (epochs v) c) div factor)\<rparr>"

lemma reset_entries_ledger:
  fixes st :: "'a::linorder stakes"
  assumes "stakes_wf st" and "distinct rs" and "set rs \<subseteq> snd ` set (by_key st)" and "factor \<noteq> 0"
  shows "\<exists>st'. reset_entries c now factor rs st = (Ok (), st') \<and> stakes_wf st' \<and> by_key st' = by_key st
    \<and> (\<forall>k. ledger st' k =
        (case map_of (by_key st) k of
           None \<Rightarrow> None
         | Some r \<Rightarrow> Some (if r \<in> set rs then aged c now factor (read_value st r) else read_value st r)))"
  using assms
proof (induction rs arbitrary: st)
  case Nil
  then show ?case by (auto simp: ledger_def split: option.splits)
next
  case (Cons r rs)
  let ?st = "write_value st r (aged c now factor (read_value st r))"
  obtain k where k: "map_of (by_key st) k = Some r"
    using Cons.prems(1,3) by (auto simp: btm.entry_iff wf_by_key)
  have wf: "stakes_wf ?st" using Cons.prems(1) k by (rule write_value_wf)
  have d: "distinct rs" and sub: "set rs \<subseteq> snd ` set (by_key ?st)" and r: "r \<notin> set rs"
    using Cons.prems(2,3) by simp_all
  obtain st' where st': "reset_entries c now factor rs ?st = (Ok (), st')" "stakes_wf st'"
      "by_key st' = by_key ?st"
      "\<And>k. ledger st' k = (case map_of (by_key ?st) k of
           None \<Rightarrow> None
         | Some r' \<Rightarrow> Some (if r' \<in> set rs then aged c now factor (read_value ?st r') else read_value ?st r'))"
    using Cons.IH [OF wf d sub Cons.prems(4)] by blast
  have "reset_entries c now factor (r # rs) st = reset_entries c now factor rs ?st"
    using Cons.prems(4) by (simp add: Let_def aged_def)
  then show ?case
    using st' r by (auto split: option.splits)
qed

lemma indexed_entries:
  assumes "stakes_wf st"
  shows "set (indexed (by_validator st) v) = {r. \<exists>k. map_of (by_key st) k = Some r \<and> validator k = v}"
  using assms wf_by_key [OF assms] by (simp add: stakes_wf_def indexes_def btm.entry_iff)

lemma validator_indexed_iff:
  assumes "stakes_wf st"
  shows "map_of (by_validator st) v = None \<longleftrightarrow> (\<forall>k. validator k = v \<longrightarrow> ledger st k = None)"
proof -
  have ne: "map_of (by_validator st) v \<noteq> Some []"
    using assms by (simp add: stakes_wf_def indexes_def)
  have "map_of (by_validator st) v = None \<longleftrightarrow> indexed (by_validator st) v = []"
    using ne by (auto simp: indexed_def split: option.splits)
  also have "\<dots> \<longleftrightarrow> set (indexed (by_validator st) v) = {}" by simp
  also have "\<dots> \<longleftrightarrow> (\<forall>k. validator k = v \<longrightarrow> ledger st k = None)"
    unfolding indexed_entries [OF assms] ledger_def by (auto simp flip: not_Some_eq)
  finally show ?thesis .
qed

lemma wf_indexed:
  assumes "stakes_wf st" and "map_of (by_validator st) v = Some rs"
  shows "rs \<noteq> []" "distinct rs"
    and "r \<in> set rs \<longleftrightarrow> (\<exists>k. map_of (by_key st) k = Some r \<and> validator k = v)"
proof -
  have "map_of (by_validator st) v \<noteq> Some []" and "distinct (indexed (by_validator st) v)"
    using assms(1) by (simp_all add: stakes_wf_def indexes_def)
  then show "rs \<noteq> []" "distinct rs" using assms(2) by (simp_all add: indexed_def)
  show "r \<in> set rs \<longleftrightarrow> (\<exists>k. map_of (by_key st) k = Some r \<and> validator k = v)"
    using indexed_entries [OF assms(1), of v] assms(2) by (simp add: indexed_def set_eq_iff)
qed

lemma reset_age_ledger:
  fixes st :: "'a::linorder stakes"
  assumes wf: "stakes_wf st" and run: "reset_age st v c now factor = (Ok (), st')"
  shows "stakes_wf st'"
    and "ledger st' = (\<lambda>k. map_option (if validator k = v then aged c now factor else id) (ledger st k))"
proof -
  obtain rs where rs: "map_of (by_validator st) v = Some rs"
    and run': "reset_entries c now factor rs st = (Ok (), st')"
    using run by (cases "map_of (by_validator st) v") (simp_all add: reset_age_def)
  note w = wf_indexed [OF wf rs]
  have f: "factor \<noteq> 0"
  proof
    assume "factor = 0"
    then show False using run' w(1) by (cases rs) (simp_all add: Let_def)
  qed
  have sub: "set rs \<subseteq> snd ` set (by_key st)"
    using w(3) by (auto simp: image_iff) (metis map_of_SomeD snd_conv)
  obtain st2 where st2: "reset_entries c now factor rs st = (Ok (), st2)" "stakes_wf st2"
     "\<And>k. ledger st2 k = (case map_of (by_key st) k of
           None \<Rightarrow> None
         | Some r \<Rightarrow> Some (if r \<in> set rs then aged c now factor (read_value st r) else read_value st r))"
    using reset_entries_ledger [OF wf w(2) sub f] by blast
  have [simp]: "st2 = st'" using st2(1) run' by simp
  show "stakes_wf st'" using st2(2) by simp
  show "ledger st' = (\<lambda>k. map_option (if validator k = v then aged c now factor else id) (ledger st k))"
  proof
    fix k
    have iff: "r \<in> set rs \<longleftrightarrow> validator k = v" if "map_of (by_key st) k = Some r" for r
    proof
      assume "r \<in> set rs"
      then obtain k' where "map_of (by_key st) k' = Some r" "validator k' = v" using w(3) by blast
      then show "validator k = v"
        using wf_ref_inj [OF wf, of k r k'] that wf_by_key [OF wf] by (simp add: btm.entry_iff)
    next
      assume "validator k = v"
      then show "r \<in> set rs" using w(3) that by blast
    qed
    show "ledger st' k = map_option (if validator k = v then aged c now factor else id) (ledger st k)"
      using st2(3) [of k] iff by (cases "map_of (by_key st) k") (auto simp: ledger_def)
  qed
qed

lemma aged_factor_one: "cap_get (epochs (aged c now 1 v)) c = now"
  by (simp add: aged_def)

section \<open>Rewards and collateral\<close>

lemma add_reward_ledger:
  fixes st :: "'a::linorder stakes"
  assumes wf: "stakes_wf st" and run: "add_reward st v added now = (Ok (), st')"
  shows "stakes_wf st'"
    and "\<exists>k s s'. validator k = v \<and> ledger st k = Some s \<and> ledger st' = (ledger st)(k \<mapsto> s')
      \<and> stake_add_stake s added now KeepAsIs 0 = (Ok (coins s') :: ('a stakes_error, wit) outcome, s')"
proof -
  obtain r rs where rs: "map_of (by_validator st) v = Some (r # rs)"
    using run by (cases "map_of (by_validator st) v" rule: option.exhaust)
      (auto simp: add_reward_def split: list.splits)
  obtain k where k: "map_of (by_key st) k = Some r" "validator k = v"
    using wf_indexed(3) [OF wf rs, of r] by auto
  obtain res s' where s': "stake_add_stake (read_value st r) added now KeepAsIs 0
      = (res :: ('a stakes_error, wit) outcome, s')"
    by (cases "stake_add_stake (read_value st r) added now KeepAsIs 0 :: ('a stakes_error, wit) outcome \<times> stake")
  have "res \<noteq> Panic" and st': "st' = write_value st r s'"
    using run rs s' by (auto simp: add_reward_def Let_def split: if_splits)
  moreover have "res \<noteq> Err e" for e
    using s' by (auto simp: stake_add_stake_def Let_def split: if_splits option.splits)
  ultimately obtain c where res: "res = Ok c" by (cases res) auto
  show "stakes_wf st'" unfolding st' using wf k(1) by (rule write_value_wf)
  have "coins s' = c" using s' unfolding res by (rule stake_add_stake_nonzero(1))
  then show "\<exists>k s s'. validator k = v \<and> ledger st k = Some s \<and> ledger st' = (ledger st)(k \<mapsto> s')
      \<and> stake_add_stake s added now KeepAsIs 0 = (Ok (coins s') :: ('a stakes_error, wit) outcome, s')"
    using k s' res st' ledger_write_value [OF wf k(1), of s'] by (auto simp: ledger_def)
qed

lemma reserve_collateral_ledger:
  fixes st :: "'a::linorder stakes"
  assumes wf: "stakes_wf st" and run: "reserve_collateral st v removed m = (Ok (), st')"
  shows "stakes_wf st'"
    and "\<exists>k s. validator k = v \<and> ledger st k = Some s
      \<and> ledger st' = (ledger st)(k \<mapsto>
          (if 0 < coins s - removed \<and> coins s - removed < m then s else s\<lparr>coins := coins s - removed\<rparr>))"
proof -
  obtain r rs where rs: "map_of (by_validator st) v = Some (r # rs)"
    using run by (cases "map_of (by_validator st) v" rule: option.exhaust)
      (auto simp: reserve_collateral_def split: list.splits)
  obtain k where k: "map_of (by_key st) k = Some r" "validator k = v"
    using wf_indexed(3) [OF wf rs, of r] by auto
  let ?s = "read_value st r"
  have st': "st' = write_value st r
      (if 0 < coins ?s - removed \<and> coins ?s - removed < m then ?s else ?s\<lparr>coins := coins ?s - removed\<rparr>)"
    using run rs by (auto simp: reserve_collateral_def stake_remove_stake_cases Let_def split: if_splits)
  show "stakes_wf st'" unfolding st' using wf k(1) by (rule write_value_wf)
  show "\<exists>k s. validator k = v \<and> ledger st k = Some s
      \<and> ledger st' = (ledger st)(k \<mapsto>
          (if 0 < coins s - removed \<and> coins s - removed < m then s else s\<lparr>coins := coins s - removed\<rparr>))"
    unfolding st' ledger_write_value [OF wf k(1)] using k by (auto simp: ledger_def)
qed

section \<open>Total stake\<close>

definition ledger_total :: "('a stake_key \<rightharpoonup> stake) \<Rightarrow> wit" where
  "ledger_total m = (\<Sum>k \<in> dom m. coins (the (m k)))"

lemma dom_ledger: "stakes_wf st \<Longrightarrow> dom (ledger st) = fst ` set (by_key st)"
  by (auto simp: ledger_def dom_def image_iff btm.entry_iff [OF wf_by_key, symmetric]) force+

lemma finite_ledger: "stakes_wf st \<Longrightarrow> finite (dom (ledger st))"
  by (simp add: dom_ledger)

lemma total_staked_ledger:
  assumes "stakes_wf st"
  shows "total_staked st = ledger_total (ledger st)"
proof -
  have bt: "bt_wf (by_key st)" using assms by (rule wf_by_key)
  have "total_staked st = (\<Sum>p \<in> set (by_key st). coins (read_value st (snd p)))"
    using btm.distinct_entries [OF bt]
    by (simp add: total_staked_def case_prod_beta sum_list_distinct_conv_sum_set)
  also have "\<dots> = (\<Sum>p \<in> set (by_key st). coins (the (ledger st (fst p))))"
    by (rule sum.cong) (auto simp: ledger_def btm.entry_iff [OF bt])
  also have "\<dots> = (\<Sum>k \<in> fst ` set (by_key st). coins (the (ledger st k)))"
    using btm.invar_distinct [OF bt] by (subst sum.reindex) (auto simp: distinct_map)
  finally show ?thesis by (simp add: ledger_total_def dom_ledger [OF assms])
qed

lemma ledger_total_update:
  assumes "finite (dom m)"
  shows "ledger_total (m(k \<mapsto> v))
    = ledger_total m + coins v - (case m k of None \<Rightarrow> 0 | Some w \<Rightarrow> coins w)"
proof -
  have "ledger_total (m(k \<mapsto> v)) = coins v + (\<Sum>j \<in> dom m - {k}. coins (the ((m(k \<mapsto> v)) j)))"
    using assms by (simp add: ledger_total_def sum.insert_remove)
  also have "(\<Sum>j \<in> dom m - {k}. coins (the ((m(k \<mapsto> v)) j))) = (\<Sum>j \<in> dom m - {k}. coins (the (m j)))"
    by (rule sum.cong) auto
  also have "\<dots> = ledger_total m - (case m k of None \<Rightarrow> 0 | Some w \<Rightarrow> coins w)"
    using assms by (auto simp: ledger_total_def sum_diff1 split: option.splits)
  finally show ?thesis by (simp add: algebra_simps del: fun_upd_apply)
qed

lemma ledger_total_remove:
  assumes "finite (dom m)" and "m k = Some w"
  shows "ledger_total (m(k := None)) = ledger_total m - coins w"
proof -
  have "ledger_total (m(k := None)) = (\<Sum>j \<in> dom m - {k}. coins (the (m j)))"
    unfolding ledger_total_def by (rule sum.cong) auto
  also have "\<dots> = ledger_total m - coins w"
    using assms by (auto simp: ledger_total_def sum_diff1)
  finally show ?thesis .
qed

section \<open>Runs of the tracker refine the ledger\<close>

datatype 'a stakes_op =
    AddStake "'a stake_key" wit epoch bool wit
  | RemoveStake "'a stake_key" wit epoch bool wit
  | ResetMiningAge 'a epoch
  | ResetAge 'a capability epoch u32
  | AddReward 'a wit epoch

fun success :: "('e, 'b) outcome \<times> 's \<Rightarrow> 's option" where
  "success (Ok _, s) = Some s"
| "success (Err _, s) = None"
| "success (Panic, s) = None"

fun stakes_step :: "'a::linorder stakes_op \<Rightarrow> 'a stakes \<Rightarrow> 'a stakes option" where
  "stakes_step (AddStake key c e b m) st = success (add_stake st key c e b m)"
| "stakes_step (RemoveStake key c e b m) st = success (remove_stake st key c e b m)"
| "stakes_step (ResetMiningAge v now) st = success (reset_mining_age st v now)"
| "stakes_step (ResetAge v c now factor) st = success (reset_age st v c now factor)"
| "stakes_step (AddReward v c now) st = success (add_reward st v c now)"

fun ledger_spec ::
  "'a stakes_op \<Rightarrow> ('a stake_key \<rightharpoonup> stake) \<Rightarrow> ('a stake_key \<rightharpoonup> stake) \<Rightarrow> bool" where
  "ledger_spec (AddStake key c e b m) L L' \<longleftrightarrow>
     (\<exists>v. stake_add_stake (spec_entry L key e) c e (nonce_policy_of b e) m
            = (Ok (coins v) :: ('a stakes_error, wit) outcome, v) \<and> L' = L(key \<mapsto> v))"
| "ledger_spec (RemoveStake key c e b m) L L' \<longleftrightarrow>
     (\<exists>v left. L key = Some v \<and> left = coins v - c \<and> (left = 0 \<or> m \<le> left)
       \<and> L' = (if left = 0 then L(key := None)
              else L(key \<mapsto> apply_nonce_policy (nonce_policy_of b e) (v\<lparr>coins := left\<rparr>))))"
| "ledger_spec (ResetMiningAge v now) L L' \<longleftrightarrow>
     (\<exists>reset. L' = (\<lambda>k. map_option (\<lambda>s. case reset k of None \<Rightarrow> s | Some e \<Rightarrow> stake_reset_age s Mining e) (L k)))"
| "ledger_spec (ResetAge v c now factor) L L' \<longleftrightarrow>
     L' = (\<lambda>k. map_option (if validator k = v then aged c now factor else id) (L k))"
| "ledger_spec (AddReward v c now) L L' \<longleftrightarrow>
     (\<exists>k s s'. validator k = v \<and> L k = Some s \<and> L' = L(k \<mapsto> s')
        \<and> stake_add_stake s c now KeepAsIs 0 = (Ok (coins s') :: ('a stakes_error, wit) outcome, s'))"

lemma success_Some: "success x = Some s \<longleftrightarrow> (\<exists>a. x = (Ok a, s))"
  by (cases x rule: success.cases) auto

lemma reset_ranked_frame:
  fixes st :: "'a::linorder stakes"
  assumes "stakes_wf st" and "reset_ranked now w index keys st = (Ok u, st')"
  shows "stakes_wf st' \<and> (\<exists>reset. ledger st' =
    (\<lambda>k. map_option (\<lambda>s. case reset k of None \<Rightarrow> s | Some e \<Rightarrow> stake_reset_age s Mining e) (ledger st k)))"
  using assms
proof (induction now w index keys st rule: reset_ranked.induct)
  case (1 now w index st)
  then show ?case by (auto intro!: exI [of _ "\<lambda>_. None"] simp: map_option.identity option.map_ident)
next
  case (2 now w index key keys st)
  show ?case
  proof (cases "map_of (by_key st) key")
    case None
    then show ?thesis using 2 by simp
  next
    case (Some r)
    let ?e = "now + penalty_epochs w index"
    let ?st = "write_value st r (stake_reset_age (read_value st r) Mining ?e)"
    have small: "\<not> 2 ^ 32 \<le> 1 + w - index"
      using 2(4) Some by (auto split: if_splits)
    have wf: "stakes_wf ?st" using 2(3) Some by (rule write_value_wf)
    have led: "ledger ?st = (ledger st)(key \<mapsto> stake_reset_age (read_value st r) Mining ?e)"
      using 2(3) Some by (rule ledger_write_value)
    have run: "reset_ranked now w (Suc index) keys ?st = (Ok u, st')"
      using 2(4) Some small by (simp add: Let_def)
    obtain reset where r': "stakes_wf st'" "ledger st' =
        (\<lambda>k. map_option (\<lambda>s. case reset k of None \<Rightarrow> s | Some e \<Rightarrow> stake_reset_age s Mining e) (ledger ?st k))"
      using 2(2) [OF Some small refl wf run] by blast
    have key: "ledger st key = Some (read_value st r)" using Some by (simp add: ledger_def)
    have twice: "stake_reset_age (stake_reset_age s Mining e1) Mining e2 = stake_reset_age s Mining e2" for s e1 e2
      by (simp add: stake_reset_age_def)
    let ?reset = "reset(key \<mapsto> (case reset key of None \<Rightarrow> ?e | Some e \<Rightarrow> e))"
    have "ledger st' = (\<lambda>k. map_option (\<lambda>s. case ?reset k of None \<Rightarrow> s | Some e \<Rightarrow> stake_reset_age s Mining e)
        (ledger st k))"
      unfolding r'(2) led using key twice by (auto split: option.splits)
    then show ?thesis using r'(1) exI [of _ ?reset] by blast
  qed
qed

lemma reset_mining_age_frame:
  fixes st :: "'a::linorder stakes"
  assumes wf: "stakes_wf st" and run: "reset_mining_age st v now = (Ok u, st')"
  shows "stakes_wf st' \<and> (\<exists>reset. ledger st' =
    (\<lambda>k. map_option (\<lambda>s. case reset k of None \<Rightarrow> s | Some e \<Rightarrow> stake_reset_age s Mining e) (ledger st k)))"
proof (cases "position (\<lambda>(key, _). validator key = v) (by_rank st Mining now)")
  case None
  then show ?thesis using run wf
    by (auto simp: reset_mining_age_def Let_def option.map_ident intro!: exI [of _ "\<lambda>_. None"])
next
  case (Some w)
  then show ?thesis using run reset_ranked_frame [OF wf] by (simp add: reset_mining_age_def Let_def)
qed


lemma stakes_positive_map:
  assumes "stakes_positive st" and "ledger st' = (\<lambda>k. map_option (f k) (ledger st k))"
    and "\<And>k s. coins (f k s) = coins s"
  shows "stakes_positive st'"
  using assms by (auto simp: stakes_positive_def)

interpretation tracker: refinement "\<lambda>st. stakes_wf st \<and> stakes_positive st" ledger stakes_step ledger_spec
proof unfold_locales
  fix st st' :: "'a stakes" and op
  assume inv: "stakes_wf st \<and> stakes_positive st" and step: "stakes_step op st = Some st'"
  have "(stakes_wf st' \<and> stakes_positive st') \<and> ledger_spec op (ledger st) (ledger st')"
  proof (cases op)
    case (AddStake key c e b m)
    then obtain v where run: "add_stake st key c e b m = (Ok v, st')"
      using step by (auto simp: success_Some)
    show ?thesis
      using AddStake add_stake_Ok [OF _ run] add_stake_positive [OF _ _ run] inv by auto
  next
    case (RemoveStake key c e b m)
    then obtain left where run: "remove_stake st key c e b m = (Ok left, st')"
      using step by (auto simp: success_Some)
    show ?thesis
      using RemoveStake remove_stake_Ok [OF _ _ run] inv by auto
  next
    case (ResetMiningAge v now)
    then obtain u where run: "reset_mining_age st v now = (Ok u, st')"
      using step by (auto simp: success_Some)
    from reset_mining_age_frame [OF _ run] inv obtain reset where r: "stakes_wf st'" "ledger st' =
       (\<lambda>k. map_option (\<lambda>s. case reset k of None \<Rightarrow> s | Some e \<Rightarrow> stake_reset_age s Mining e) (ledger st k))"
      by blast
    have "stakes_positive st'"
      using inv r(2) by (intro stakes_positive_map [of st st'
          "\<lambda>k s. case reset k of None \<Rightarrow> s | Some e \<Rightarrow> stake_reset_age s Mining e"])
        (auto split: option.splits)
    then show ?thesis using r ResetMiningAge by auto
  next
    case (ResetAge v c now factor)
    then have run: "reset_age st v c now factor = (Ok (), st')"
      using step by (auto simp: success_Some)
    have "stakes_positive st'"
      using inv reset_age_ledger(2) [OF _ run] by (intro stakes_positive_map [of st st'
          "\<lambda>k. if validator k = v then aged c now factor else id"]) (auto simp: aged_def)
    then show ?thesis
      using ResetAge reset_age_ledger [OF _ run] inv by auto
  next
    case (AddReward v c now)
    then have run: "add_reward st v c now = (Ok (), st')"
      using step by (auto simp: success_Some)
    from add_reward_ledger [OF _ run] inv obtain k s s' where r: "stakes_wf st'" "validator k = v"
      "ledger st k = Some s" "ledger st' = (ledger st)(k \<mapsto> s')"
      "stake_add_stake s c now KeepAsIs 0 = (Ok (coins s') :: ('a stakes_error, wit) outcome, s')"
      by blast
    have "stakes_positive st'"
      using inv r(4) stake_add_stake_nonzero(2) [OF r(5)] by (simp add: stakes_positive_def)
    then show ?thesis using AddReward r by auto
  qed
  then show "stakes_wf st' \<and> stakes_positive st'" and "ledger_spec op (ledger st) (ledger st')"
    by simp_all
qed

section \<open>Balance of a run\<close>

fun net_stake :: "'a stakes_op \<Rightarrow> wit" where
  "net_stake (AddStake key c e b m) = c"
| "net_stake (RemoveStake key c e b m) = - c"
| "net_stake (ResetMiningAge v now) = 0"
| "net_stake (ResetAge v c now factor) = 0"
| "net_stake (AddReward v c now) = c"

lemma stake_add_stake_coins:
  "stake_add_stake s added e np m = (Ok c, s') \<Longrightarrow> coins s' = coins s + added"
  by (auto simp: stake_add_stake_def Let_def split: if_splits option.splits)

lemma ledger_total_map:
  assumes "\<And>k s. coins (f k s) = coins s"
  shows "ledger_total (\<lambda>k. map_option (f k) (L k)) = ledger_total L"
  unfolding ledger_total_def by (rule sum.cong) (auto simp: assms)

lemma ledger_spec_total:
  assumes "finite (dom L)" and "ledger_spec op L L'"
  shows "finite (dom L')" and "ledger_total L' = ledger_total L + net_stake op"
proof -
  have "finite (dom L') \<and> ledger_total L' = ledger_total L + net_stake op"
  proof (cases op)
    case (AddStake key c e b m)
    then obtain v where v: "stake_add_stake (spec_entry L key e) c e (nonce_policy_of b e) m
            = (Ok (coins v) :: ('a stakes_error, wit) outcome, v)" "L' = L(key \<mapsto> v)"
      using assms(2) by auto
    have "coins v = coins (spec_entry L key e) + c"
      using v(1) by (rule stake_add_stake_coins)
    then show ?thesis
      using AddStake assms(1) v(2) ledger_total_update [OF assms(1), of key v]
      by (auto simp: spec_entry_def default_stake_def split: option.splits)
  next
    case (RemoveStake key c e b m)
    then obtain v where v: "L key = Some v"
      "L' = (if coins v - c = 0 then L(key := None)
             else L(key \<mapsto> apply_nonce_policy (nonce_policy_of b e) (v\<lparr>coins := coins v - c\<rparr>)))"
      using assms(2) by auto
    show ?thesis
    proof (cases "coins v - c = 0")
      case True
      then show ?thesis
        using RemoveStake v assms(1) ledger_total_remove [OF assms(1) v(1)] by simp
    next
      case False
      then show ?thesis
        using RemoveStake v assms(1) ledger_total_update [OF assms(1), of key] by simp
    qed
  next
    case (ResetMiningAge v now)
    then obtain reset where r: "L' = (\<lambda>k. map_option (\<lambda>s. case reset k of None \<Rightarrow> s
        | Some e \<Rightarrow> stake_reset_age s Mining e) (L k))"
      using assms(2) by auto
    have "ledger_total L' = ledger_total L"
      unfolding r by (rule ledger_total_map) (auto split: option.splits)
    moreover have "dom L' = dom L" by (auto simp: r)
    ultimately show ?thesis using ResetMiningAge assms(1) by simp
  next
    case (ResetAge v c now factor)
    then have r: "L' = (\<lambda>k. map_option (if validator k = v then aged c now factor else id) (L k))"
      using assms(2) by simp
    have "ledger_total L' = ledger_total L"
      unfolding r by (rule ledger_total_map) (auto simp: aged_def)
    moreover have "dom L' = dom L" by (auto simp: r)
    ultimately show ?thesis using ResetAge assms(1) by simp
  next
    case (AddReward v c now)
    then obtain k s s' where r: "L k = Some s" "L' = L(k \<mapsto> s')"
      "stake_add_stake s c now KeepAsIs 0 = (Ok (coins s') :: ('a stakes_error, wit) outcome, s')"
      using assms(2) by auto
    have "coins s' = coins s + c" using r(3) by (rule stake_add_stake_coins)
    then show ?thesis
      using AddReward r(1,2) assms(1) ledger_total_update [OF assms(1), of k s'] by simp
  qed
  then show "finite (dom L')" and "ledger_total L' = ledger_total L + net_stake op" by simp_all
qed

lemma spec_run_total:
  "spec_run ledger_spec ops L L' \<Longrightarrow> finite (dom L) \<Longrightarrow>
     ledger_total L' = ledger_total L + sum_list (map net_stake ops)"
proof (induction rule: spec_run.induct)
  case (spec_run_Nil L)
  then show ?case by simp
next
  case (spec_run_Cons op L1 L2 ops L3)
  then show ?case using ledger_spec_total [of L1 op L2] by (simp add: add.assoc)
qed

lemma stakes_positive_empty: "stakes_positive empty_stakes"
  by (simp add: stakes_positive_def ledger_def empty_stakes_def)

lemma ledger_empty: "ledger empty_stakes = Map.empty"
  by (auto simp: ledger_def empty_stakes_def)

section \<open>Properties\<close>

text \<open>
  Claim C1. Whatever stake additions, removals, rewards and coin-age resets the tracker goes
  through from its initial state, as long as each of them succeeds: its three indexes stay
  consistent with each other, no entry without coins stays behind, and the tracker is the ledger
  (a map from stake keys to stakes) that the same operations make of the empty ledger.
\<close>

theorem stakes_run_refines_ledger:
  assumes "run_ops stakes_step ops empty_stakes = Some st"
  shows "stakes_wf st \<and> stakes_positive st \<and> spec_run ledger_spec ops Map.empty (ledger st)"
  using tracker.run_invar [OF _ assms] tracker.run_spec [OF _ assms]
  by (simp add: stakes_wf_empty stakes_positive_empty ledger_empty)

text \<open>
  Claim C5. Coins are neither created nor lost by the tracker: over any successful run the total
  staked changes by exactly the sum of the amounts added and rewarded less the amounts removed
  (in 64-bit arithmetic), and age resets leave it alone.
\<close>

theorem stakes_run_total_staked:
  assumes "stakes_wf st" and "stakes_positive st" and "run_ops stakes_step ops st = Some st'"
  shows "total_staked st' = total_staked st + sum_list (map net_stake ops)"
proof -
  have "stakes_wf st'" and "spec_run ledger_spec ops (ledger st) (ledger st')"
    using tracker.run_invar [OF _ assms(3)] tracker.run_spec [OF _ assms(3)] assms(1,2) by auto
  then show ?thesis
    using spec_run_total [of ops "ledger st" "ledger st'"] finite_ledger [OF assms(1)]
      total_staked_ledger assms(1) by metis
qed


text \<open>
  Claim C18. The rank lists every entry exactly once with its power, most powerful first, ties
  broken by the larger stake key; so which validators come first does not depend on insertion
  order.
\<close>

theorem by_rank_complete_and_sorted:
  assumes "stakes_wf st"
  shows "set (by_rank st c now) = {(k, stake_power v c now) | k v. ledger st k = Some v}
    \<and> distinct (map fst (by_rank st c now))
    \<and> sorted_wrt (\<lambda>(k1, p1) (k2, p2). p2 < p1 \<or> p2 = p1 \<and> k2 < k1) (by_rank st c now)"
proof (intro conjI)
  show "set (by_rank st c now) = {(k, stake_power v c now) | k v. ledger st k = Some v}"
    using by_rank_iff [OF assms, of _ _ c now] by auto
  show "distinct (map fst (by_rank st c now))" using assms by (rule distinct_keys_by_rank)
  show "sorted_wrt (\<lambda>(k1, p1) (k2, p2). p2 < p1 \<or> p2 = p1 \<and> k2 < k1) (by_rank st c now)"
    using by_rank_sorted [OF assms, of c now]
    by (rule sorted_wrt_mono_rel [rotated]) (auto simp: less_prod_def)
qed

lemma zero_power_before_epoch:
  "e \<le> cap_get (epochs s) c \<Longrightarrow> stake_power s c e = 0"
  by (auto simp: stake_power_def wit_mul_epoch_def saturating_sub_def)


lemma read_entry_key:
  "stakes_wf st \<Longrightarrow> map_of (by_key st) k = Some r \<Longrightarrow> read_entry st r = (k, read_value st r)"
  using wf_cell by (fastforce simp: read_entry_def)

lemma foldl_max:
  fixes xs :: "'b::linorder list"
  shows "(\<forall>x \<in> set xs. x \<le> foldl max a xs) \<and> a \<le> foldl max a xs
     \<and> (foldl max a xs = a \<or> foldl max a xs \<in> set xs)"
proof (induction xs arbitrary: a)
  case Nil
  then show ?case by simp
next
  case (Cons x xs)
  have "x \<le> max a x" "a \<le> max a x" "max a x = a \<or> max a x = x" by (auto simp: max_def)
  then show ?case using Cons [of "max a x"] by (auto intro: order_trans)
qed

lemma indexed_lookup:
  assumes wf: "stakes_wf st" and ix: "indexes f (by_key st) ix" and rs: "map_of ix a = Some rs"
  shows "set (map (read_entry st) rs) = {(k, v) | k v. ledger st k = Some v \<and> f k = a}"
proof -
  have bt: "bt_wf (by_key st)" using wf by (rule wf_by_key)
  have "indexed ix a = rs" using rs by (simp add: indexed_def)
  moreover have "set (indexed ix a) = {r. \<exists>k. (k, r) \<in> set (by_key st) \<and> f k = a}"
    using ix by (simp add: indexes_def)
  ultimately have s: "set rs = {r. \<exists>k. map_of (by_key st) k = Some r \<and> f k = a}"
    by (simp add: btm.entry_iff [OF bt])
  show ?thesis
  proof (intro set_eqI iffI)
    fix x
    assume "x \<in> set (map (read_entry st) rs)"
    then obtain k r where "map_of (by_key st) k = Some r" "f k = a" "x = read_entry st r"
      using s by auto
    then show "x \<in> {(k, v) | k v. ledger st k = Some v \<and> f k = a}"
      using read_entry_key [OF wf] by (simp add: ledger_def)
  next
    fix x
    assume "x \<in> {(k, v) | k v. ledger st k = Some v \<and> f k = a}"
    then obtain k r where "map_of (by_key st) k = Some r" "f k = a" "x = (k, read_value st r)"
      by (auto simp: ledger_def)
    then show "x \<in> set (map (read_entry st) rs)"
      using read_entry_key [OF wf] s by force
  qed
qed

lemma query_by_validator_ledger:
  assumes wf: "stakes_wf st" and q: "query_by_validator st v = Ok es"
  shows "set es = {(k, s) | k s. ledger st k = Some s \<and> validator k = v}" and "es \<noteq> []"
proof -
  obtain rs where rs: "map_of (by_validator st) v = Some rs" "es = map (read_entry st) rs"
    using q by (auto simp: query_by_validator_def split: option.splits)
  show "set es = {(k, s) | k s. ledger st k = Some s \<and> validator k = v}"
    unfolding rs(2) using wf by (intro indexed_lookup [OF wf _ rs(1)]) (simp add: stakes_wf_def)
  show "es \<noteq> []" using wf_indexed(1) [OF wf rs(1)] rs(2) by simp
qed

lemma query_by_withdrawer_ledger:
  assumes wf: "stakes_wf st" and q: "query_by_withdrawer st w = Ok es"
  shows "set es = {(k, s) | k s. ledger st k = Some s \<and> withdrawer k = w}"
proof -
  obtain rs where rs: "map_of (by_withdrawer st) w = Some rs" "es = map (read_entry st) rs"
    using q by (auto simp: query_by_withdrawer_def split: option.splits)
  show ?thesis
    unfolding rs(2) using wf by (intro indexed_lookup [OF wf _ rs(1)]) (simp add: stakes_wf_def)
qed

lemma query_power_max:
  assumes wf: "stakes_wf st" and q: "query_by_validator st v = Ok es"
  shows "\<exists>p. query_power st v c now = Ok p
    \<and> (\<forall>(k, s) \<in> set es. stake_power s c now \<le> p) \<and> (\<exists>(k, s) \<in> set es. p = stake_power s c now)"
proof -
  obtain rs where rs: "map_of (by_validator st) v = Some rs" "es = map (read_entry st) rs"
    using q by (auto simp: query_by_validator_def split: option.splits)
  let ?ps = "map (\<lambda>r. stake_power (read_value st r) c now) rs"
  have ps: "?ps = map (\<lambda>(k, s). stake_power s c now) es"
    by (simp add: rs(2) read_value_def case_prod_beta)
  have "?ps \<noteq> []" using wf_indexed(1) [OF wf rs(1)] by simp
  then have "foldl max 0 ?ps \<in> set ?ps"
    using foldl_max [of ?ps 0] by (cases ?ps) (auto intro: antisym)
  moreover have "\<forall>x \<in> set ?ps. x \<le> foldl max 0 ?ps" using foldl_max [of ?ps 0] by blast
  moreover have "query_power st v c now = Ok (foldl max 0 ?ps)" using rs(1) by (simp add: query_power_def)
  ultimately show ?thesis unfolding ps by fastforce
qed


section \<open>Where the tracker departs from its contract\<close>


text \<open>
  Reserving collateral reports success also when it reserved nothing: if the stake that
  would remain is positive but below the minimum, the refusal is dropped, the stake keeps all its
  coins and the caller sees \<open>Ok\<close>.
\<close>

theorem reserve_collateral_hides_refusal:
  fixes st :: "'a::linorder stakes"
  assumes wf: "stakes_wf st" and single: "\<And>k. validator k = v \<Longrightarrow> ledger st k \<noteq> None \<Longrightarrow> k = key"
    and key: "validator key = v" "ledger st key = Some s"
    and refuse: "0 < coins s - removed" "coins s - removed < m"
  shows "\<exists>st'. reserve_collateral st v removed m = (Ok (), st') \<and> ledger st' = ledger st"
proof -
  have "map_of (by_validator st) v \<noteq> None"
    using validator_indexed_iff [OF wf, of v] key by auto
  then obtain rs where rs: "map_of (by_validator st) v = Some rs" by blast
  then obtain r rs' where "rs = r # rs'" using wf_indexed(1) [OF wf rs] by (cases rs) auto
  then obtain st' where run: "reserve_collateral st v removed m = (Ok (), st')"
    using rs by (cases "stake_remove_stake (read_value st r) removed KeepAsIs m
        :: ('a stakes_error, wit) outcome \<times> stake") (auto simp: reserve_collateral_def Let_def)
  obtain k s' where k: "validator k = v" "ledger st k = Some s'"
    "ledger st' = (ledger st)(k \<mapsto> (if 0 < coins s' - removed \<and> coins s' - removed < m then s'
       else s'\<lparr>coins := coins s' - removed\<rparr>))"
    using reserve_collateral_ledger(2) [OF wf run] by blast
  have "k = key" using single k by blast
  then have "ledger st' = ledger st" using k key refuse by (simp add: fun_upd_idem)
  then show ?thesis using run by blast
qed

section \<open>A concrete tracker\<close>

text \<open>
  Two validators: 1, which withdraws to itself, and 2, which withdraws to 7. The witnesses of
  the properties are evaluated on it.
\<close>

lemmas stakes_eval =
  add_stake_def entry_or_insert_def alloc_entry_def read_value_def read_entry_def read_key_def
  write_value_def index_addresses_def index_push_def nonce_policy_of_def stake_add_stake_def
  ALL_CAPABILITIES_def wit_mul_epoch_def lose_precision_def WIT_DECIMAL_PLACES_def default_stake_def
  less_stake_key_def empty_stakes_def stake_power_def saturating_sub_def

definition sample_ops :: "nat stakes_op list" where
  "sample_ops = [AddStake (StakeKey 1 1) 5000000000 10 True 1000000000,
                 AddStake (StakeKey 2 7) 3000000000 12 True 1000000000]"

definition sample_stakes :: "nat stakes" where
  "sample_stakes =
     \<lparr>heap = [0 \<mapsto> (StakeKey 1 1, \<lparr>coins = 5000000000, epochs = \<lparr>mining = 10, witnessing = 10\<rparr>, nonce = 10\<rparr>),
              1 \<mapsto> (StakeKey 2 7, \<lparr>coins = 3000000000, epochs = \<lparr>mining = 12, witnessing = 12\<rparr>, nonce = 12\<rparr>)],
      fresh = 2, by_key = [(StakeKey 1 1, 0), (StakeKey 2 7, 1)],
      by_validator = [(1, [0]), (2, [1])], by_withdrawer = [(1, [0]), (7, [1])]\<rparr>"

lemma sample_run: "run_ops stakes_step sample_ops empty_stakes = Some sample_stakes"
  by (simp add: sample_ops_def sample_stakes_def stakes_eval Let_def)

lemma sample_wf: "stakes_wf sample_stakes" "stakes_positive sample_stakes"
  using tracker.run_invar [OF _ sample_run] by (simp_all add: stakes_wf_empty stakes_positive_empty)

lemma sample_ledger:
  "ledger sample_stakes k =
     (if k = StakeKey 1 1
      then Some \<lparr>coins = 5000000000, epochs = \<lparr>mining = 10, witnessing = 10\<rparr>, nonce = 10\<rparr>
      else if k = StakeKey 2 7
      then Some \<lparr>coins = 3000000000, epochs = \<lparr>mining = 12, witnessing = 12\<rparr>, nonce = 12\<rparr>
      else None)"
  by (auto simp: ledger_def sample_stakes_def read_value_def read_entry_def)

lemma sample_rank: "by_rank sample_stakes Mining 20 = [(StakeKey 1 1, 50), (StakeKey 2 7, 24)]"
  by (simp add: by_rank_def sample_stakes_def stakes_eval less_prod_def less_eq_prod_def)

lemma sample_size: "length (by_key sample_stakes) = 2"
  by (simp add: sample_stakes_def)

theorem stakes_run_refines_ledger_witness:
  "stakes_wf sample_stakes \<and> spec_run ledger_spec sample_ops Map.empty (ledger sample_stakes)"
  using stakes_run_refines_ledger [OF sample_run] by simp

theorem stakes_run_total_staked_witness:
  "run_ops stakes_step sample_ops empty_stakes = Some sample_stakes
   \<and> total_staked sample_stakes = 8000000000"
  using stakes_run_total_staked [OF stakes_wf_empty stakes_positive_empty sample_run] sample_run
  by (simp add: total_staked_def empty_stakes_def sample_ops_def)


theorem by_rank_complete_and_sorted_witness:
  "by_rank sample_stakes Mining 20 = [(StakeKey 1 1, 50), (StakeKey 2 7, 24)]
   \<and> distinct (map fst (by_rank sample_stakes Mining 20))
   \<and> (StakeKey 2 7, 24) \<in> {(k, stake_power v Mining 20) | k v. ledger sample_stakes k = Some v}"
proof -
  have "(StakeKey 2 7, 24) \<in> set (by_rank sample_stakes Mining 20)"
    by (simp add: sample_rank)
  then show ?thesis
    using by_rank_complete_and_sorted [OF sample_wf(1), of Mining 20] sample_rank by metis
qed




theorem reserve_collateral_hides_refusal_witness:
  "\<exists>st'. reserve_collateral sample_stakes 2 2500000000 1000000000 = (Ok (), st')
     \<and> ledger st' = ledger sample_stakes"
  by (rule reserve_collateral_hides_refusal [OF sample_wf(1), of 2 "StakeKey 2 7"])
    (auto simp: sample_ledger split: if_splits)

end
