(* ===== verification/Trs.thy ===== *)
theory Trs
  imports Prelude
begin

text \<open>
  The total reputation set (reputation/src/trs.rs). The identities are a type variable; the
  reputation values and the expiration times are 32-bit words, which is what the node
  instantiates the generic container with (\<^verbatim>\<open>Reputation\<close> and \<^verbatim>\<open>Alpha\<close> of chain/mod.rs), so
  additions wrap as they do in the built code. The two functions on caches work at any width,
  since the active reputation set uses them with 16-bit counters.

  Loops over a hash map are recursions over its entry list. A panicking loop ends in \<open>Panic\<close>
  without a state: the panic unwinds the caller.
\<close>

section \<open>Definitions\<close>

subsection \<open>Caches\<close>

definition get_or_default :: "('k \<times> 'v::zero) list \<Rightarrow> 'k \<Rightarrow> 'v" where
  "get_or_default m k = (case map_of m k of None \<Rightarrow> 0 | Some v \<Rightarrow> v)"

definition increment_cache :: "('k \<times> 'l::len word) list \<Rightarrow> 'k \<Rightarrow> 'l word \<Rightarrow> ('k \<times> 'l word) list" where
  "increment_cache m k v = (if v \<noteq> 0 then AList.update k (get_or_default m k + v) m else m)"

text \<open>\<open>None\<close> is the error \<^verbatim>\<open>InconsistentCacheError\<close>, which leaves the map as it was.\<close>

definition decrement_cache ::
  "('k \<times> 'l::len word) list \<Rightarrow> 'k \<Rightarrow> 'l word \<Rightarrow> ('k \<times> 'l word) list option"
where
  "decrement_cache m k v =
     (if v = 0 then Some m
      else case map_of m k of
        Some x \<Rightarrow>
          if v < x then Some (AList.update k (x - v) m)
          else if v = x then Some (AList.delete k m)
          else None
      | None \<Rightarrow> None)"

subsection \<open>The set\<close>

type_synonym reputation = u32
type_synonym alpha = u32
type_synonym 'k packets = "('k \<times> reputation) list"

record 'k trs =
  trs_map :: "'k packets"
  trs_queue :: "(alpha \<times> 'k packets) list"

datatype non_sorted_alpha = NonSortedAlpha alpha alpha
datatype rep_error = RepError reputation reputation

definition trs_new :: "'k trs" where
  "trs_new = \<lparr>trs_map = [], trs_queue = []\<rparr>"

text \<open>The fold of \<^verbatim>\<open>gain\<close>: the packets enter the cache and the last map of the queue.\<close>

fun gain_packets :: "'k packets \<Rightarrow> 'k packets \<Rightarrow> 'k packets \<Rightarrow> 'k packets \<times> 'k packets" where
  "gain_packets [] cache back = (cache, back)"
| "gain_packets ((k, v) # diff) cache back =
     gain_packets diff (increment_cache cache k v) (AList.update k (get_or_default back k + v) back)"

definition trs_gain ::
  "'k trs \<Rightarrow> alpha \<Rightarrow> 'k packets \<Rightarrow> (non_sorted_alpha, unit) outcome \<times> 'k trs"
where
  "trs_gain t expiration diff =
     (let diff' = filter (\<lambda>(_, v). v > 0) diff;
          push_new =
            (let (cache, back) = gain_packets diff' (trs_map t) []
             in (Ok (), \<lparr>trs_map = cache, trs_queue = trs_queue t @ [(expiration, back)]\<rparr>))
      in if trs_queue t = [] then push_new
         else
           let (max_alpha, back) = last (trs_queue t)
           in if max_alpha > expiration then (Err (NonSortedAlpha expiration max_alpha), t)
              else if max_alpha = expiration then
                let (cache, back') = gain_packets diff' (trs_map t) back
                in (Ok (), \<lparr>trs_map = cache, trs_queue = butlast (trs_queue t) @ [(max_alpha, back')]\<rparr>)
              else push_new)"

fun trs_from_queue_loop ::
  "(alpha \<times> 'k packets) list \<Rightarrow> 'k trs \<Rightarrow> (non_sorted_alpha, 'k trs) outcome"
where
  "trs_from_queue_loop [] t = Ok t"
| "trs_from_queue_loop ((a, diff) # q) t =
     (case trs_gain t a diff of
        (Ok _, t') \<Rightarrow> trs_from_queue_loop q t'
      | (Err e, _) \<Rightarrow> Err e
      | (Panic, _) \<Rightarrow> Panic)"

definition trs_from_queue :: "(alpha \<times> 'k packets) list \<Rightarrow> (non_sorted_alpha, 'k trs) outcome" where
  "trs_from_queue q = trs_from_queue_loop q trs_new"

text \<open>One expired map: its packets leave the cache and are added up.\<close>

fun drain_packets :: "'k packets \<Rightarrow> 'k packets \<Rightarrow> reputation \<Rightarrow> ('k packets \<times> reputation) option" where
  "drain_packets [] cache expired = Some (cache, expired)"
| "drain_packets ((k, v) # front) cache expired =
     (case decrement_cache cache k v of
        None \<Rightarrow> None
      | Some cache' \<Rightarrow> drain_packets front cache' (expired + v))"

fun expire_loop ::
  "alpha \<Rightarrow> (alpha \<times> 'k packets) list \<Rightarrow> 'k packets \<Rightarrow> reputation \<Rightarrow> (reputation \<times> 'k trs) option"
where
  "expire_loop now [] cache expired = Some (expired, \<lparr>trs_map = cache, trs_queue = []\<rparr>)"
| "expire_loop now ((e, front) # q) cache expired =
     (if e > now then Some (expired, \<lparr>trs_map = cache, trs_queue = (e, front) # q\<rparr>)
      else case drain_packets front cache expired of
        None \<Rightarrow> None
      | Some (cache', expired') \<Rightarrow> expire_loop now q cache' expired')"

definition trs_expire :: "'k trs \<Rightarrow> alpha \<Rightarrow> (unit, reputation \<times> 'k trs) outcome" where
  "trs_expire t now =
     (case expire_loop now (trs_queue t) (trs_map t) 0 of None \<Rightarrow> Panic | Some r \<Rightarrow> Ok r)"

definition trs_get :: "'k trs \<Rightarrow> 'k \<Rightarrow> reputation" where
  "trs_get t k = get_or_default (trs_map t) k"

definition trs_get_sum :: "'k trs \<Rightarrow> 'k list \<Rightarrow> reputation" where
  "trs_get_sum t ids = fold (\<lambda>k acc. acc + trs_get t k) ids 0"

definition trs_get_total_sum :: "'k trs \<Rightarrow> reputation" where
  "trs_get_total_sum t = fold (\<lambda>(_, v) acc. acc + v) (trs_map t) 0"

definition trs_num_identities :: "'k trs \<Rightarrow> nat" where
  "trs_num_identities t = length (trs_map t)"

definition trs_clear :: "'k trs \<Rightarrow> 'k trs" where
  "trs_clear t = t\<lparr>trs_map := [], trs_queue := []\<rparr>"

text \<open>\<^verbatim>\<open>spend_coin\<close> returns the two new values with the two flags saying which of them to retain.\<close>

definition spend_coin :: "reputation \<Rightarrow> reputation \<Rightarrow> reputation \<times> reputation \<times> bool \<times> bool" where
  "spend_coin x ts =
     (if x > ts then (x - ts, ts, True, False)
      else if x = ts then (x, ts, False, False)
      else (x, ts - x, False, True))"

text \<open>The two directions of the intersection in \<^verbatim>\<open>expire_packets\<close>.\<close>

fun retain_to_subtract :: "'k packets \<Rightarrow> 'k packets \<Rightarrow> 'k packets \<times> 'k packets" where
  "retain_to_subtract rep_diff [] = (rep_diff, [])"
| "retain_to_subtract rep_diff ((k, ts) # rest) =
     (case map_of rep_diff k of
        Some x \<Rightarrow>
          let (x', ts', keep_x, keep_ts) = spend_coin x ts;
              rep_diff' = (if keep_x then AList.update k x' rep_diff
                           else AList.delete k rep_diff);
              (rep_diff'', rest') = retain_to_subtract rep_diff' rest
          in (rep_diff'', if keep_ts then (k, ts') # rest' else rest')
      | None \<Rightarrow>
          let (rep_diff'', rest') = retain_to_subtract rep_diff rest
          in (rep_diff'', (k, ts) # rest'))"

fun retain_rep_diff :: "'k packets \<Rightarrow> 'k packets \<Rightarrow> 'k packets \<times> 'k packets" where
  "retain_rep_diff [] to_subtract = ([], to_subtract)"
| "retain_rep_diff ((k, x) # rest) to_subtract =
     (case map_of to_subtract k of
        Some ts \<Rightarrow>
          let (x', ts', keep_x, keep_ts) = spend_coin x ts;
              to_subtract' = (if keep_ts then AList.update k ts' to_subtract
                              else AList.delete k to_subtract);
              (rest', to_subtract'') = retain_rep_diff rest to_subtract'
          in (if keep_x then (k, x') # rest' else rest', to_subtract'')
      | None \<Rightarrow>
          let (rest', to_subtract'') = retain_rep_diff rest to_subtract
          in ((k, x) # rest', to_subtract''))"

definition expire_packets :: "'k packets \<Rightarrow> 'k packets \<Rightarrow> 'k packets \<times> 'k packets" where
  "expire_packets rep_diff to_subtract =
     (if length to_subtract < length rep_diff then retain_to_subtract rep_diff to_subtract
      else retain_rep_diff rep_diff to_subtract)"

text \<open>
  The first pass of \<^verbatim>\<open>penalize_many\<close>: what each identity loses is taken from the cache and
  collected. An identity that would gain reputation stops the pass with an error; the cache
  keeps what was taken before.
\<close>

primrec penalize_cache ::
  "('k \<times> (reputation \<Rightarrow> reputation)) list \<Rightarrow> 'k packets \<Rightarrow> 'k packets \<Rightarrow> reputation
     \<Rightarrow> (rep_error, 'k packets \<times> reputation) outcome \<times> 'k packets"
where
  "penalize_cache [] cache to_subtract total_subtracted = (Ok (to_subtract, total_subtracted), cache)"
| "penalize_cache (id_f # ids_fs) cache to_subtract total_subtracted =
     (let (k, next_v) = id_f;
          old_v = get_or_default cache k;
          new_v = next_v old_v
      in if new_v > old_v then (Err (RepError old_v new_v), cache)
         else if new_v = old_v then penalize_cache ids_fs cache to_subtract total_subtracted
         else
           let ts = old_v - new_v
           in case decrement_cache cache k ts of
                None \<Rightarrow> (Panic, cache)
              | Some cache' \<Rightarrow>
                  penalize_cache ids_fs cache' (AList.update k ts to_subtract)
                    (total_subtracted + ts))"

text \<open>The second pass, over the queue from its back, until nothing is left to subtract.\<close>

fun penalize_queue ::
  "(alpha \<times> 'k packets) list \<Rightarrow> 'k packets \<Rightarrow> (alpha \<times> 'k packets) list \<times> 'k packets"
where
  "penalize_queue [] to_subtract = ([], to_subtract)"
| "penalize_queue ((a, rep_diff) # q) to_subtract =
     (let (rep_diff', to_subtract') = expire_packets rep_diff to_subtract
      in if to_subtract' = [] then ((a, rep_diff') # q, [])
         else let (q', to_subtract'') = penalize_queue q to_subtract'
              in ((a, rep_diff') # q', to_subtract''))"

definition trs_penalize_many ::
  "'k trs \<Rightarrow> ('k \<times> (reputation \<Rightarrow> reputation)) list
     \<Rightarrow> (rep_error, reputation) outcome \<times> 'k trs"
where
  "trs_penalize_many t ids_fs =
     (case penalize_cache ids_fs (trs_map t) [] 0 of
        (Err e, cache) \<Rightarrow> (Err e, t\<lparr>trs_map := cache\<rparr>)
      | (Panic, cache) \<Rightarrow> (Panic, t\<lparr>trs_map := cache\<rparr>)
      | (Ok (to_subtract, total_subtracted), cache) \<Rightarrow>
          let (q, left) = penalize_queue (rev (trs_queue t)) to_subtract;
              t' = \<lparr>trs_map = cache, trs_queue = rev q\<rparr>
          in if left = [] then (Ok total_subtracted, t') else (Panic, t'))"

definition trs_penalize ::
  "'k trs \<Rightarrow> 'k \<Rightarrow> (reputation \<Rightarrow> reputation) \<Rightarrow> (rep_error, reputation) outcome \<times> 'k trs"
where
  "trs_penalize t k next_v = trs_penalize_many t [(k, next_v)]"

section \<open>Caches as amounts\<close>

definition amount :: "('k \<times> 'l::len word) list \<Rightarrow> 'k \<Rightarrow> nat" where
  "amount m k = unat (get_or_default m k)"

definition cache_wf :: "('k \<times> 'l::len word) list \<Rightarrow> bool" where
  "cache_wf m \<longleftrightarrow> hm_wf m \<and> (\<forall>(_, v) \<in> set m. v \<noteq> 0)"

lemma amount_Nil [simp]: "amount [] k = 0"
  by (simp add: amount_def get_or_default_def)

lemma cache_wf_Nil [simp]: "cache_wf []"
  by (simp add: cache_wf_def hm_wf_def)

lemma amount_Cons: "amount ((k, v) # m) j = (if j = k then unat v else amount m j)"
  by (simp add: amount_def get_or_default_def)

lemma amount_fresh: "k \<notin> fst ` set m \<Longrightarrow> amount m k = 0"
  by (simp add: amount_def get_or_default_def map_of_eq_None_iff [THEN iffD2])

lemma cache_wf_Cons:
  "cache_wf ((k, v) # m) \<longleftrightarrow> k \<notin> fst ` set m \<and> v \<noteq> 0 \<and> cache_wf m"
  by (auto simp: cache_wf_def hm_wf_def)

lemma amount_update [simp]:
  "amount (AList.update k v m) j = (if j = k then unat v else amount m j)"
  by (simp add: amount_def get_or_default_def update_conv')

lemma amount_delete [simp]: "amount (AList.delete k m) j = (if j = k then 0 else amount m j)"
  by (simp add: amount_def get_or_default_def delete_conv')

lemma cache_wf_hm: "cache_wf m \<Longrightarrow> hm_wf m"
  by (simp add: cache_wf_def)

lemma cache_wf_update [simp]: "cache_wf m \<Longrightarrow> v \<noteq> 0 \<Longrightarrow> cache_wf (AList.update k v m)"
  by (auto simp: cache_wf_def hm.invar_insert hm.set_insert_kv)

lemma cache_wf_delete [simp]: "cache_wf m \<Longrightarrow> cache_wf (AList.delete k m)"
  by (auto simp: cache_wf_def hm.invar_remove hm.set_remove_k)

lemma amount_0_iff: "cache_wf m \<Longrightarrow> amount m k = 0 \<longleftrightarrow> map_of m k = None"
  by (auto simp: cache_wf_def hm.entry_iff amount_def get_or_default_def unat_eq_zero
      split: option.splits)

lemma amount_all_0:
  assumes "cache_wf m" and zero: "\<And>k. amount m k = 0"
  shows "m = []"
proof (cases m)
  case (Cons e m')
  then show ?thesis
    using assms(1) zero [of "fst e"] by (cases e) (simp add: cache_wf_Cons amount_Cons unat_eq_zero)
qed simp

lemma amount_Some: "map_of m k = Some v \<Longrightarrow> amount m k = unat v"
  by (simp add: amount_def get_or_default_def)

lemma amount_lt: "amount (m :: ('k \<times> 'l::len word) list) k < 2 ^ LENGTH('l)"
  by (simp add: amount_def unat_lt_size)

lemma increment_cache_amount:
  fixes v :: "'l::len word"
  assumes "amount m k + unat v < 2 ^ LENGTH('l)"
  shows "amount (increment_cache m k v) j = (if j = k then amount m k + unat v else amount m j)"
  using assms by (auto simp: increment_cache_def amount_def [of m] unat_simps)

lemma increment_cache_wf:
  fixes v :: "'l::len word"
  assumes "cache_wf m" and "amount m k + unat v < 2 ^ LENGTH('l)"
  shows "cache_wf (increment_cache m k v)"
proof (cases "v = 0")
  case False
  have "unat (get_or_default m k + v) = amount m k + unat v"
    using assms(2) by (simp add: amount_def unat_simps)
  then have "get_or_default m k + v \<noteq> 0"
    using False by (metis add_is_0 unat_0 unat_eq_zero)
  then show ?thesis
    using assms(1) by (simp add: increment_cache_def)
qed (simp add: assms(1) increment_cache_def)

lemma decrement_cache_amount:
  assumes "cache_wf m" and "unat v \<le> amount m k"
  shows "\<exists>m'. decrement_cache m k v = Some m' \<and> cache_wf m'
    \<and> (\<forall>j. amount m' j = (if j = k then amount m k - unat v else amount m j))"
proof (cases "v = 0")
  case True
  then show ?thesis using assms(1) by (simp add: decrement_cache_def)
next
  case False
  then obtain x where x: "map_of m k = Some x"
    using assms amount_0_iff [of m k] by (auto simp: unat_eq_zero)
  then have "v \<le> x"
    using assms(2) by (simp add: amount_Some word_le_nat_alt)
  then consider "v < x" | "v = x" by (auto simp: order.order_iff_strict)
  then show ?thesis
  proof cases
    case 1
    then have "x - v \<noteq> 0" by simp
    then show ?thesis
      using 1 False x assms(1)
      by (simp add: decrement_cache_def amount_Some unat_simps order.strict_implies_order)
  next
    case 2
    then show ?thesis using False x assms(1) by (simp add: decrement_cache_def amount_Some)
  qed
qed

lemma decrement_cache_refused:
  assumes "cache_wf m"
  shows "decrement_cache m k v = None \<longleftrightarrow> amount m k < unat v"
proof
  assume "decrement_cache m k v = None"
  then show "amount m k < unat v"
    using decrement_cache_amount [OF assms, of v k] by force
next
  assume "amount m k < unat v"
  then show "decrement_cache m k v = None"
    by (cases "map_of m k")
      (auto simp: decrement_cache_def amount_def get_or_default_def word_less_nat_alt)
qed


section \<open>The consistency of cache and queue\<close>

definition queued :: "(alpha \<times> 'k packets) list \<Rightarrow> 'k \<Rightarrow> nat" where
  "queued q k = sum_list (map (\<lambda>(_, p). amount p k) q)"

definition queue_wf :: "(alpha \<times> 'k packets) list \<Rightarrow> bool" where
  "queue_wf q \<longleftrightarrow> (\<forall>(_, p) \<in> set q. cache_wf p)"

text \<open>
  The invariant the comments of the code rely on: the queue is ordered by expiration, no packet
  is empty, and the cache holds for every identity the sum of its packets.
\<close>

definition trs_wf :: "'k trs \<Rightarrow> bool" where
  "trs_wf t \<longleftrightarrow> cache_wf (trs_map t) \<and> queue_wf (trs_queue t)
     \<and> sorted_wrt (<) (map fst (trs_queue t)) \<and> (\<forall>k. amount (trs_map t) k = queued (trs_queue t) k)"

lemma queued_simps [simp]:
  "queued [] k = 0"
  "queued ((a, p) # q) k = amount p k + queued q k"
  "queued (q @ q') k = queued q k + queued q' k"
  by (simp_all add: queued_def)

lemma queued_rev [simp]: "queued (rev q) k = queued q k"
  by (induction q) auto

lemma queue_wf_simps [simp]:
  "queue_wf []"
  "queue_wf ((a, p) # q) \<longleftrightarrow> cache_wf p \<and> queue_wf q"
  "queue_wf (q @ q') \<longleftrightarrow> queue_wf q \<and> queue_wf q'"
  "queue_wf (rev q) \<longleftrightarrow> queue_wf q"
  by (auto simp: queue_wf_def)

lemma unat_trs_get: "unat (trs_get t k) = amount (trs_map t) k"
  by (simp add: trs_get_def amount_def)

lemma trs_wf_new: "trs_wf trs_new"
  by (simp add: trs_wf_def trs_new_def)

section \<open>Gaining reputation\<close>

definition gained :: "'k packets \<Rightarrow> 'k \<Rightarrow> nat" where
  "gained diff k = sum_list (map (\<lambda>(j, v). if j = k then unat v else 0) diff)"

lemma gained_simps [simp]:
  "gained [] k = 0"
  "gained ((j, v) # diff) k = (if j = k then unat v else 0) + gained diff k"
  by (simp_all add: gained_def)

lemma gained_filter [simp]: "gained (filter (\<lambda>(_, v). v > 0) diff) k = gained diff k"
  by (induction diff) (auto simp: word_gt_0 split: if_splits)

lemma gain_packets_amount:
  assumes "cache_wf cache" and "cache_wf b0" and "\<forall>(_, v) \<in> set diff. v \<noteq> 0"
    and "\<And>k. amount b0 k \<le> amount cache k"
    and "\<And>k. amount cache k + gained diff k < 2 ^ 32"
    and "gain_packets diff cache b0 = (cache', b0')"
  shows "cache_wf cache' \<and> cache_wf b0'
    \<and> (\<forall>k. amount cache' k = amount cache k + gained diff k)
    \<and> (\<forall>k. amount b0' k = amount b0 k + gained diff k)"
  using assms
proof (induction diff cache b0 rule: gain_packets.induct)
  case (1 cache b0)
  then show ?case by simp
next
  case (2 j v diff cache b0)
  let ?c = "increment_cache cache j v" and ?b = "AList.update j (get_or_default b0 j + v) b0"
  have room: "amount cache j + unat v < 2 ^ 32"
    using "2.prems"(5) [of j] by simp
  then have room_back: "unat (get_or_default b0 j + v) = amount b0 j + unat v"
    using "2.prems"(4) [of j] by (simp add: amount_def unat_simps)
  have c: "cache_wf ?c" "amount ?c k = amount cache k + (if j = k then unat v else 0)" for k
    using increment_cache_wf [OF "2.prems"(1)] increment_cache_amount [of cache j v k] room by auto
  have "v \<noteq> 0" using "2.prems"(3) by simp
  then have "get_or_default b0 j + v \<noteq> 0"
    using room_back by (metis add_is_0 unat_0 unat_eq_zero)
  then have b: "cache_wf ?b" "amount ?b k = amount b0 k + (if j = k then unat v else 0)" for k
    using "2.prems"(2) room_back by auto
  have "cache_wf cache' \<and> cache_wf b0'
      \<and> (\<forall>k. amount cache' k = amount ?c k + gained diff k)
      \<and> (\<forall>k. amount b0' k = amount ?b k + gained diff k)"
  proof (rule "2.IH")
    show "amount ?c k + gained diff k < 2 ^ 32" for k
      using "2.prems"(5) [of k] by (simp add: c(2))
    show "amount ?b k \<le> amount ?c k" for k
      using "2.prems"(4) [of k] by (auto simp: room_back c(2))
  qed (use "2.prems" b c in auto)
  then show ?case by (auto simp: room_back c(2) add.assoc)
qed

lemma gain_filtered:
  assumes "cache_wf c" and "cache_wf b" and "\<And>k. amount b k \<le> amount c k"
    and "\<And>k. amount c k + gained diff k < 2 ^ 32"
    and "gain_packets (filter (\<lambda>(_, v). v > 0) diff) c b = (c', b')"
  shows "cache_wf c' \<and> cache_wf b'
    \<and> (\<forall>k. amount c' k = amount c k + gained diff k)
    \<and> (\<forall>k. amount b' k = amount b k + gained diff k)"
proof -
  have "\<forall>(_, v) \<in> set (filter (\<lambda>(_, v). v > 0) diff). v \<noteq> 0" by auto
  from gain_packets_amount [OF assms(1,2) this assms(3) _ assms(5)] assms(4)
  show ?thesis by simp
qed

lemma strict_sorted_le_last:
  fixes x :: "'a::linorder"
  shows "sorted_wrt (<) xs \<Longrightarrow> x \<in> set xs \<Longrightarrow> x \<le> last xs"
  by (induction xs) (auto simp: order.strict_implies_order)

lemma trs_gain_push:
  assumes wf: "trs_wf t" and room: "\<And>k. amount (trs_map t) k + gained diff k < 2 ^ 32"
    and new: "trs_queue t = [] \<or> fst (last (trs_queue t)) < e"
  shows "\<exists>t'. trs_gain t e diff = (Ok (), t') \<and> trs_wf t'
    \<and> (\<forall>k. amount (trs_map t') k = amount (trs_map t) k + gained diff k)"
proof -
  let ?d = "filter (\<lambda>(_, v). v > 0) diff"
  obtain c b where g: "gain_packets ?d (trs_map t) [] = (c, b)" by fastforce
  let ?t = "\<lparr>trs_map = c, trs_queue = trs_queue t @ [(e, b)]\<rparr>"
  have run: "trs_gain t e diff = (Ok (), ?t)"
    using new g by (auto simp: trs_gain_def Let_def split: prod.splits)
  have amounts: "cache_wf c" "cache_wf b"
      "\<And>k. amount c k = amount (trs_map t) k + gained diff k" "\<And>k. amount b k = gained diff k"
    using gain_filtered [OF _ _ _ room g] wf by (simp_all add: trs_wf_def)
  have "fst x < e" if "x \<in> set (trs_queue t)" for x
  proof -
    have "fst x \<le> last (map fst (trs_queue t))"
      using wf that by (intro strict_sorted_le_last) (auto simp: trs_wf_def)
    then show ?thesis using new that by (cases "trs_queue t = []") (auto simp: last_map)
  qed
  then have "trs_wf ?t"
    using wf amounts by (auto simp: trs_wf_def sorted_wrt_append)
  then show ?thesis
    using run amounts(3) by auto
qed


lemma trs_gain_merge:
  assumes wf: "trs_wf t" and room: "\<And>k. amount (trs_map t) k + gained diff k < 2 ^ 32"
    and old: "trs_queue t \<noteq> []" "fst (last (trs_queue t)) = e"
  shows "\<exists>t'. trs_gain t e diff = (Ok (), t') \<and> trs_wf t'
    \<and> (\<forall>k. amount (trs_map t') k = amount (trs_map t) k + gained diff k)"
proof -
  let ?d = "filter (\<lambda>(_, v). v > 0) diff"
  obtain q p where q: "trs_queue t = q @ [(e, p)]"
    using old by (metis append_butlast_last_id prod.collapse)
  obtain c b where g: "gain_packets ?d (trs_map t) p = (c, b)" by fastforce
  let ?t = "\<lparr>trs_map = c, trs_queue = q @ [(e, b)]\<rparr>"
  have run: "trs_gain t e diff = (Ok (), ?t)"
    using g by (simp add: trs_gain_def q Let_def)
  have "amount p k \<le> amount (trs_map t) k" for k
    using wf by (simp add: trs_wf_def q)
  then have amounts: "cache_wf c" "cache_wf b"
      "\<And>k. amount c k = amount (trs_map t) k + gained diff k"
      "\<And>k. amount b k = amount p k + gained diff k"
    using gain_filtered [OF _ _ _ room g] wf by (simp_all add: trs_wf_def q)
  then have "trs_wf ?t"
    using wf by (auto simp: trs_wf_def q)
  then show ?thesis
    using run amounts(3) by auto
qed

lemma trs_gain_cases:
  assumes "trs_wf t" and "\<And>k. amount (trs_map t) k + gained diff k < 2 ^ 32"
  shows "(if trs_queue t \<noteq> [] \<and> e < fst (last (trs_queue t))
      then trs_gain t e diff = (Err (NonSortedAlpha e (fst (last (trs_queue t)))), t)
      else \<exists>t'. trs_gain t e diff = (Ok (), t') \<and> trs_wf t'
         \<and> (\<forall>k. amount (trs_map t') k = amount (trs_map t) k + gained diff k))"
proof (cases "trs_queue t \<noteq> [] \<and> e < fst (last (trs_queue t))")
  case True
  then show ?thesis
    by (cases "last (trs_queue t)") (simp add: trs_gain_def Let_def split: prod.splits)
next
  case False
  then have "trs_queue t = [] \<or> fst (last (trs_queue t)) < e
      \<or> trs_queue t \<noteq> [] \<and> fst (last (trs_queue t)) = e"
    by (auto simp: not_less order.order_iff_strict)
  with False show ?thesis
    using trs_gain_push [OF assms, of e] trs_gain_merge [OF assms, of e] by auto
qed

section \<open>Expiry\<close>

lemma drain_packets_amount:
  assumes "cache_wf cache" and "cache_wf front" and "\<And>k. amount front k \<le> amount cache k"
  shows "\<exists>cache'. drain_packets front cache expired = Some (cache', expired + sum_list (map snd front))
    \<and> cache_wf cache' \<and> (\<forall>k. amount cache' k = amount cache k - amount front k)"
  using assms
proof (induction front cache expired rule: drain_packets.induct)
  case (1 cache expired)
  then show ?case by simp
next
  case (2 j v front cache expired)
  have f: "j \<notin> fst ` set front" "cache_wf front"
    using "2.prems"(2) by (simp_all add: cache_wf_Cons)
  have "unat v \<le> amount cache j"
    using "2.prems"(3) [of j] by (simp add: amount_Cons)
  then obtain c where c: "decrement_cache cache j v = Some c" "cache_wf c"
      "\<And>k. amount c k = (if k = j then amount cache j - unat v else amount cache k)"
    using decrement_cache_amount [OF "2.prems"(1)] by blast
  have "amount front k \<le> amount c k" for k
    using "2.prems"(3) [of k] amount_fresh [OF f(1)] by (auto simp: c(3) amount_Cons split: if_splits)
  then obtain c' where c': "drain_packets front c (expired + v)
        = Some (c', expired + v + sum_list (map snd front))"
      "cache_wf c'" "\<And>k. amount c' k = amount c k - amount front k"
    using "2.IH" [OF c(1,2) f(2)] by blast
  then show ?case
    using c(1) amount_fresh [OF f(1)] by (auto simp: c(3) amount_Cons add.assoc)
qed

lemma expire_loop_amount:
  assumes "cache_wf cache" and "queue_wf q" and "\<And>k. amount cache k = queued q k"
  shows "\<exists>cache'. expire_loop now q cache expired
      = Some (expired + sum_list (map (\<lambda>(_, p). sum_list (map snd p)) (takeWhile (\<lambda>(e, _). e \<le> now) q)),
              \<lparr>trs_map = cache', trs_queue = dropWhile (\<lambda>(e, _). e \<le> now) q\<rparr>)
    \<and> cache_wf cache' \<and> (\<forall>k. amount cache' k = queued (dropWhile (\<lambda>(e, _). e \<le> now) q) k)"
  using assms
proof (induction now q cache expired rule: expire_loop.induct)
  case (1 now cache expired)
  then show ?case by simp
next
  case (2 now e front q cache expired)
  show ?case
  proof (cases "now < e")
    case True
    then show ?thesis using "2.prems" by (simp add: not_le [symmetric])
  next
    case False
    have "amount front k \<le> amount cache k" for k
      using "2.prems"(3) [of k] by simp
    then obtain c where c: "drain_packets front cache expired
          = Some (c, expired + sum_list (map snd front))"
        "cache_wf c" "\<And>k. amount c k = amount cache k - amount front k"
      using drain_packets_amount [of cache front expired] "2.prems"(1,2) by auto
    have "amount c k = queued q k" for k
      using "2.prems"(3) [of k] by (simp add: c(3))
    with "2.IH" [OF False c(1) refl c(2)] "2.prems"(2) show ?thesis
      using False c(1) by (simp add: add.assoc not_less)
  qed
qed

lemma dropWhile_filter_sorted:
  fixes now :: "'a::linorder"
  assumes "sorted_wrt (<) (map fst q)"
  shows "dropWhile (\<lambda>(e, _). e \<le> now) q = filter (\<lambda>(e, _). now < e) q"
    and "takeWhile (\<lambda>(e, _). e \<le> now) q = filter (\<lambda>(e, _). e \<le> now) q"
  using assms
proof (induction q)
  case (Cons x q)
  {
    case 1
    then show ?case
      using Cons by (cases x) (auto simp: not_le intro!: filter_True [symmetric])
  next
    case 2
    then show ?case
      using Cons by (cases x) (auto simp: not_le intro!: filter_False [symmetric])
  }
qed simp_all

section \<open>Penalization\<close>

lemma spend_coin_cases:
  obtains (more) "unat x > unat ts" "spend_coin x ts = (x - ts, ts, True, False)"
    "unat (x - ts) = unat x - unat ts" "x - ts \<noteq> 0"
  | (same) "unat x = unat ts" "spend_coin x ts = (x, ts, False, False)"
  | (less) "unat x < unat ts" "spend_coin x ts = (x, ts - x, False, True)"
    "unat (ts - x) = unat ts - unat x" "ts - x \<noteq> 0"
proof -
  consider "ts < x" | "x = ts" | "x < ts" by fastforce
  then show thesis
  proof cases
    case 1
    then show thesis
      using more by (auto simp: spend_coin_def unat_simps word_less_nat_alt order.strict_implies_order)
  next
    case 2
    then show thesis using same by (simp add: spend_coin_def)
  next
    case 3
    then show thesis
      using less by (auto simp: spend_coin_def unat_simps word_less_nat_alt order.strict_implies_order)
  qed
qed

lemma cache_wf_Cons_amount: "cache_wf m \<Longrightarrow> amount m k = 0 \<Longrightarrow> v \<noteq> 0 \<Longrightarrow> cache_wf ((k, v) # m)"
  by (simp add: cache_wf_Cons amount_0_iff map_of_eq_None_iff)

lemma retain_to_subtract_amount:
  assumes "cache_wf r" and "cache_wf s" and "retain_to_subtract r s = (r', s')"
  shows "cache_wf r' \<and> cache_wf s' \<and> (\<forall>k. amount r' k = amount r k - amount s k)
    \<and> (\<forall>k. amount s' k = amount s k - amount r k)"
  using assms
proof (induction s arbitrary: r r' s')
  case Nil
  then show ?case by simp
next
  case (Cons e rest)
  obtain j ts where e: "e = (j, ts)" by fastforce
  have rest: "cache_wf rest" "amount rest j = 0" "ts \<noteq> 0"
    using Cons.prems(2) by (simp_all add: e cache_wf_Cons amount_fresh)
  show ?case
  proof (cases "map_of r j")
    case None
    then have "amount r j = 0" by (simp add: amount_def get_or_default_def)
    moreover obtain s1 where s1: "retain_to_subtract r rest = (r', s1)" "s' = (j, ts) # s1"
      using Cons.prems(3) None by (auto simp: e split: prod.splits)
    moreover note Cons.IH [OF Cons.prems(1) rest(1) s1(1)]
    ultimately show ?thesis
      using rest by (auto simp: e amount_Cons intro!: cache_wf_Cons_amount)
  next
    case (Some x)
    then have x: "amount r j = unat x" by (rule amount_Some)
    define r1 where "r1 = (if unat x > unat ts then AList.update j (x - ts) r else AList.delete j r)"
    obtain s1 where s1: "retain_to_subtract r1 rest = (r', s1)"
        "s' = (if unat x < unat ts then (j, ts - x) # s1 else s1)"
      using Cons.prems(3) Some
      by (cases x ts rule: spend_coin_cases) (auto simp: e r1_def split: prod.splits)
    have r1: "cache_wf r1" "amount r1 k = (if k = j then unat x - unat ts else amount r k)" for k
      using Cons.prems(1) by (cases x ts rule: spend_coin_cases; simp add: r1_def)+
    from Cons.IH [OF r1(1) rest(1) s1(1)] show ?thesis
      using rest x s1(2) r1(2)
      by (cases x ts rule: spend_coin_cases) (auto simp: e amount_Cons intro!: cache_wf_Cons_amount)
  qed
qed

text \<open>The two directions of the intersection compute the same thing with the roles exchanged.\<close>

lemma retain_rep_diff_swap: "retain_rep_diff r s = prod.swap (retain_to_subtract s r)"
proof (induction r arbitrary: s)
  case (Cons e r)
  obtain j x where e: "e = (j, x)" by fastforce
  show ?case
  proof (cases "map_of s j")
    case (Some ts)
    have "spend_coin ts x = (let (x', ts', a, b) = spend_coin x ts in (ts', x', b, a))"
      by (auto simp: spend_coin_def)
    then show ?thesis
      using Some by (simp add: e Cons.IH split: prod.splits)
  qed (simp add: e Cons.IH split: prod.splits)
qed simp

lemma expire_packets_amount:
  assumes "cache_wf r" and "cache_wf s" and "expire_packets r s = (r', s')"
  shows "cache_wf r' \<and> cache_wf s' \<and> (\<forall>k. amount r' k = amount r k - amount s k)
    \<and> (\<forall>k. amount s' k = amount s k - amount r k)"
proof (cases "length s < length r")
  case True
  then show ?thesis
    using assms retain_to_subtract_amount [of r s r' s'] by (simp add: expire_packets_def)
next
  case False
  then have "retain_to_subtract s r = (s', r')"
    using assms(3) by (simp add: expire_packets_def retain_rep_diff_swap prod.swap_def prod_eq_iff)
  then show ?thesis
    using retain_to_subtract_amount [OF assms(2,1)] by blast
qed

lemma queued_drop_le: "queued (drop i q) k \<le> queued q k"
proof -
  have "queued q k = queued (take i q @ drop i q) k" by simp
  then show ?thesis by (simp only: queued_simps)
qed

text \<open>
  The pass over the queue empties the packets from the front of its argument (the latest ones):
  what is left of any suffix is the old amount, capped by the remaining total.
\<close>

lemma penalize_queue_amount:
  assumes "queue_wf q" and "cache_wf s" and "\<And>k. amount s k \<le> queued q k"
    and "penalize_queue q s = (q', left)"
  shows "left = [] \<and> queue_wf q' \<and> map fst q' = map fst q
    \<and> (\<forall>k i. queued (drop i q') k = min (queued (drop i q) k) (queued q k - amount s k))"
  using assms
proof (induction q arbitrary: s q')
  case Nil
  then show ?case using amount_all_0 [of s] by simp
next
  case (Cons e q)
  obtain a r where e: "e = (a, r)" by fastforce
  obtain r1 s1 where step: "expire_packets r s = (r1, s1)" by fastforce
  have r1: "cache_wf r1" "cache_wf s1" "\<And>k. amount r1 k = amount r k - amount s k"
      "\<And>k. amount s1 k = amount s k - amount r k"
    using expire_packets_amount [OF _ Cons.prems(2) step] Cons.prems(1) by (auto simp: e)
  show ?case
  proof (cases "s1 = []")
    case True
    then have q': "q' = (a, r1) # q" "left = []"
      using Cons.prems(4) by (simp_all add: e step)
    have le: "amount s k \<le> amount r k" for k
      using r1(4) [of k] True by simp
    have "queued (drop i q') k
        = min (queued (drop i (e # q)) k) (queued (e # q) k - amount s k)" for i k
      using queued_drop_le [of "i - 1" q k] le [of k]
      by (cases i) (auto simp: e q' r1(3) min_def)
    then show ?thesis using q' Cons.prems(1) r1(1) by (simp add: e)
  next
    case False
    then obtain q1 where q1: "penalize_queue q s1 = (q1, left)" "q' = (a, r1) # q1"
      using Cons.prems(4) by (auto simp: e step split: prod.splits)
    have le: "amount s k \<le> amount r k + queued q k" for k
      using Cons.prems(3) [of k] by (simp add: e)
    have IH: "left = [] \<and> queue_wf q1 \<and> map fst q1 = map fst q
        \<and> (\<forall>k i. queued (drop i q1) k = min (queued (drop i q) k) (queued q k - amount s1 k))"
    proof (rule Cons.IH [OF _ r1(2) _ q1(1)])
      show "queue_wf q" using Cons.prems(1) by (simp add: e)
      show "amount s1 k \<le> queued q k" for k using le [of k] by (simp add: r1(4))
    qed
    have "queued (drop i q') k
        = min (queued (drop i (e # q)) k) (queued (e # q) k - amount s k)" for i k
    proof (cases i)
      case 0
      have "queued (drop 0 q1) k = min (queued (drop 0 q) k) (queued q k - amount s1 k)"
        using IH by blast
      then show ?thesis using le [of k] by (simp add: 0 e q1(2) r1(3,4))
    next
      case (Suc j)
      then show ?thesis
        using IH le [of k] queued_drop_le [of j q k] by (simp add: e q1(2) r1(4))
    qed
    then show ?thesis using IH Cons.prems(1) r1(1) by (simp add: e q1(2))
  qed
qed

definition next_amount :: "('k \<times> (reputation \<Rightarrow> reputation)) list \<Rightarrow> 'k packets \<Rightarrow> 'k \<Rightarrow> nat" where
  "next_amount ids_fs c k =
     (case map_of ids_fs k of None \<Rightarrow> amount c k | Some f \<Rightarrow> unat (f (get_or_default c k)))"

lemma penalize_cache_amount:
  assumes "cache_wf c" and "cache_wf s" and "distinct (map fst ids_fs)"
    and "\<And>k. k \<in> fst ` set ids_fs \<Longrightarrow> amount s k = 0"
    and "\<And>k f. (k, f) \<in> set ids_fs \<Longrightarrow> f (get_or_default c k) \<le> get_or_default c k"
  shows "\<exists>s' c'. penalize_cache ids_fs c s total_sub
      = (Ok (s', total_sub + (\<Sum>(k, f)\<leftarrow>ids_fs. get_or_default c k - f (get_or_default c k))), c')
    \<and> cache_wf s' \<and> cache_wf c' \<and> (\<forall>k. amount c' k = next_amount ids_fs c k)
    \<and> (\<forall>k. amount s' k = amount s k + (amount c k - next_amount ids_fs c k))"
  using assms
proof (induction ids_fs arbitrary: c s total_sub)
  case Nil
  then show ?case by (simp add: next_amount_def)
next
  case (Cons e ids_fs)
  obtain j f where e: "e = (j, f)" by fastforce
  let ?old = "get_or_default c j" and ?new = "f (get_or_default c j)"
  have j: "map_of ids_fs j = None" "j \<notin> fst ` set ids_fs" "amount s j = 0" "?new \<le> ?old"
    using Cons.prems(3-5) by (auto simp: e map_of_eq_None_iff)
  show ?case
  proof (cases "?new = ?old")
    case True
    have same: "next_amount (e # ids_fs) c k = next_amount ids_fs c k" for k
      using j(1) by (simp add: next_amount_def e True amount_def)
    show ?thesis
      using Cons.IH [OF Cons.prems(1,2), of total_sub] Cons.prems(3-5) True same
      by (auto simp: e)
  next
    case False
    with j(4) have lt: "?new < ?old" by simp
    then have ts: "unat (?old - ?new) = unat ?old - unat ?new" "?old - ?new \<noteq> 0"
      by (auto simp: unat_simps)
    then obtain c1 where c1: "decrement_cache c j (?old - ?new) = Some c1" "cache_wf c1"
        "\<And>k. amount c1 k = (if k = j then unat ?new else amount c k)"
      using decrement_cache_amount [OF Cons.prems(1), of "?old - ?new" j] j(4)
      by (auto simp: amount_def word_le_nat_alt)
    have get1: "get_or_default c1 k = get_or_default c k" if "k \<noteq> j" for k
      using c1(3) [of k] that by (simp add: amount_def word_unat_eq_iff)
    let ?s1 = "AList.update j (?old - ?new) s"
    have next1: "next_amount ids_fs c1 k = next_amount (e # ids_fs) c k" for k
      using j(1) c1(3) [of k] get1 [of k] by (auto simp: next_amount_def e split: option.splits)
    have sums: "(\<Sum>(k, f)\<leftarrow>ids_fs. get_or_default c1 k - f (get_or_default c1 k))
        = (\<Sum>(k, f)\<leftarrow>ids_fs. get_or_default c k - f (get_or_default c k))"
      using j(2) get1 by (intro arg_cong [of _ _ sum_list] map_cong) force+
    have "\<exists>s' c'. penalize_cache ids_fs c1 ?s1 (total_sub + (?old - ?new))
        = (Ok (s', total_sub + (?old - ?new)
              + (\<Sum>(k, f)\<leftarrow>ids_fs. get_or_default c1 k - f (get_or_default c1 k))), c')
      \<and> cache_wf s' \<and> cache_wf c' \<and> (\<forall>k. amount c' k = next_amount ids_fs c1 k)
      \<and> (\<forall>k. amount s' k = amount ?s1 k + (amount c1 k - next_amount ids_fs c1 k))"
    proof (rule Cons.IH)
      show "g (get_or_default c1 k) \<le> get_or_default c1 k" if "(k, g) \<in> set ids_fs" for k g
        using that j(2) Cons.prems(5) [of k g] get1 [of k] by force
    qed (use Cons.prems c1(2) ts(2) j(2) in \<open>auto simp: e\<close>)
    moreover have "amount ?s1 k + (amount c1 k - next_amount ids_fs c1 k)
        = amount s k + (amount c k - next_amount (e # ids_fs) c k)" for k
      using j ts(1) by (simp add: next1 c1(3)) (simp add: next_amount_def e amount_def)
    moreover have "penalize_cache (e # ids_fs) c s total_sub
        = penalize_cache ids_fs c1 ?s1 (total_sub + (?old - ?new))"
      using c1(1) False leD [OF j(4)] by (simp add: e Let_def)
    moreover have "(\<Sum>(k, f)\<leftarrow>e # ids_fs. get_or_default c k - f (get_or_default c k))
        = (?old - ?new) + (\<Sum>(k, f)\<leftarrow>ids_fs. get_or_default c1 k - f (get_or_default c1 k))"
      by (simp only: sums) (simp add: e)
    ultimately show ?thesis
      by (simp only: next1 add.assoc)
  qed
qed

lemma gained_amount: "cache_wf p \<Longrightarrow> gained p k = amount p k"
  by (induction p) (auto simp: cache_wf_Cons amount_Cons amount_fresh)

lemma drain_packets_Some:
  assumes "cache_wf c" and "drain_packets p c x = Some (c', x')"
  shows "cache_wf c' \<and> (\<forall>k. amount c k = amount c' k + gained p k)"
  using assms
proof (induction p c x rule: drain_packets.induct)
  case (2 j v p c x)
  then obtain c1 where c1: "decrement_cache c j v = Some c1" by (auto split: option.splits)
  then have "unat v \<le> amount c j"
    using decrement_cache_refused [OF "2.prems"(1), of j v] by simp
  then have "cache_wf c1" "\<And>k. amount c k = amount c1 k + (if k = j then unat v else 0)"
    using decrement_cache_amount [OF "2.prems"(1), of v j] c1 by auto
  then show ?case
    using "2.IH" [OF c1] "2.prems"(2) c1 by auto
qed simp

lemma expire_loop_needs_cache:
  assumes "cache_wf c" and "queue_wf q" and "\<forall>(e, _) \<in> set q. e \<le> now"
    and "expire_loop now q c x \<noteq> None"
  shows "queued q k \<le> amount c k"
  using assms
proof (induction now q c x rule: expire_loop.induct)
  case (2 now e p q c x)
  then obtain c1 x1 where c1: "drain_packets p c x = Some (c1, x1)"
    by (auto split: option.splits if_splits)
  have now: "\<not> now < e" using "2.prems"(3) by (simp add: leD)
  have "queued q k \<le> amount c1 k"
    using "2.IH" [OF now c1 refl] drain_packets_Some [OF "2.prems"(1) c1] "2.prems"(2-4) now c1
    by simp
  then show ?case
    using drain_packets_Some [OF "2.prems"(1) c1] gained_amount [of p k] "2.prems"(2) by simp
qed simp

section \<open>Properties\<close>

text \<open>
  Gaining reputation: packets that would expire before the last ones are refused and
  nothing changes. Any other gain succeeds, keeps cache and queue consistent, and every identity
  has exactly what it had plus the sum of its packets, as long as that sum fits in 32 bits.
\<close>

theorem trs_gain_adds_reputation:
  assumes "trs_wf t" and "\<And>k. unat (trs_get t k) + gained diff k < 2 ^ 32"
  shows "(if trs_queue t \<noteq> [] \<and> e < fst (last (trs_queue t))
      then trs_gain t e diff = (Err (NonSortedAlpha e (fst (last (trs_queue t)))), t)
      else \<exists>t'. trs_gain t e diff = (Ok (), t') \<and> trs_wf t'
         \<and> (\<forall>k. unat (trs_get t' k) = unat (trs_get t k) + gained diff k))"
  using trs_gain_cases [of t diff e] assms by (simp add: unat_trs_get)


text \<open>
  Claim C23. Penalizing distinct identities, none of which would end up with more than it has,
  never hits the assertion on the mismatch between cache and queue. Each identity ends with what
  its penalization function says and the others are untouched; what is lost is returned (in
  32-bit arithmetic); the expirations stay; and the loss is taken from the packets that expire
  last: of the first \<open>i\<close> packets each identity keeps what it had in them, up to its new total.
\<close>

theorem trs_penalize_takes_latest_packets:
  assumes wf: "trs_wf t" and distinct: "distinct (map fst ids_fs)"
    and lower: "\<forall>(k, f) \<in> set ids_fs. f (trs_get t k) \<le> trs_get t k"
  shows "\<exists>t'. trs_penalize_many t ids_fs
      = (Ok (\<Sum>(k, f)\<leftarrow>ids_fs. trs_get t k - f (trs_get t k)), t')
    \<and> trs_wf t' \<and> map fst (trs_queue t') = map fst (trs_queue t)
    \<and> (\<forall>k. trs_get t' k = (case map_of ids_fs k of None \<Rightarrow> trs_get t k | Some f \<Rightarrow> f (trs_get t k)))
    \<and> (\<forall>k i. queued (take i (trs_queue t')) k
             = min (queued (take i (trs_queue t)) k) (unat (trs_get t' k)))"
proof -
  let ?c = "trs_map t" and ?q = "trs_queue t"
  have lower': "f (trs_get t k) \<le> trs_get t k" if "(k, f) \<in> set ids_fs" for k f
    using lower that by blast
  obtain s' c' where pc: "penalize_cache ids_fs ?c [] 0
        = (Ok (s', \<Sum>(k, f)\<leftarrow>ids_fs. trs_get t k - f (trs_get t k)), c')"
      "cache_wf s'" "cache_wf c'" "\<And>k. amount c' k = next_amount ids_fs ?c k"
      "\<And>k. amount s' k = amount ?c k - next_amount ids_fs ?c k"
    using penalize_cache_amount [of ?c "[]" ids_fs 0] wf distinct lower'
    by (auto simp: trs_wf_def trs_get_def)
  obtain rq left where pq: "penalize_queue (rev ?q) s' = (rq, left)" by fastforce
  have total: "amount ?c k = queued ?q k" for k
    using wf by (simp add: trs_wf_def)
  have le: "next_amount ids_fs ?c k \<le> amount ?c k" for k
    using lower' map_of_SomeD [of ids_fs k]
    by (auto simp: next_amount_def amount_def trs_get_def word_le_nat_alt split: option.splits)
  have rq: "left = []" "queue_wf rq" "map fst rq = rev (map fst ?q)"
      "queued (drop i rq) k = min (queued (drop i (rev ?q)) k) (next_amount ids_fs ?c k)" for i k
    using penalize_queue_amount [OF _ pc(2) _ pq] wf pc(5) total le
    by (auto simp: trs_wf_def rev_map)
  let ?t = "\<lparr>trs_map = c', trs_queue = rev rq\<rparr>"
  have run: "trs_penalize_many t ids_fs = (Ok (\<Sum>(k, f)\<leftarrow>ids_fs. trs_get t k - f (trs_get t k)), ?t)"
    using pc(1) pq rq(1) by (simp add: trs_penalize_many_def)
  have len: "length rq = length ?q"
    using arg_cong [OF rq(3), of length] by simp
  have taken: "queued (take i (rev rq)) k = min (queued (take i ?q) k) (next_amount ids_fs ?c k)" for i k
  proof -
    have "take i (rev rq) = rev (drop (length ?q - i) rq)"
        and "rev (take i ?q) = drop (length ?q - i) (rev ?q)"
      by (simp_all add: len take_rev rev_take)
    then show ?thesis
      using rq(4) [of "length ?q - i" k] by (metis queued_rev)
  qed
  have "amount c' k = queued (rev rq) k" for k
    using taken [of "length ?q" k] le [of k] by (simp add: pc(4) len total)
  moreover have "map fst (rev rq) = map fst ?q"
    using rq(3) by (simp add: rev_map [symmetric])
  ultimately have "trs_wf ?t"
    using pc(3) rq(2) wf by (simp add: trs_wf_def)
  moreover have "trs_get ?t k = (case map_of ids_fs k of None \<Rightarrow> trs_get t k | Some f \<Rightarrow> f (trs_get t k))" for k
    using pc(4) [of k] by (simp add: next_amount_def amount_def trs_get_def word_unat_eq_iff split: option.splits)
  ultimately show ?thesis
    using run taken pc(4) \<open>map fst (rev rq) = map fst ?q\<close> by (simp add: unat_trs_get)
qed

text \<open>
  Claim C35. A penalization that is refused is not undone: when the second identity would gain
  reputation, the call reports the error, but what the first identity lost is already taken from
  the cache and still in the queue, so the set is inconsistent from then on and the expiry of all
  packets panics.
\<close>

theorem trs_refused_penalization_breaks_cache:
  assumes wf: "trs_wf t" and first: "f (trs_get t j) < trs_get t j"
    and second: "k \<noteq> j" "trs_get t k < g (trs_get t k)"
  shows "\<exists>t'. trs_penalize_many t [(j, f), (k, g)]
      = (Err (RepError (trs_get t k) (g (trs_get t k))), t')
    \<and> \<not> trs_wf t' \<and> (\<forall>now. (\<forall>(e, _) \<in> set (trs_queue t). e \<le> now) \<longrightarrow> trs_expire t' now = Panic)"
proof -
  let ?ts = "trs_get t j - f (trs_get t j)"
  have ts: "unat ?ts = unat (trs_get t j) - unat (f (trs_get t j))"
    using first by (simp add: unat_simps order.strict_implies_order)
  obtain c where c: "decrement_cache (trs_map t) j ?ts = Some c" "cache_wf c"
      "\<And>i. amount c i = (if i = j then amount (trs_map t) j - unat ?ts else amount (trs_map t) i)"
    using decrement_cache_amount [of "trs_map t" ?ts j] wf ts
    by (auto simp: trs_wf_def unat_trs_get)
  have get: "get_or_default c k = trs_get t k"
    using c(3) [of k] second(1) by (simp add: amount_def trs_get_def word_unat_eq_iff)
  have less: "amount c j < queued (trs_queue t) j"
    using c(3) [of j] ts first wf
    by (simp add: unat_trs_get [symmetric] word_less_nat_alt trs_wf_def)
  then have "\<not> trs_wf (t\<lparr>trs_map := c\<rparr>)"
    by (metis (no_types) less_irrefl trs.simps(1,2) trs.select_convs trs_wf_def trs.update_convs(1)
        trs.surjective)
  moreover have "trs_expire (t\<lparr>trs_map := c\<rparr>) now = Panic"
    if "\<forall>(e, _) \<in> set (trs_queue t). e \<le> now" for now
    using expire_loop_needs_cache [OF c(2) _ that, of 0 j] less wf
    by (auto simp: trs_expire_def trs_wf_def split: option.splits)
  moreover have "trs_penalize_many t [(j, f), (k, g)]
      = (Err (RepError (trs_get t k) (g (trs_get t k))), t\<lparr>trs_map := c\<rparr>)"
    using first second(2) c(1) get leD [OF order.strict_implies_order [OF first]]
    by (simp add: trs_penalize_many_def trs_get_def [symmetric] Let_def)
  ultimately show ?thesis by blast
qed

section \<open>A concrete set\<close>

text \<open>Identity 1 has packets expiring at 5 and at 9, identity 2 one expiring at 9.\<close>

definition sample_trs :: "nat trs" where
  "sample_trs = \<lparr>trs_map = [(1, 14), (2, 6)], trs_queue = [(5, [(1, 10)]), (9, [(1, 4), (2, 6)])]\<rparr>"

lemma sample_trs_from_queue:
  "trs_from_queue [(5, [(1, 10)]), (9, [(1, 3), (2, 6), (1, 1), (3, 0)])] = Ok sample_trs"
  by (simp add: trs_from_queue_def trs_new_def sample_trs_def trs_gain_def increment_cache_def
      get_or_default_def Let_def)

lemma sample_trs_wf: "trs_wf sample_trs"
  by (auto simp: trs_wf_def sample_trs_def queued_def queue_wf_def cache_wf_def hm_wf_def amount_Cons)

lemma sample_trs_get: "trs_get sample_trs k = (if k = 1 then 14 else if k = 2 then 6 else 0)"
  by (simp add: sample_trs_def trs_get_def get_or_default_def)

theorem trs_gain_adds_reputation_witness:
  "(\<exists>t'. trs_gain sample_trs 12 [(2, 5)] = (Ok (), t') \<and> unat (trs_get t' 2) = 11)
   \<and> trs_gain sample_trs 8 [(2, 5)] = (Err (NonSortedAlpha 8 9), sample_trs)"
proof -
  have room: "unat (trs_get sample_trs k) + gained [(2, 5)] k < 2 ^ 32" for k
    by (simp add: sample_trs_get)
  have last: "last (trs_queue sample_trs) = (9, [(1, 4), (2, 6)])" "trs_queue sample_trs \<noteq> []"
    by (simp_all add: sample_trs_def)
  show ?thesis
    using trs_gain_adds_reputation [OF sample_trs_wf room, of 12]
      trs_gain_adds_reputation [OF sample_trs_wf room, of 8]
    by (auto simp: last sample_trs_get)
qed


definition sample_penalties :: "(nat \<times> (reputation \<Rightarrow> reputation)) list" where
  "sample_penalties = [(1, \<lambda>r. r div 2), (2, \<lambda>_. 0)]"

theorem trs_penalize_takes_latest_packets_witness:
  "\<exists>t'. trs_penalize_many sample_trs sample_penalties = (Ok 13, t') \<and> trs_wf t'
     \<and> trs_get t' 1 = 7 \<and> trs_get t' 2 = 0 \<and> queued (take 1 (trs_queue t')) 1 = 7"
proof -
  have distinct: "distinct (map fst sample_penalties)"
    by (simp add: sample_penalties_def)
  have lower: "\<forall>(k, f) \<in> set sample_penalties. f (trs_get sample_trs k) \<le> trs_get sample_trs k"
    by (simp add: sample_penalties_def sample_trs_get)
  obtain t' where t': "trs_penalize_many sample_trs sample_penalties
        = (Ok (\<Sum>(k, f)\<leftarrow>sample_penalties. trs_get sample_trs k - f (trs_get sample_trs k)), t')"
      "trs_wf t'"
      "\<forall>k. trs_get t' k = (case map_of sample_penalties k of
          None \<Rightarrow> trs_get sample_trs k | Some f \<Rightarrow> f (trs_get sample_trs k))"
      "\<forall>k i. queued (take i (trs_queue t')) k
         = min (queued (take i (trs_queue sample_trs)) k) (unat (trs_get t' k))"
    using trs_penalize_takes_latest_packets [OF sample_trs_wf distinct lower] by blast
  have "trs_get t' 1 = 7" "trs_get t' 2 = 0"
    by (simp_all add: t'(3) sample_penalties_def sample_trs_get)
  then show ?thesis
    using t'(1,2) t'(4) [rule_format, of 1 1]
    by (simp add: sample_penalties_def sample_trs_get) (simp add: sample_trs_def amount_Cons)
qed

theorem trs_refused_penalization_breaks_cache_witness:
  "\<exists>t'. trs_penalize_many sample_trs [(1, \<lambda>r. r div 2), (2, \<lambda>r. r + 1)] = (Err (RepError 6 7), t')
     \<and> \<not> trs_wf t' \<and> trs_expire t' 9 = Panic"
  using trs_refused_penalization_breaks_cache
      [OF sample_trs_wf, of "\<lambda>r. r div 2" 1 2 "\<lambda>r. r + 1"]
  by (auto simp: sample_trs_get) (auto simp: sample_trs_def)

end
