(* ===== verification/Ars.thy ===== *)
theory Ars
  imports Trs
begin

text \<open>
  The active reputation set (reputation/src/ars.rs): the identities that acted in the last
  \<open>capacity\<close> epochs, as a queue of sets with a cache counting for each identity the sets that
  hold it. A hash set is a list without duplicates; the counters are 16-bit words.
\<close>

section \<open>Definitions\<close>

record 'k ars =
  ars_map :: "('k \<times> u16) list"
  ars_queue :: "'k list list"
  ars_capacity :: nat
  ars_last_update :: u32

datatype reputation_error = InvalidUpdateTime u32 u32

definition ars_new :: "nat \<Rightarrow> 'k ars" where
  "ars_new capacity =
     \<lparr>ars_map = [], ars_queue = [], ars_capacity = capacity, ars_last_update = 0\<rparr>"

definition ars_clear :: "'k ars \<Rightarrow> 'k ars" where
  "ars_clear a = a\<lparr>ars_map := [], ars_queue := []\<rparr>"

definition ars_contains :: "'k ars \<Rightarrow> 'k \<Rightarrow> bool" where
  "ars_contains a k \<longleftrightarrow> map_of (ars_map a) k \<noteq> None"

definition active_identities :: "'k ars \<Rightarrow> 'k list" where
  "active_identities a = map fst (ars_map a)"

definition active_identities_number :: "'k ars \<Rightarrow> nat" where
  "active_identities_number a = length (ars_map a)"

definition buffer_size :: "'k ars \<Rightarrow> nat" where
  "buffer_size a = length (ars_queue a)"

fun decrement_all :: "'k list \<Rightarrow> ('k \<times> u16) list \<Rightarrow> ('k \<times> u16) list option" where
  "decrement_all [] m = Some m"
| "decrement_all (k # ks) m =
     (case decrement_cache m k 1 of None \<Rightarrow> None | Some m' \<Rightarrow> decrement_all ks m')"

fun increment_all :: "'k list \<Rightarrow> ('k \<times> u16) list \<Rightarrow> ('k \<times> u16) list" where
  "increment_all [] m = m"
| "increment_all (k # ks) m = increment_all ks (increment_cache m k 1)"

text \<open>\<open>None\<close> is a panic, of the pop from an empty queue or of the cache update.\<close>

definition pop_oldest :: "'k ars \<Rightarrow> 'k ars option" where
  "pop_oldest a =
     (case ars_queue a of
        [] \<Rightarrow> None
      | front # q \<Rightarrow>
          map_option (\<lambda>m. a\<lparr>ars_map := m, ars_queue := q\<rparr>) (decrement_all front (ars_map a)))"

definition push_activity :: "'k ars \<Rightarrow> 'k list \<Rightarrow> 'k ars option" where
  "push_activity a identities =
     (let ids = remdups identities
      in map_option
           (\<lambda>a'. a'\<lparr>ars_map := increment_all ids (ars_map a'), ars_queue := ars_queue a' @ [ids]\<rparr>)
           (if length (ars_queue a) \<ge> ars_capacity a then pop_oldest a else Some a))"

fun push_empty :: "nat \<Rightarrow> 'k ars \<Rightarrow> 'k ars option" where
  "push_empty 0 a = Some a"
| "push_empty (Suc n) a =
     (case push_activity a [] of None \<Rightarrow> None | Some a' \<Rightarrow> push_empty n a')"

definition ars_update ::
  "'k ars \<Rightarrow> 'k list \<Rightarrow> u32 \<Rightarrow> (reputation_error, unit) outcome \<times> 'k ars"
where
  "ars_update a identities block_epoch =
     (if block_epoch > ars_last_update a then
        let difference = unat (block_epoch - ars_last_update a);
            filled =
              (if difference \<ge> ars_capacity a then Some (ars_clear a)
               else if difference > 1 then push_empty (difference - 1) a
               else Some a)
        in case filled of
             None \<Rightarrow> (Panic, a)
           | Some a1 \<Rightarrow>
               (case push_activity a1 identities of
                  None \<Rightarrow> (Panic, a)
                | Some a2 \<Rightarrow> (Ok (), a2\<lparr>ars_last_update := block_epoch\<rparr>))
      else if block_epoch = 0 then (Ok (), a)
      else (Err (InvalidUpdateTime block_epoch (ars_last_update a)), a))"

section \<open>The consistency of cache and queue\<close>

definition holding :: "'k list list \<Rightarrow> 'k \<Rightarrow> nat" where
  "holding q k = length (filter (\<lambda>ids. k \<in> set ids) q)"

definition ars_wf :: "'k ars \<Rightarrow> bool" where
  "ars_wf a \<longleftrightarrow> cache_wf (ars_map a) \<and> (\<forall>ids \<in> set (ars_queue a). distinct ids)
     \<and> (\<forall>k. amount (ars_map a) k = holding (ars_queue a) k)
     \<and> length (ars_queue a) \<le> ars_capacity a \<and> 0 < ars_capacity a \<and> ars_capacity a < 2 ^ 16"

lemma holding_simps [simp]:
  "holding [] k = 0"
  "holding (ids # q) k = (if k \<in> set ids then 1 else 0) + holding q k"
  "holding (q @ q') k = holding q k + holding q' k"
  by (simp_all add: holding_def)

lemma holding_le: "holding q k \<le> length q"
  by (simp add: holding_def)

lemma ars_contains_iff:
  "ars_wf a \<Longrightarrow> ars_contains a k \<longleftrightarrow> (\<exists>ids \<in> set (ars_queue a). k \<in> set ids)"
  using amount_0_iff [of "ars_map a" k]
  by (auto simp: ars_wf_def ars_contains_def holding_def filter_empty_conv)

lemma decrement_all_amount:
  assumes "cache_wf m" and "distinct ids" and "\<forall>k \<in> set ids. 0 < amount m k"
  shows "\<exists>m'. decrement_all ids m = Some m' \<and> cache_wf m'
    \<and> (\<forall>k. amount m' k = amount m k - (if k \<in> set ids then 1 else 0))"
  using assms
proof (induction ids m rule: decrement_all.induct)
  case (2 j ids m)
  have "unat (1 :: u16) \<le> amount m j" using "2.prems"(3) by simp
  then obtain m1 where m1: "decrement_cache m j 1 = Some m1" "cache_wf m1"
      "\<And>k. amount m1 k = (if k = j then amount m j - 1 else amount m k)"
    using decrement_cache_amount [OF "2.prems"(1), of 1 j] by auto
  have "\<forall>k \<in> set ids. 0 < amount m1 k" using "2.prems"(2,3) by (auto simp: m1(3))
  with "2.IH" [OF m1(1,2)] "2.prems"(2) obtain m' where
    "decrement_all ids m1 = Some m'" "cache_wf m'"
    "\<And>k. amount m' k = amount m1 k - (if k \<in> set ids then 1 else 0)" by auto
  then show ?case
    using "2.prems"(2) by (auto simp: m1)
qed simp

lemma increment_all_amount:
  assumes "cache_wf m" and "distinct ids" and "\<And>k. k \<in> set ids \<Longrightarrow> amount m k + 1 < 2 ^ 16"
  shows "cache_wf (increment_all ids m)
    \<and> (\<forall>k. amount (increment_all ids m) k = amount m k + (if k \<in> set ids then 1 else 0))"
  using assms
proof (induction ids m rule: increment_all.induct)
  case (2 j ids m)
  have room: "amount m j + unat (1 :: u16) < 2 ^ LENGTH(16)" using "2.prems"(3) [of j] by simp
  note m1 = increment_cache_amount [OF room] increment_cache_wf [OF "2.prems"(1) room]
  have "amount (increment_cache m j 1) k + 1 < 2 ^ 16" if "k \<in> set ids" for k
    using that "2.prems"(2) "2.prems"(3) [of k] by (auto simp: m1(1))
  from "2.IH" [OF m1(2) _ this] "2.prems"(2) show ?case
    by (auto simp: m1(1))
qed simp

lemma push_activity_wf:
  assumes wf: "ars_wf a"
  shows "\<exists>a'. push_activity a identities = Some a' \<and> ars_wf a'
    \<and> ars_queue a' = (if length (ars_queue a) = ars_capacity a then tl (ars_queue a) else ars_queue a)
                       @ [remdups identities]
    \<and> ars_capacity a' = ars_capacity a \<and> ars_last_update a' = ars_last_update a"
proof -
  let ?q = "if length (ars_queue a) = ars_capacity a then tl (ars_queue a) else ars_queue a"
  obtain a1 where a1: "(if length (ars_queue a) \<ge> ars_capacity a then pop_oldest a else Some a) = Some a1"
      "cache_wf (ars_map a1)" "\<And>k. amount (ars_map a1) k = holding ?q k" "ars_queue a1 = ?q"
      "ars_capacity a1 = ars_capacity a" "ars_last_update a1 = ars_last_update a"
  proof (cases "length (ars_queue a) = ars_capacity a")
    case True
    then obtain front q where q: "ars_queue a = front # q"
      using wf by (cases "ars_queue a") (auto simp: ars_wf_def)
    have "\<forall>k \<in> set front. 0 < amount (ars_map a) k" "distinct front" "cache_wf (ars_map a)"
      using wf by (auto simp: ars_wf_def q)
    then obtain m where "decrement_all front (ars_map a) = Some m" "cache_wf m"
        "\<And>k. amount m k = amount (ars_map a) k - (if k \<in> set front then 1 else 0)"
      using decrement_all_amount by blast
    then show thesis
      using that [of "a\<lparr>ars_map := m, ars_queue := q\<rparr>"] True wf by (simp add: q ars_wf_def pop_oldest_def)
  next
    case False
    then show thesis
      using that [of a] wf by (simp add: ars_wf_def)
  qed
  have len: "length ?q < ars_capacity a"
    using wf by (auto simp: ars_wf_def)
  have room: "amount (ars_map a1) k + 1 < 2 ^ 16" for k
    using holding_le [of ?q k] len wf unfolding a1(3) by (simp add: ars_wf_def)
  have "\<forall>ids \<in> set ?q. distinct ids"
    using wf by (auto simp: ars_wf_def dest: list.set_sel(2) [rotated])
  then have "ars_wf (a1\<lparr>ars_map := increment_all (remdups identities) (ars_map a1),
      ars_queue := ars_queue a1 @ [remdups identities]\<rparr>)"
    using increment_all_amount [OF a1(2), of "remdups identities"] room len wf a1(3-5)
    by (auto simp: ars_wf_def simp del: One_nat_def)
  then show ?thesis
    using a1 by (simp only: push_activity_def Let_def option.map) simp
qed

section \<open>The window of activity\<close>

text \<open>The identities in the set that is \<open>j\<close> places from the back of the queue.\<close>

definition slot :: "'k list list \<Rightarrow> nat \<Rightarrow> 'k set" where
  "slot q j = (if j < length q then set (rev q ! j) else {})"

lemma in_slots_iff: "(\<exists>ids \<in> set q. k \<in> set ids) \<longleftrightarrow> (\<exists>j < length q. k \<in> slot q j)"
proof -
  have "(\<exists>ids \<in> set (rev q). k \<in> set ids) \<longleftrightarrow> (\<exists>j < length (rev q). k \<in> set (rev q ! j))"
    by (metis in_set_conv_nth)
  then show ?thesis by (auto simp: slot_def)
qed

lemma push_activity_slot:
  assumes "ars_wf a" and "push_activity a identities = Some a'" and "j < ars_capacity a"
  shows "slot (ars_queue a') j = (if j = 0 then set identities else slot (ars_queue a) (j - 1))"
proof -
  have q': "ars_queue a'
      = (if length (ars_queue a) = ars_capacity a then tl (ars_queue a) else ars_queue a)
          @ [remdups identities]"
    using push_activity_wf [OF assms(1), of identities] assms(2) by auto
  have "length (ars_queue a) \<le> ars_capacity a"
    using assms(1) by (simp add: ars_wf_def)
  moreover have "rev (tl (ars_queue a)) ! i = rev (ars_queue a) ! i" if "Suc i < length (ars_queue a)" for i
    using that by (cases "ars_queue a") (auto simp: nth_append)
  ultimately show ?thesis
    using assms(3) by (cases j) (auto simp: slot_def q')
qed

lemma push_empty_wf:
  assumes "ars_wf a"
  shows "\<exists>a'. push_empty n a = Some a' \<and> ars_wf a' \<and> ars_capacity a' = ars_capacity a
    \<and> (\<forall>j < ars_capacity a. slot (ars_queue a') j = (if j < n then {} else slot (ars_queue a) (j - n)))"
  using assms
proof (induction n arbitrary: a)
  case (Suc n)
  obtain a1 where a1: "push_activity a [] = Some a1" "ars_wf a1" "ars_capacity a1 = ars_capacity a"
    using push_activity_wf [OF Suc.prems, of "[]"] by auto
  obtain a' where a': "push_empty n a1 = Some a'" "ars_wf a'" "ars_capacity a' = ars_capacity a"
      "\<forall>j < ars_capacity a. slot (ars_queue a') j = (if j < n then {} else slot (ars_queue a1) (j - n))"
    using Suc.IH [OF a1(2)] a1(3) by auto
  have "slot (ars_queue a') j = (if j < Suc n then {} else slot (ars_queue a) (j - Suc n))"
    if "j < ars_capacity a" for j
    using a'(4) that push_activity_slot [OF Suc.prems a1(1), of "j - n"] by (auto simp: less_Suc_eq)
  then show ?case using a1(1) a' by auto
qed simp

lemma ars_clear_wf: "ars_wf a \<Longrightarrow> ars_wf (ars_clear a)"
  by (simp add: ars_wf_def ars_clear_def)

lemma ars_update_slots:
  assumes wf: "ars_wf a" and later: "ars_last_update a < e"
  defines "d \<equiv> unat e - unat (ars_last_update a)"
  shows "\<exists>a'. ars_update a ids e = (Ok (), a') \<and> ars_wf a' \<and> ars_capacity a' = ars_capacity a
    \<and> ars_last_update a' = e
    \<and> (\<forall>j < ars_capacity a. slot (ars_queue a') j
         = (if j = 0 then set ids else if j < d then {} else slot (ars_queue a) (j - d)))"
proof -
  have d: "unat (e - ars_last_update a) = d" "0 < d"
    using later by (simp_all add: d_def unat_simps word_less_nat_alt order.strict_implies_order)
  let ?filled = "if d \<ge> ars_capacity a then Some (ars_clear a)
               else if d > 1 then push_empty (d - 1) a else Some a"
  obtain a1 where a1: "?filled = Some a1" "ars_wf a1" "ars_capacity a1 = ars_capacity a"
      "\<forall>j < ars_capacity a. slot (ars_queue a1) j
         = (if j < d - 1 then {} else if ars_capacity a \<le> d then {} else slot (ars_queue a) (j - (d - 1)))"
  proof (cases "ars_capacity a \<le> d")
    case True
    then show thesis
      using that [of "ars_clear a"] ars_clear_wf [OF wf] by (simp add: ars_clear_def slot_def)
  next
    case False
    then show thesis
      using that push_empty_wf [OF wf, of "d - 1"] d(2) by (cases "d > 1") (auto simp: wf not_less)
  qed
  obtain a2 where a2: "push_activity a1 ids = Some a2" "ars_wf a2" "ars_capacity a2 = ars_capacity a"
    using push_activity_wf [OF a1(2), of ids] a1(3) by auto
  have "slot (ars_queue a2) j
      = (if j = 0 then set ids else if j < d then {} else slot (ars_queue a) (j - d))"
    if "j < ars_capacity a" for j
    using push_activity_slot [OF a1(2) a2(1), of j] a1(3) a1(4) [rule_format, of "j - 1"] that d(2)
    by (auto simp: diff_diff_eq)
  moreover have "ars_update a ids e = (Ok (), a2\<lparr>ars_last_update := e\<rparr>)"
    using later a1(1) a2(1) by (simp add: ars_update_def d(1) Let_def)
  ultimately show ?thesis
    using a2(2,3) by (simp add: ars_wf_def)
qed

text \<open>A history of updates, and who acted in an epoch.\<close>

type_synonym 'k update = "'k list \<times> u32"

definition acted :: "'k update list \<Rightarrow> int \<Rightarrow> 'k set" where
  "acted updates t = {k. \<exists>(ids, e) \<in> set updates. k \<in> set ids \<and> int (unat e) = t}"

definition window :: "'k ars \<Rightarrow> 'k update list \<Rightarrow> bool" where
  "window a updates \<longleftrightarrow> ars_wf a \<and> (\<forall>(_, e) \<in> set updates. e \<le> ars_last_update a)
     \<and> (\<forall>j < ars_capacity a.
          slot (ars_queue a) j = acted updates (int (unat (ars_last_update a)) - int j))"

definition ars_step :: "'k update \<Rightarrow> 'k ars \<Rightarrow> 'k ars option" where
  "ars_step u a =
     (case ars_update a (fst u) (snd u) of (Ok _, a') \<Rightarrow> Some a' | (Err _, _) \<Rightarrow> None | (Panic, _) \<Rightarrow> None)"

lemma acted_future:
  assumes "\<forall>(_, e) \<in> set updates. e \<le> last_e" and "int (unat last_e) < t"
  shows "acted updates t = {}"
proof -
  have "int (unat e) \<noteq> t" if "(ids, e) \<in> set updates" for ids e
  proof -
    have "unat e \<le> unat last_e" using assms(1) that by (auto simp: word_le_nat_alt)
    then show ?thesis using assms(2) by linarith
  qed
  then show ?thesis by (auto simp: acted_def)
qed

lemma window_step:
  assumes w: "window a updates" and later: "ars_last_update a < e"
  shows "\<exists>a'. ars_step (ids, e) a = Some a' \<and> window a' (updates @ [(ids, e)])
    \<and> ars_capacity a' = ars_capacity a \<and> ars_last_update a' = e"
proof -
  let ?l = "unat (ars_last_update a)"
  have wf: "ars_wf a" and past: "\<forall>(_, e) \<in> set updates. e \<le> ars_last_update a"
      and slots: "\<And>j. j < ars_capacity a \<Longrightarrow> slot (ars_queue a) j = acted updates (int ?l - int j)"
    using w by (auto simp: window_def)
  obtain a' where a': "ars_update a ids e = (Ok (), a')" "ars_wf a'" "ars_capacity a' = ars_capacity a"
      "ars_last_update a' = e"
      "\<And>j. j < ars_capacity a \<Longrightarrow> slot (ars_queue a') j
         = (if j = 0 then set ids else if j < unat e - ?l then {}
            else slot (ars_queue a) (j - (unat e - ?l)))"
    using ars_update_slots [OF wf later, of ids] by blast
  have lt: "?l < unat e" using later by (simp add: word_less_nat_alt)
  have new: "acted (updates @ [(ids, e)]) t
      = acted updates t \<union> (if t = int (unat e) then set ids else {})" for t
    by (auto simp: acted_def)
  have "slot (ars_queue a') j = acted (updates @ [(ids, e)]) (int (unat e) - int j)"
    if j: "j < ars_capacity a" for j
  proof (cases "j < unat e - ?l")
    case True
    then have "int ?l < int (unat e) - int j" by linarith
    then have "acted updates (int (unat e) - int j) = {}"
      by (rule acted_future [OF past])
    then show ?thesis
      using a'(5) [OF j] True unfolding new by (simp split: if_splits)
  next
    case False
    then have eq: "int ?l - int (j - (unat e - ?l)) = int (unat e) - int j" and "j \<noteq> 0"
      using lt by linarith+
    have "slot (ars_queue a) (j - (unat e - ?l)) = acted updates (int (unat e) - int j)"
      using slots [of "j - (unat e - ?l)"] j unfolding eq by (simp add: less_imp_diff_less)
    then show ?thesis
      using a'(5) [OF j] \<open>j \<noteq> 0\<close> False unfolding new by (simp split: if_splits)
  qed
  moreover have "\<forall>(_, e') \<in> set (updates @ [(ids, e)]). e' \<le> e"
    using past later by fastforce
  ultimately show ?thesis
    using a' by (auto simp: ars_step_def window_def)
qed

lemma window_run:
  assumes "window a updates" and "sorted_wrt (<) (ars_last_update a # map snd us)"
  shows "\<exists>a'. run_ops ars_step us a = Some a' \<and> window a' (updates @ us)
    \<and> ars_capacity a' = ars_capacity a \<and> ars_last_update a' = last (ars_last_update a # map snd us)"
  using assms
proof (induction us arbitrary: a updates)
  case (Cons u us)
  obtain ids e where u: "u = (ids, e)" by fastforce
  obtain a1 where a1: "ars_step u a = Some a1" "window a1 (updates @ [u])"
      "ars_capacity a1 = ars_capacity a" "ars_last_update a1 = e"
    using window_step [OF Cons.prems(1), of e ids] Cons.prems(2) by (auto simp: u)
  then show ?case
    using Cons.IH [OF a1(2)] Cons.prems(2) by (auto simp: u)
qed simp

section \<open>Properties\<close>

text \<open>
  Claim C13. Updates at increasing epochs after the genesis epoch always succeed, and afterwards
  an identity is active exactly if it acted in one of the last \<open>capacity\<close> epochs, however many
  epochs without a block lie between the updates. The cache that answers the query never gets out
  of step with the queue.
\<close>

theorem ars_active_iff_recent:
  assumes "0 < capacity" and "capacity < 2 ^ 16" and "sorted_wrt (<) (0 # map snd updates)"
  shows "\<exists>a. run_ops ars_step updates (ars_new capacity) = Some a \<and> ars_wf a
    \<and> ars_last_update a = last (0 # map snd updates)
    \<and> (\<forall>k. ars_contains a k \<longleftrightarrow>
         (\<exists>(ids, e) \<in> set updates. k \<in> set ids \<and> unat (ars_last_update a) < unat e + capacity))"
proof -
  have "window (ars_new capacity) []"
    using assms(1,2) by (simp add: window_def ars_new_def ars_wf_def slot_def acted_def)
  then obtain a where a: "run_ops ars_step updates (ars_new capacity) = Some a" "window a updates"
      "ars_capacity a = capacity" "ars_last_update a = last (0 # map snd updates)"
    using window_run [of "ars_new capacity" "[]" updates] assms(3) by (auto simp: ars_new_def)
  let ?l = "unat (ars_last_update a)"
  have wf: "ars_wf a" and past: "\<And>ids e. (ids, e) \<in> set updates \<Longrightarrow> unat e \<le> ?l"
      and slots: "\<And>j. j < capacity \<Longrightarrow> slot (ars_queue a) j = acted updates (int ?l - int j)"
    using a(2,3) by (auto simp: window_def word_le_nat_alt)
  have "ars_contains a k \<longleftrightarrow> (\<exists>j < capacity. k \<in> slot (ars_queue a) j)" for k
    using wf a(3) by (force simp: ars_contains_iff in_slots_iff ars_wf_def slot_def)
  also have "(\<exists>j < capacity. k \<in> slot (ars_queue a) j) \<longleftrightarrow>
      (\<exists>(ids, e) \<in> set updates. k \<in> set ids \<and> ?l < unat e + capacity)" (is "?A \<longleftrightarrow> ?B") for k
  proof
    assume ?A
    then obtain j ids e where j: "j < capacity" "(ids, e) \<in> set updates" "k \<in> set ids"
        "int (unat e) = int ?l - int j"
      by (auto simp: slots acted_def)
    then have "?l < unat e + capacity" by linarith
    then show ?B using j by blast
  next
    assume ?B
    then obtain ids e where e: "(ids, e) \<in> set updates" "k \<in> set ids" "?l < unat e + capacity" by auto
    have "?l - unat e < capacity" "k \<in> acted updates (int ?l - int (?l - unat e))"
      using e past [OF e(1)] by (auto simp: acted_def intro!: bexI [of _ "(ids, e)"])
    then show ?A using slots by blast
  qed
  finally show ?thesis
    using a(1,4) wf by blast
qed

theorem ars_active_iff_recent_witness:
  "\<exists>a. run_ops ars_step [([1, 2, 1], 1), ([2], 3), ([3], 4)] (ars_new 3) = Some a
    \<and> \<not> ars_contains a (1::nat) \<and> ars_contains a 2 \<and> ars_contains a 3"
  using ars_active_iff_recent [of 3 "[([1, 2, 1], 1), ([2], 3), ([3::nat], 4)]"] by auto

end
