(* ===== verification/Reputation_Engine.thy ===== *)
theory Reputation_Engine
  imports Ars "HOL-Library.List_Lexorder"
begin

text \<open>
  The reputation engine (chain/mod.rs): the total and the active reputation set with the alpha
  clock, the trapezoidal redistribution of reputation among the active identities, the threshold
  factor of data request eligibility, and the cache of these results.

  Two functions are parameters. \<open>sha256\<close> is the hash function of the crypto library. \<open>triangle\<close>
  is \<^verbatim>\<open>calculate_trapezoid_triangle\<close>, which computes in 64-bit floating point; what is used of it
  are the hypotheses of \<open>triangle_ok\<close>, which its loop gives.
\<close>

section \<open>Definitions\<close>

definition to_be_bytes :: "u32 \<Rightarrow> u8 list" where
  "to_be_bytes w = [ucast (drop_bit 24 w), ucast (drop_bit 16 w), ucast (drop_bit 8 w), ucast w]"

record threshold_cache =
  valid :: bool
  total_active_rep :: u64
  sorted_active_rep :: "u32 list"
  sorted_identities :: "pkh list"
  threshold :: "(u16 \<times> u32) list"
  trapezoid_rep :: "(pkh \<times> u32) list"

record reputation_engine =
  current_alpha :: alpha
  extra_reputation :: reputation
  engine_trs :: "pkh trs"
  engine_ars :: "pkh ars"
  threshold_cache :: threshold_cache

type_synonym active_rep = "u64 \<times> u32 list \<times> (pkh \<times> u32) list \<times> pkh list"

definition default_cache :: threshold_cache where
  "default_cache = \<lparr>valid = False, total_active_rep = 0, sorted_active_rep = [],
     sorted_identities = [], threshold = [], trapezoid_rep = []\<rparr>"

definition engine_new :: "nat \<Rightarrow> reputation_engine" where
  "engine_new activity_period =
     \<lparr>current_alpha = 0, extra_reputation = 0, engine_trs = trs_new,
      engine_ars = ars_new activity_period, threshold_cache = default_cache\<rparr>"

subsection \<open>Ordering the active identities\<close>

definition pkh_alpha_hash :: "(u8 list \<Rightarrow> 'h) \<Rightarrow> pkh \<Rightarrow> alpha \<Rightarrow> 'h" where
  "pkh_alpha_hash sha256 k a = sha256 (k @ to_be_bytes a)"

text \<open>
  \<open>True\<close> when \<^verbatim>\<open>compare_reputed_pkh\<close> does not put \<open>a\<close> after \<open>b\<close>: the comparison of the
  reputations, of the hashes or of the identities, reversed.
\<close>

definition reputed_le ::
  "(u8 list \<Rightarrow> 'h::linorder) \<Rightarrow> alpha \<Rightarrow> pkh \<times> reputation \<Rightarrow> pkh \<times> reputation \<Rightarrow> bool"
where
  "reputed_le sha256 al a b =
     (let (pkh_a, rep_a) = a; (pkh_b, rep_b) = b
      in rep_b < rep_a
         \<or> rep_a = rep_b
           \<and> (if rep_a > 0 then pkh_alpha_hash sha256 pkh_b al \<le> pkh_alpha_hash sha256 pkh_a al
              else pkh_b \<le> pkh_a))"

definition calculate_rep_ordered_ars_list ::
  "(u8 list \<Rightarrow> 'h::linorder) \<Rightarrow> reputation_engine \<Rightarrow> pkh list"
where
  "calculate_rep_ordered_ars_list sha256 e =
     map fst (sort_by (reputed_le sha256 (current_alpha e))
       (map (\<lambda>k. (k, trs_get (engine_trs e) k)) (active_identities (engine_ars e))))"

subsection \<open>The trapezoid\<close>

fun filter_reputed_identities :: "pkh list \<Rightarrow> pkh trs \<Rightarrow> pkh list \<times> u32" where
  "filter_reputed_identities [] t = ([], 0)"
| "filter_reputed_identities (k # ks) t =
     (let (ids, total_rep) = filter_reputed_identities ks t;
          rep = trs_get t k
      in if rep \<noteq> 0 then (k # ids, rep + total_rep) else (ids, total_rep))"

text \<open>The loop that adds the offset, and one more for the first identities, to the triangle.\<close>

fun add_offset ::
  "nat \<Rightarrow> nat \<Rightarrow> u32 \<Rightarrow> (pkh \<times> u32) list \<Rightarrow> (pkh \<times> u32) list \<Rightarrow> (pkh \<times> u32) list"
where
  "add_offset i extra offset [] hm = hm"
| "add_offset i extra offset ((k, rep) # reps) hm =
     (let trapezoid = rep + offset;
          trapezoid' = (if i < extra then trapezoid + 1 else trapezoid)
      in add_offset (Suc i) extra offset reps (AList.update k trapezoid' hm))"

definition trapezoidal_eligibility ::
  "(u32 \<Rightarrow> nat \<Rightarrow> u32 \<Rightarrow> u32 list \<times> u32) \<Rightarrow> pkh list \<Rightarrow> pkh trs \<Rightarrow> (pkh \<times> u32) list \<times> u32"
where
  "trapezoidal_eligibility triangle ids t =
     (let (active_reputed_ids, total_active) = filter_reputed_identities ids t;
          n = length active_reputed_ids
      in if n = 0 then ([], 0)
         else
           let minimum_rep = trs_get t (last active_reputed_ids);
               (triangle_rep, total_triangle) = triangle total_active n minimum_rep;
               remaining = total_active - total_triangle;
               offset = remaining div of_nat n;
               extra = unat remaining mod n
           in (add_offset 0 extra offset (zip active_reputed_ids triangle_rep) [], total_active))"

definition calculate_active_rep ::
  "(u8 list \<Rightarrow> 'h::linorder) \<Rightarrow> (u32 \<Rightarrow> nat \<Rightarrow> u32 \<Rightarrow> u32 list \<times> u32) \<Rightarrow> reputation_engine \<Rightarrow> active_rep"
where
  "calculate_active_rep sha256 triangle e =
     (let ids = calculate_rep_ordered_ars_list sha256 e;
          (trapezoid_hm, total_trapezoid) = trapezoidal_eligibility triangle ids (engine_trs e);
          active_total = ucast total_trapezoid + of_nat (length ids);
          reps = map (\<lambda>k. get_or_default trapezoid_hm k + 1) ids
      in (active_total, reps, trapezoid_hm, ids))"

subsection \<open>The threshold factor\<close>

fun threshold_loop :: "u64 \<Rightarrow> u64 \<Rightarrow> u64 \<Rightarrow> u32 list \<Rightarrow> (unit, u32) outcome" where
  "threshold_loop n total_rep remaining_rep [] = Ok (- 1)"
| "threshold_loop n total_rep remaining_rep (top_rep # reps) =
     (if ucast top_rep * n > remaining_rep then
        threshold_loop (n - 1) total_rep (remaining_rep - ucast top_rep) reps
      else if remaining_rep = 0 then Panic
      else
        let factor =
          (if total_rep mod remaining_rep > 0 then total_rep * n div remaining_rep + 1
           else total_rep * n div remaining_rep)
        in Ok (if unat factor < 2 ^ 32 then ucast factor else - 1))"

definition internal_threshold_factor :: "u64 \<Rightarrow> u64 \<Rightarrow> u32 list \<Rightarrow> (unit, u32) outcome" where
  "internal_threshold_factor n total_rep rep_sorted =
     (if n = 0 then Ok 0 else threshold_loop n total_rep total_rep rep_sorted)"

subsection \<open>The cache\<close>

definition cache_initialize :: "active_rep \<Rightarrow> threshold_cache" where
  "cache_initialize g =
     (case g of (active_total, reps, trapezoid, ids) \<Rightarrow>
        \<lparr>valid = True, total_active_rep = active_total, sorted_active_rep = reps,
         sorted_identities = ids, threshold = [], trapezoid_rep = trapezoid\<rparr>)"

text \<open>The four queries of the cache begin with the same block, which fills an invalid cache.\<close>

definition cache_refresh :: "threshold_cache \<Rightarrow> active_rep \<Rightarrow> threshold_cache" where
  "cache_refresh c g = (if \<not> valid c then cache_initialize g else c)"

definition cache_get_trapezoidal_eligibility ::
  "threshold_cache \<Rightarrow> pkh \<Rightarrow> active_rep \<Rightarrow> u32 \<times> threshold_cache"
where
  "cache_get_trapezoidal_eligibility c k g =
     (let c' = cache_refresh c g in (get_or_default (trapezoid_rep c') k, c'))"

definition cache_invalidate :: "threshold_cache \<Rightarrow> threshold_cache" where
  "cache_invalidate c = c\<lparr>valid := False\<rparr>"

definition cache_clear_threshold :: "threshold_cache \<Rightarrow> threshold_cache" where
  "cache_clear_threshold c = c\<lparr>threshold := []\<rparr>"

definition cache_threshold_factor ::
  "threshold_cache \<Rightarrow> u16 \<Rightarrow> active_rep \<Rightarrow> (unit, u32) outcome \<times> threshold_cache"
where
  "cache_threshold_factor c n g =
     (let c' = cache_refresh c g
      in case map_of (threshold c') n of
           Some f \<Rightarrow> (Ok f, c')
         | None \<Rightarrow>
             (case internal_threshold_factor (ucast n) (total_active_rep c') (sorted_active_rep c') of
                Ok f \<Rightarrow> (Ok f, c'\<lparr>threshold := AList.update n f (threshold c')\<rparr>)
              | Err err \<Rightarrow> (Err err, c')
              | Panic \<Rightarrow> (Panic, c')))"

definition cache_total_active_reputation ::
  "threshold_cache \<Rightarrow> active_rep \<Rightarrow> u64 \<times> threshold_cache"
where
  "cache_total_active_reputation c g = (let c' = cache_refresh c g in (total_active_rep c', c'))"

definition cache_get_rep_ordered_ars_list ::
  "threshold_cache \<Rightarrow> active_rep \<Rightarrow> pkh list \<times> threshold_cache"
where
  "cache_get_rep_ordered_ars_list c g = (let c' = cache_refresh c g in (sorted_identities c', c'))"

subsection \<open>The engine\<close>

definition invalidate_reputation_threshold_cache :: "reputation_engine \<Rightarrow> reputation_engine" where
  "invalidate_reputation_threshold_cache e =
     e\<lparr>threshold_cache := cache_invalidate (threshold_cache e)\<rparr>"

text \<open>\<open>trs_mut\<close> and \<open>ars_mut\<close> hand a mutable reference out; what is done through it is \<open>f\<close>.\<close>

definition trs_mut :: "reputation_engine \<Rightarrow> (pkh trs \<Rightarrow> pkh trs) \<Rightarrow> reputation_engine" where
  "trs_mut e f = (let e' = invalidate_reputation_threshold_cache e
                  in e'\<lparr>engine_trs := f (engine_trs e')\<rparr>)"

definition ars_mut :: "reputation_engine \<Rightarrow> (pkh ars \<Rightarrow> pkh ars) \<Rightarrow> reputation_engine" where
  "ars_mut e f = (let e' = invalidate_reputation_threshold_cache e
                  in e'\<lparr>engine_ars := f (engine_ars e')\<rparr>)"

definition set_current_alpha :: "reputation_engine \<Rightarrow> alpha \<Rightarrow> reputation_engine" where
  "set_current_alpha e new_alpha =
     (if current_alpha e \<noteq> new_alpha
      then (invalidate_reputation_threshold_cache e)\<lparr>current_alpha := new_alpha\<rparr>
      else e)"

definition is_ars_member :: "reputation_engine \<Rightarrow> pkh \<Rightarrow> bool" where
  "is_ars_member e k = ars_contains (engine_ars e) k"

definition clear_threshold_cache :: "reputation_engine \<Rightarrow> reputation_engine" where
  "clear_threshold_cache e = e\<lparr>threshold_cache := cache_clear_threshold (threshold_cache e)\<rparr>"

definition threshold_factor ::
  "(u8 list \<Rightarrow> 'h::linorder) \<Rightarrow> (u32 \<Rightarrow> nat \<Rightarrow> u32 \<Rightarrow> u32 list \<times> u32) \<Rightarrow> reputation_engine \<Rightarrow> u16
     \<Rightarrow> (unit, u32) outcome \<times> reputation_engine"
where
  "threshold_factor sha256 triangle e witnesses_number =
     (let (r, c) = cache_threshold_factor (threshold_cache e) witnesses_number
                     (calculate_active_rep sha256 triangle e)
      in (r, e\<lparr>threshold_cache := c\<rparr>))"

definition total_active_reputation ::
  "(u8 list \<Rightarrow> 'h::linorder) \<Rightarrow> (u32 \<Rightarrow> nat \<Rightarrow> u32 \<Rightarrow> u32 list \<times> u32) \<Rightarrow> reputation_engine
     \<Rightarrow> u64 \<times> reputation_engine"
where
  "total_active_reputation sha256 triangle e =
     (let (r, c) = cache_total_active_reputation (threshold_cache e)
                     (calculate_active_rep sha256 triangle e)
      in (r, e\<lparr>threshold_cache := c\<rparr>))"

definition get_eligibility ::
  "(u8 list \<Rightarrow> 'h::linorder) \<Rightarrow> (u32 \<Rightarrow> nat \<Rightarrow> u32 \<Rightarrow> u32 list \<times> u32) \<Rightarrow> reputation_engine \<Rightarrow> pkh
     \<Rightarrow> u32 \<times> reputation_engine"
where
  "get_eligibility sha256 triangle e k =
     (let (r, c) = cache_get_trapezoidal_eligibility (threshold_cache e) k
                     (calculate_active_rep sha256 triangle e)
      in (r, e\<lparr>threshold_cache := c\<rparr>))"

definition get_rep_ordered_ars_list ::
  "(u8 list \<Rightarrow> 'h::linorder) \<Rightarrow> (u32 \<Rightarrow> nat \<Rightarrow> u32 \<Rightarrow> u32 list \<times> u32) \<Rightarrow> reputation_engine
     \<Rightarrow> pkh list \<times> reputation_engine"
where
  "get_rep_ordered_ars_list sha256 triangle e =
     (let (r, c) = cache_get_rep_ordered_ars_list (threshold_cache e)
                     (calculate_active_rep sha256 triangle e)
      in (r, e\<lparr>threshold_cache := c\<rparr>))"

definition reputation_issuance ::
  "reputation \<Rightarrow> alpha \<Rightarrow> alpha \<Rightarrow> alpha \<Rightarrow> reputation"
where
  "reputation_issuance issuance issuance_stop old_alpha new_alpha =
     (if old_alpha \<ge> issuance_stop then 0
      else (min issuance_stop new_alpha - old_alpha) * issuance)"

section \<open>The threshold loop\<close>

lemma unat_up64: "unat (ucast (w :: u32) :: u64) = unat w"
  using unat_lt_size [of w] by (simp add: unat_cast_mod)

lemma clipped_sum_ge:
  fixes xs :: "nat list"
  assumes "\<forall>x \<in> set xs. n * x \<le> sum_list xs" and "T * n \<le> F * sum_list xs" and "0 < sum_list xs"
  shows "n * T \<le> (\<Sum>x\<leftarrow>xs. min T (F * x))"
proof -
  let ?R = "sum_list xs"
  have each: "T * n * x \<le> ?R * min T (F * x)" if "x \<in> set xs" for x
  proof -
    have "T * (n * x) \<le> T * ?R" using assms(1) that by simp
    moreover have "T * n * x \<le> F * ?R * x" using assms(2) by simp
    ultimately show ?thesis by (simp add: min_def ac_simps)
  qed
  have "T * n * ?R = (\<Sum>x\<leftarrow>xs. T * n * x)" by (simp add: sum_list_const_mult)
  also have "\<dots> \<le> (\<Sum>x\<leftarrow>xs. ?R * min T (F * x))"
    using each by (intro sum_list_mono) simp
  also have "\<dots> = ?R * (\<Sum>x\<leftarrow>xs. min T (F * x))" by (simp add: sum_list_const_mult)
  finally show ?thesis using assms(3) by (simp add: ac_simps)
qed

lemma factor_ge:
  fixes T n R :: nat
  assumes "0 < R"
  shows "T * n \<le> (if 0 < T mod R then T * n div R + 1 else T * n div R) * R"
proof (cases "T mod R = 0")
  case True
  then have "R dvd T * n" by (simp add: mod_eq_0_iff_dvd)
  then show ?thesis using True by simp
next
  case False
  have "T * n = T * n div R * R + T * n mod R" and "T * n mod R < R"
    using assms by simp_all
  then have "T * n \<le> T * n div R * R + R" by linarith
  then show ?thesis using False by simp
qed

lemma saturates:
  fixes F top R T n :: nat
  assumes "T * n \<le> F * R" and "R \<le> n * top" and "0 < R"
  shows "T \<le> F * top"
proof -
  have "T * R \<le> T * (n * top)" using assms(2) by simp
  also have "\<dots> \<le> F * R * top" using assms(1) by (simp add: mult.assoc [symmetric])
  finally show ?thesis using assms(3) by (simp add: ac_simps)
qed

lemma threshold_loop_Cons:
  fixes n tot rem :: u64 and top :: u32
  assumes small: "unat n < 2 ^ 16" "unat tot < 2 ^ 48" and pos: "0 < unat rem"
    and keep: "unat top * unat n \<le> unat rem"
  shows "\<exists>f. threshold_loop n tot rem (top # reps) = Ok f
    \<and> (f \<noteq> - 1 \<longrightarrow> unat tot * unat n \<le> unat f * unat rem)"
proof -
  have prod: "unat tot * unat n \<le> (2 ^ 48 - 1) * (2 ^ 16 - 1)"
    using small by (intro mult_le_mono) auto
  have top: "unat (ucast top * n) = unat top * unat n"
    using mult_strict_mono [of "unat top" "2 ^ 32" "unat n" "2 ^ 16"] small(1) unat_lt_size [of top]
    by (simp add: unat_mult_nowrap unat_up64)
  have tn: "unat (tot * n) = unat tot * unat n"
    using prod by (simp add: unat_mult_nowrap)
  define fac where "fac = (if tot mod rem > 0 then tot * n div rem + 1 else tot * n div rem)"
  have "unat (tot * n div rem) \<le> (2 ^ 48 - 1) * (2 ^ 16 - 1)"
    using prod tn by (simp add: unat_div) (meson div_le_dividend order_trans)
  then have "unat (tot * n div rem + 1) = unat tot * unat n div unat rem + 1"
    using tn by (simp add: unat_add_nowrap unat_div)
  then have fac: "unat fac = (if 0 < unat tot mod unat rem then unat tot * unat n div unat rem + 1
      else unat tot * unat n div unat rem)"
    by (simp add: fac_def tn unat_div word_less_nat_alt unat_mod)
  have "threshold_loop n tot rem (top # reps) = Ok (if unat fac < 2 ^ 32 then ucast fac else - 1)"
    using keep pos by (auto simp: word_less_nat_alt top fac_def)
  moreover have "unat tot * unat n \<le> unat fac * unat rem"
    using factor_ge [OF pos, of "unat tot" "unat n"] by (simp only: fac)
  ultimately show ?thesis
    by (auto simp: unat_cast_mod)
qed

lemma threshold_loop_ok:
  assumes "sorted_wrt (\<ge>) reps" and "\<forall>r \<in> set reps. r \<noteq> 0"
    and "unat rem = sum_list (map unat reps)" and "unat tot < 2 ^ 48"
    and "0 < unat n" and "unat n < 2 ^ 16"
  shows "\<exists>f. threshold_loop n tot rem reps = Ok f
    \<and> (f \<noteq> - 1 \<longrightarrow> unat tot * unat n \<le> unat f * unat rem
          \<and> unat n * unat tot \<le> (\<Sum>r\<leftarrow>reps. min (unat tot) (unat f * unat r)))"
  using assms
proof (induction reps arbitrary: n rem)
  case (Cons top reps)
  let ?S = "sum_list (map unat reps)"
  have rem: "unat rem = unat top + ?S" using Cons.prems(3) by simp
  have pos: "0 < unat top" using Cons.prems(2) by (simp add: unat_gt_0)
  have le: "\<forall>x \<in> set (map unat (top # reps)). x \<le> unat top"
    using Cons.prems(1) by (auto simp: word_le_nat_alt)
  show ?case
  proof (cases "unat top * unat n \<le> unat rem")
    case True
    have "0 < unat rem" using rem pos by simp
    then obtain f where f: "threshold_loop n tot rem (top # reps) = Ok f"
        "f \<noteq> - 1 \<longrightarrow> unat tot * unat n \<le> unat f * unat rem"
      using threshold_loop_Cons [OF Cons.prems(6,4) _ True] by blast
    have "unat n * unat tot \<le> (\<Sum>x\<leftarrow>map unat (top # reps). min (unat tot) (unat f * x))"
      if "f \<noteq> - 1"
    proof (rule clipped_sum_ge)
      show "\<forall>x \<in> set (map unat (top # reps)). unat n * x \<le> sum_list (map unat (top # reps))"
      proof
        fix x
        assume "x \<in> set (map unat (top # reps))"
        then have "unat n * x \<le> unat n * unat top" using le by (intro mult_le_mono2) blast
        also have "\<dots> \<le> sum_list (map unat (top # reps))"
          using True Cons.prems(3) by (simp add: mult.commute)
        finally show "unat n * x \<le> sum_list (map unat (top # reps))" .
      qed
    qed (use f(2) that rem pos Cons.prems(3) in simp_all)
    then show ?thesis using f by (auto simp: comp_def)
  next
    case False
    have "unat n \<noteq> 1" using False rem by auto
    then have n: "unat (n - 1) = unat n - 1" "0 < unat n - 1" "unat n - 1 < 2 ^ 16"
      using Cons.prems(5,6) by (simp_all add: unat_sub_nowrap word_le_nat_alt)
    have top: "unat (ucast top * n) = unat top * unat n"
      using mult_strict_mono [of "unat top" "2 ^ 32" "unat n" "2 ^ 16"] Cons.prems(6) unat_lt_size [of top]
      by (simp add: unat_mult_nowrap unat_up64)
    have step: "threshold_loop n tot rem (top # reps) = threshold_loop (n - 1) tot (rem - ucast top) reps"
      using False by (simp add: word_less_nat_alt top)
    have rem': "unat (rem - ucast top) = ?S"
      by (subst unat_sub_nowrap) (simp_all add: word_le_nat_alt unat_up64 rem)
    obtain f where f: "threshold_loop (n - 1) tot (rem - ucast top) reps = Ok f"
        "f \<noteq> - 1 \<longrightarrow> unat tot * (unat n - 1) \<le> unat f * ?S
          \<and> (unat n - 1) * unat tot \<le> (\<Sum>r\<leftarrow>reps. min (unat tot) (unat f * unat r))"
      using Cons.IH [of "rem - ucast top" "n - 1"] Cons.prems n rem' by auto
    have "unat tot \<le> unat f * unat top" if "f \<noteq> - 1"
    proof (rule saturates)
      show "unat tot * (unat n - 1) \<le> unat f * ?S" using f(2) that by simp
      have "unat top + ?S < unat n * unat top" using False rem by (simp add: ac_simps)
      then show "?S \<le> (unat n - 1) * unat top" by (simp add: diff_mult_distrib)
      have "reps \<noteq> []" using f(1) that by auto
      then show "0 < ?S"
        using Cons.prems(2) by (cases reps) (simp_all add: unat_gt_0)
    qed
    then have bounds: "unat tot + unat tot * (unat n - 1) \<le> unat f * (unat top + ?S)"
        "unat tot + (unat n - 1) * unat tot
           \<le> (\<Sum>r\<leftarrow>top # reps. min (unat tot) (unat f * unat r))" if "f \<noteq> - 1"
      using f(2) that by (simp_all add: distrib_left add_le_mono)
    have eq: "unat tot + unat tot * (unat n - 1) = unat tot * unat n"
        "unat tot + (unat n - 1) * unat tot = unat n * unat tot"
      using n(2) by (cases "unat n"; simp)+
    show ?thesis
    proof (intro exI [of _ f] conjI impI)
      show "threshold_loop n tot rem (top # reps) = Ok f" using step f(1) by (rule trans)
    qed (use bounds in \<open>simp_all only: eq rem not_False_eq_True simp_thms\<close>)
  qed
qed simp

section \<open>The trapezoid conserves reputation\<close>

text \<open>
  What is used of the triangle: one value per identity, falling with the rank, and a total which
  is their sum and does not exceed the reputation to distribute, for a minimum that every
  identity has.
\<close>

definition triangle_ok :: "(u32 \<Rightarrow> nat \<Rightarrow> u32 \<Rightarrow> u32 list \<times> u32) \<Rightarrow> bool" where
  "triangle_ok triangle \<longleftrightarrow>
     (\<forall>T n m. 0 < n \<and> 0 < unat m \<and> n * unat m \<le> unat T \<longrightarrow>
        (case triangle T n m of (tri, s) \<Rightarrow>
           length tri = n \<and> unat s = sum_list (map unat tri) \<and> unat s \<le> unat T
           \<and> sorted_wrt (\<ge>) tri))"

lemma filter_reputed_identities_eq:
  "filter_reputed_identities ids t
     = (filter (\<lambda>k. trs_get t k \<noteq> 0) ids, \<Sum>k\<leftarrow>ids. trs_get t k)"
  by (induction ids) auto

lemma unat_sum_list:
  fixes ws :: "'l::len word list"
  shows "sum_list (map unat ws) < 2 ^ LENGTH('l) \<Longrightarrow> unat (sum_list ws) = sum_list (map unat ws)"
  by (induction ws) (auto simp: unat_simps)

fun trapezoid_values :: "nat \<Rightarrow> nat \<Rightarrow> u32 \<Rightarrow> u32 list \<Rightarrow> u32 list" where
  "trapezoid_values i extra offset [] = []"
| "trapezoid_values i extra offset (r # rs) =
     (r + offset + (if i < extra then 1 else 0)) # trapezoid_values (Suc i) extra offset rs"

lemma add_offset_other:
  "k \<notin> fst ` set reps \<Longrightarrow> map_of (add_offset i extra offset reps hm) k = map_of hm k"
  by (induction i extra offset reps hm rule: add_offset.induct) (auto simp: update_conv' Let_def)

lemma add_offset_values:
  "distinct (map fst reps) \<Longrightarrow>
     map (get_or_default (add_offset i extra offset reps hm)) (map fst reps)
       = trapezoid_values i extra offset (map snd reps)"
proof (induction i extra offset reps hm rule: add_offset.induct)
  case (2 i extra offset k r reps hm)
  then show ?case
    using add_offset_other [of k reps] by (simp add: Let_def get_or_default_def update_conv')
qed simp

lemma trapezoid_values_sum:
  assumes "\<forall>r \<in> set rs. unat r + unat offset + (if i < extra then 1 else 0) < 2 ^ 32"
  shows "sum_list (map unat (trapezoid_values i extra offset rs))
    = sum_list (map unat rs) + length rs * unat offset + (min (i + length rs) extra - min i extra)"
  using assms
proof (induction rs arbitrary: i)
  case (Cons r rs)
  have "\<forall>r \<in> set rs. unat r + unat offset + (if Suc i < extra then 1 else 0) < 2 ^ 32"
    using Cons.prems by fastforce
  moreover have "unat (r + offset + (if i < extra then 1 else 0))
      = unat r + unat offset + (if i < extra then 1 else 0)"
    using Cons.prems by (auto simp: unat_add_nowrap)
  ultimately show ?case
    using Cons.IH [of "Suc i"] by (auto simp: min_def)
qed simp

lemma trapezoid_values_le:
  assumes "\<forall>r \<in> set rs. unat r + unat offset + (if i < extra then 1 else 0) < 2 ^ 32"
    and "x \<in> set (trapezoid_values i extra offset rs)" and "\<forall>r \<in> set rs. unat r \<le> b"
  shows "unat x \<le> b + unat offset + (if i < extra then 1 else 0)"
  using assms
proof (induction rs arbitrary: i)
  case (Cons r rs)
  have "\<forall>r \<in> set rs. unat r + unat offset + (if Suc i < extra then 1 else 0) < 2 ^ 32"
    using Cons.prems(1) by fastforce
  moreover have "unat (r + offset + (if i < extra then 1 else 0))
      = unat r + unat offset + (if i < extra then 1 else 0)"
    using Cons.prems(1) by (auto simp: unat_add_nowrap)
  ultimately show ?case
    using Cons.IH [of "Suc i"] Cons.prems(2,3) by (auto split: if_splits)
qed simp

lemma trapezoid_values_sorted:
  assumes "\<forall>r \<in> set rs. unat r + unat offset + (if i < extra then 1 else 0) < 2 ^ 32"
    and "sorted_wrt (\<ge>) rs"
  shows "sorted_wrt (\<ge>) (trapezoid_values i extra offset rs)"
  using assms
proof (induction rs arbitrary: i)
  case (Cons r rs)
  have small: "\<forall>r \<in> set rs. unat r + unat offset + (if Suc i < extra then 1 else 0) < 2 ^ 32"
    using Cons.prems(1) by fastforce
  have head: "unat (r + offset + (if i < extra then 1 else 0))
      = unat r + unat offset + (if i < extra then 1 else 0)"
    using Cons.prems(1) by (auto simp: unat_add_nowrap)
  have "\<forall>r' \<in> set rs. unat r' \<le> unat r"
    using Cons.prems(2) by (simp add: word_le_nat_alt)
  then have "unat x \<le> unat r + unat offset + (if Suc i < extra then 1 else 0)"
    if "x \<in> set (trapezoid_values (Suc i) extra offset rs)" for x
    using trapezoid_values_le [OF small that] by blast
  then have "x \<le> r + offset + (if i < extra then 1 else 0)"
    if "x \<in> set (trapezoid_values (Suc i) extra offset rs)" for x
    using that by (fastforce simp: word_le_nat_alt head split: if_splits)
  then show ?case
    using Cons.IH [OF small] Cons.prems(2) by simp
qed simp

lemma sorted_reputed_first:
  fixes f :: "'a \<Rightarrow> u32"
  assumes "sorted_wrt (\<lambda>a b. f b \<le> f a) ids"
  shows "ids = filter (\<lambda>k. f k \<noteq> 0) ids @ filter (\<lambda>k. f k = 0) ids"
  using assms
proof (induction ids)
  case (Cons k ids)
  show ?case
  proof (cases "f k = 0")
    case True
    then have "\<forall>j \<in> set ids. f j = 0" using Cons.prems by auto
    then show ?thesis using True by (simp add: filter_id_conv filter_empty_conv)
  next
    case False
    then show ?thesis using Cons by simp
  qed
qed simp

lemma last_times_length_le:
  fixes f :: "'a \<Rightarrow> nat"
  assumes "sorted_wrt (\<lambda>a b. f b \<le> f a) ids" and "ids \<noteq> []"
  shows "length ids * f (last ids) \<le> (\<Sum>k\<leftarrow>ids. f k)"
proof -
  have "f (last ids) \<le> f k" if "k \<in> set ids" for k
    using assms that by (induction ids) (auto split: if_splits)
  then have "(\<Sum>k\<leftarrow>ids. f (last ids)) \<le> (\<Sum>k\<leftarrow>ids. f k)"
    by (intro sum_list_mono) simp
  then show ?thesis by (simp add: sum_list_triv)
qed

lemma trapezoid_fill:
  assumes "length tr = n" and "0 < n" and s: "unat s = sum_list (map unat tr)" "unat s \<le> unat T"
    and sorted: "sorted_wrt (\<ge>) tr" and n: "unat (of_nat n :: u32) = n"
  defines "vs \<equiv> trapezoid_values 0 (unat (T - s) mod n) ((T - s) div of_nat n) tr"
  shows "sum_list (map unat vs) = unat T \<and> sorted_wrt (\<ge>) vs"
proof -
  let ?offset = "(T - s) div of_nat n" and ?extra = "unat (T - s) mod n"
  have rest: "unat (T - s) = unat T - unat s"
    using s(2) by (simp add: unat_simps word_le_nat_alt)
  then have offset: "unat ?offset = (unat T - unat s) div n"
    by (simp add: unat_div n)
  have parts: "n * unat ?offset + ?extra = unat T - unat s"
    by (simp add: offset rest)
  have "unat r + unat ?offset + (if 0 < ?extra then 1 else 0) < 2 ^ 32" if "r \<in> set tr" for r
  proof -
    have "unat r \<le> unat s" using that s(1) member_le_sum_list [of "unat r" "map unat tr"] by simp
    moreover have "unat ?offset \<le> n * unat ?offset" using assms(2) by simp
    moreover have "(if 0 < ?extra then 1 else 0) \<le> ?extra" by simp
    ultimately have "unat r + unat ?offset + (if 0 < ?extra then 1 else 0) \<le> unat T"
      using parts s(2) by linarith
    then show ?thesis using unat_lt_size [of T] by simp
  qed
  then have small: "\<forall>r \<in> set tr. unat r + unat ?offset + (if 0 < ?extra then 1 else 0) < 2 ^ 32"
    by blast
  have "?extra < n" using assms(2) by simp
  then have "sum_list (map unat vs) = unat T"
    using trapezoid_values_sum [OF small] parts s assms(1) by (simp add: vs_def)
  then show ?thesis
    using trapezoid_values_sorted [OF small sorted] by (simp add: vs_def)
qed

lemma trapezoidal_eligibility_ok:
  assumes tri: "triangle_ok triangle" and "distinct ids"
    and sorted: "sorted_wrt (\<lambda>a b. trs_get t b \<le> trs_get t a) ids"
    and small: "(\<Sum>k\<leftarrow>ids. unat (trs_get t k)) < 2 ^ 32"
    and run: "trapezoidal_eligibility triangle ids t = (hm, tot)"
  defines "reputed \<equiv> filter (\<lambda>k. trs_get t k \<noteq> 0) ids"
  shows "unat tot = (\<Sum>k\<leftarrow>ids. unat (trs_get t k))
    \<and> (\<Sum>k\<leftarrow>reputed. unat (get_or_default hm k)) = unat tot
    \<and> sorted_wrt (\<ge>) (map (get_or_default hm) reputed)
    \<and> (\<forall>k. k \<notin> set reputed \<longrightarrow> get_or_default hm k = 0)"
proof -
  define T where "T = (\<Sum>k\<leftarrow>ids. trs_get t k)"
  have T: "unat T = (\<Sum>k\<leftarrow>ids. unat (trs_get t k))"
    using unat_sum_list [of "map (trs_get t) ids"] small by (simp add: T_def comp_def)
  have reputed_sum: "(\<Sum>k\<leftarrow>reputed. unat (trs_get t k)) = unat T"
    unfolding T reputed_def by (induction ids) auto
  show ?thesis
  proof (cases "reputed = []")
    case True
    then have "hm = []" "tot = 0"
      using run by (simp_all add: trapezoidal_eligibility_def filter_reputed_identities_eq reputed_def)
    then show ?thesis
      using True reputed_sum T by (simp add: get_or_default_def)
  next
    case False
    define n where "n = length reputed"
    define m where "m = trs_get t (last reputed)"
    obtain tr s where tr: "triangle T n m = (tr, s)" by fastforce
    have "last reputed \<in> set reputed" using False by simp
    then have m: "0 < unat m" by (simp add: m_def reputed_def unat_gt_0)
    have "sorted_wrt (\<lambda>a b. unat (trs_get t b) \<le> unat (trs_get t a)) reputed"
      using sorted by (simp add: reputed_def sorted_wrt_filter word_le_nat_alt)
    then have nm: "n * unat m \<le> unat T"
      using last_times_length_le [of "\<lambda>k. unat (trs_get t k)" reputed] False reputed_sum
      by (simp add: n_def m_def)
    have n: "0 < n" using False by (simp add: n_def)
    have tri': "length tr = n" "unat s = sum_list (map unat tr)" "unat s \<le> unat T" "sorted_wrt (\<ge>) tr"
      using tri [unfolded triangle_ok_def, rule_format, of n m T] n m nm tr by auto
    let ?offset = "(T - s) div of_nat n" and ?extra = "unat (T - s) mod n"
    have run': "tot = T" "hm = add_offset 0 ?extra ?offset (zip reputed tr) []"
      using run False by (auto simp: trapezoidal_eligibility_def filter_reputed_identities_eq Let_def
          reputed_def [symmetric] T_def [symmetric] n_def [symmetric] m_def [symmetric] tr)
    have "n \<le> n * unat m" using m by simp
    then have "n \<le> unat T" using nm by (rule order_trans)
    then have "n < 2 ^ 32" using unat_lt_size [of T] by simp
    then have nn: "unat (of_nat n :: u32) = n" by (simp add: unsigned_of_nat take_bit_nat_eq_self)
    have zip: "map fst (zip reputed tr) = reputed" "map snd (zip reputed tr) = tr"
      using tri'(1) by (simp_all add: n_def)
    have "distinct reputed" using \<open>distinct ids\<close> by (simp add: reputed_def)
    then have vs: "map (get_or_default hm) reputed = trapezoid_values 0 ?extra ?offset tr"
      using add_offset_values [of "zip reputed tr" 0 ?extra ?offset "[]"] by (simp only: zip run'(2))
    have "get_or_default hm k = 0" if "k \<notin> set reputed" for k
      using add_offset_other [of k "zip reputed tr" 0 ?extra ?offset "[]"] that
      by (simp add: run'(2) get_or_default_def) (metis image_iff set_zip_leftD prod.collapse option.simps(4))
    then show ?thesis
      using trapezoid_fill [OF tri'(1) n tri'(2-4) nn] T run'(1)
      by (simp flip: vs) (simp add: comp_def)
  qed
qed

section \<open>The active reputation\<close>

lemma reputed_le_total: "reputed_le sha256 al a b \<or> reputed_le sha256 al b a"
  by (auto simp: reputed_le_def split: prod.splits)

lemma reputed_le_trans: "reputed_le sha256 al a b \<Longrightarrow> reputed_le sha256 al b c \<Longrightarrow> reputed_le sha256 al a c"
  by (auto simp: reputed_le_def split: prod.splits if_splits)

lemma ordered_ars_list:
  fixes sha256 :: "u8 list \<Rightarrow> 'h::linorder"
  assumes "ars_wf (engine_ars e)"
  defines "ids \<equiv> calculate_rep_ordered_ars_list sha256 e"
  shows "distinct ids" and "set ids = {k. ars_contains (engine_ars e) k}"
    and "sorted_wrt (\<lambda>a b. trs_get (engine_trs e) b \<le> trs_get (engine_trs e) a) ids"
proof -
  let ?f = "\<lambda>k. (k, trs_get (engine_trs e) k)"
  let ?l = "sort_by (reputed_le sha256 (current_alpha e)) (map ?f (active_identities (engine_ars e)))"
  have ids: "ids = map fst ?l"
    by (simp add: ids_def calculate_rep_ordered_ars_list_def)
  have mset: "mset ids = mset (active_identities (engine_ars e))"
    by (simp add: ids image_mset.compositionality comp_def)
  have "distinct (active_identities (engine_ars e))"
    using assms(1) by (simp add: ars_wf_def cache_wf_def hm_wf_def active_identities_def)
  then show "distinct ids" using mset by (metis mset_eq_imp_distinct_iff)
  show "set ids = {k. ars_contains (engine_ars e) k}"
    by (force simp: ids ars_contains_def active_identities_def map_of_eq_None_iff image_iff)
  have "sorted_wrt (reputed_le sha256 (current_alpha e)) ?l"
    by (rule sorted_sort_by [OF reputed_le_total reputed_le_trans])
  then have "sorted_wrt (\<lambda>a b. trs_get (engine_trs e) (fst b) \<le> trs_get (engine_trs e) (fst a)) ?l"
    by (rule sorted_wrt_mono_rel [rotated]) (auto simp: reputed_le_def)
  then show "sorted_wrt (\<lambda>a b. trs_get (engine_trs e) b \<le> trs_get (engine_trs e) a) ids"
    by (simp add: ids sorted_wrt_map)
qed

text \<open>The active reputation fits: a bound on the reputation and on the number of active identities.\<close>

definition active_fits :: "reputation_engine \<Rightarrow> bool" where
  "active_fits e \<longleftrightarrow> ars_wf (engine_ars e)
     \<and> (\<Sum>k\<leftarrow>active_identities (engine_ars e). unat (trs_get (engine_trs e) k)) + 1 < 2 ^ 32
     \<and> active_identities_number (engine_ars e) < 2 ^ 32"

lemma ordered_ars_list_mset:
  "mset (calculate_rep_ordered_ars_list sha256 e) = mset (active_identities (engine_ars e))"
  by (simp add: calculate_rep_ordered_ars_list_def image_mset.compositionality comp_def)

lemma trapezoid_over_sorted:
  assumes tri: "triangle_ok triangle" and "distinct ids"
    and sorted: "sorted_wrt (\<lambda>a b. trs_get t b \<le> trs_get t a) ids"
    and small: "(\<Sum>k\<leftarrow>ids. unat (trs_get t k)) < 2 ^ 32"
    and run: "trapezoidal_eligibility triangle ids t = (hm, T)"
  shows "unat T = (\<Sum>k\<leftarrow>ids. unat (trs_get t k))"
    and "(\<Sum>k\<leftarrow>ids. unat (get_or_default hm k)) = unat T"
    and "sorted_wrt (\<ge>) (map (get_or_default hm) ids)"
proof -
  let ?reputed = "filter (\<lambda>k. trs_get t k \<noteq> 0) ids" and ?zero = "filter (\<lambda>k. trs_get t k = 0) ids"
  have tr: "unat T = (\<Sum>k\<leftarrow>ids. unat (trs_get t k))"
      "(\<Sum>k\<leftarrow>?reputed. unat (get_or_default hm k)) = unat T"
      "sorted_wrt (\<ge>) (map (get_or_default hm) ?reputed)"
      "\<And>k. trs_get t k = 0 \<Longrightarrow> get_or_default hm k = 0"
    using trapezoidal_eligibility_ok [OF assms] by auto
  show "unat T = (\<Sum>k\<leftarrow>ids. unat (trs_get t k))" by (rule tr(1))
  have split: "ids = ?reputed @ ?zero"
    by (rule sorted_reputed_first [OF sorted])
  have zero: "map (get_or_default hm) ?zero = replicate (length ?zero) 0"
    using tr(4) by (simp add: map_replicate_const [symmetric])
  then have "sum_list (map unat (map (get_or_default hm) ?zero)) = 0" by simp
  then show "(\<Sum>k\<leftarrow>ids. unat (get_or_default hm k)) = unat T"
    using tr(2) arg_cong [OF split, of "\<lambda>l. \<Sum>k\<leftarrow>l. unat (get_or_default hm k)"] by (simp add: comp_def)
  have "map (get_or_default hm) ids = map (get_or_default hm) ?reputed @ replicate (length ?zero) 0"
    using split zero by (metis map_append)
  moreover have "sorted_wrt (\<ge>) (replicate n (0::u32))" for n
    by (induction n) auto
  ultimately show "sorted_wrt (\<ge>) (map (get_or_default hm) ids)"
    using tr(3) by (simp add: sorted_wrt_append)
qed

lemma plus_one_list:
  fixes vs :: "u32 list"
  assumes "sum_list (map unat vs) + 1 < 2 ^ 32" and "sorted_wrt (\<ge>) vs"
  shows "sum_list (map unat (map (\<lambda>v. v + 1) vs)) = sum_list (map unat vs) + length vs"
    and "sorted_wrt (\<ge>) (map (\<lambda>v. v + 1) vs)" and "\<forall>r \<in> set (map (\<lambda>v. v + 1) vs). r \<noteq> 0"
proof -
  have suc: "unat (v + 1) = unat v + 1" if "v \<in> set vs" for v
  proof -
    have "unat v \<le> sum_list (map unat vs)" using that by (simp add: member_le_sum_list)
    then show ?thesis using assms(1) by (subst unat_add_nowrap) simp_all
  qed
  then show "sum_list (map unat (map (\<lambda>v. v + 1) vs)) = sum_list (map unat vs) + length vs"
    by (induction vs) auto
  show "sorted_wrt (\<ge>) (map (\<lambda>v. v + 1) vs)"
    using assms(2) suc by (simp add: sorted_wrt_map word_le_nat_alt) (rule sorted_wrt_mono_rel, auto)
  show "\<forall>r \<in> set (map (\<lambda>v. v + 1) vs). r \<noteq> 0"
    using suc by (auto simp: unat_eq_zero [symmetric] simp del: unat_eq_zero)
qed

lemma calculate_active_rep_ok:
  fixes sha256 :: "u8 list \<Rightarrow> 'h::linorder"
  assumes tri: "triangle_ok triangle" and fits: "active_fits e"
    and run: "calculate_active_rep sha256 triangle e = (tot, reps, hm, ids)"
  shows "sorted_wrt (\<ge>) reps" and "\<forall>r \<in> set reps. r \<noteq> 0" and "unat tot = sum_list (map unat reps)"
    and "unat tot < 2 ^ 48" and "ids = calculate_rep_ordered_ars_list sha256 e"
    and "reps = map (\<lambda>k. get_or_default hm k + 1) ids"
proof -
  let ?t = "engine_trs e"
  have wf: "ars_wf (engine_ars e)" using fits by (simp add: active_fits_def)
  show ids: "ids = calculate_rep_ordered_ars_list sha256 e"
    using run by (simp add: calculate_active_rep_def Let_def split: prod.splits)
  obtain T where T: "trapezoidal_eligibility triangle ids ?t = (hm, T)"
      "tot = ucast T + of_nat (length ids)" "reps = map (\<lambda>k. get_or_default hm k + 1) ids"
    using run by (auto simp: calculate_active_rep_def Let_def split: prod.splits)
  show "reps = map (\<lambda>k. get_or_default hm k + 1) ids" by (rule T(3))
  note list = ordered_ars_list [OF wf, of sha256, folded ids]
  have len: "length ids < 2 ^ 32"
    using arg_cong [OF ordered_ars_list_mset [of sha256 e], of size] fits
    by (simp add: ids active_fits_def active_identities_number_def active_identities_def)
  have "sum_mset (image_mset (\<lambda>k. unat (trs_get ?t k)) (mset ids))
      = sum_mset (image_mset (\<lambda>k. unat (trs_get ?t k)) (mset (active_identities (engine_ars e))))"
    unfolding ids ordered_ars_list_mset ..
  then have "(\<Sum>k\<leftarrow>ids. unat (trs_get ?t k))
      = (\<Sum>k\<leftarrow>active_identities (engine_ars e). unat (trs_get ?t k))"
    by (simp flip: mset_map add: sum_mset_sum_list)
  then have small: "(\<Sum>k\<leftarrow>ids. unat (trs_get ?t k)) + 1 < 2 ^ 32"
    using fits by (simp add: active_fits_def)
  let ?vs = "map (get_or_default hm) ids"
  have tr: "unat T + 1 < 2 ^ 32" "sum_list (map unat ?vs) = unat T" "sorted_wrt (\<ge>) ?vs"
    using trapezoid_over_sorted [OF tri list(1,3) _ T(1)] small by (simp_all add: comp_def)
  have reps: "reps = map (\<lambda>v. v + 1) ?vs" by (simp add: T(3) comp_def)
  have one: "sum_list (map unat ?vs) + 1 < 2 ^ 32" using tr(1,2) by simp
  have tot: "unat tot = unat T + length ids"
    using tr(1) len by (simp add: T(2) unat_add_nowrap unat_up64 unsigned_of_nat take_bit_nat_eq_self)
  show "unat tot = sum_list (map unat reps)"
    unfolding reps plus_one_list(1) [OF one tr(3)] by (simp only: tot tr(2) length_map)
  show "sorted_wrt (\<ge>) reps" "\<forall>r \<in> set reps. r \<noteq> 0"
    unfolding reps by (rule plus_one_list(2,3) [OF one tr(3)])+
  show "unat tot < 2 ^ 48" using tot tr(1) len by simp
qed

section \<open>The cache is transparent\<close>

text \<open>
  The engine without its cache: every operation is specified on it, and a query must give what a
  fresh computation gives. In the operations below a query carries the answer it got.
\<close>

definition core :: "reputation_engine \<Rightarrow> reputation_engine" where
  "core e = e\<lparr>threshold_cache := default_cache\<rparr>"

datatype engine_op =
    TrsMut "pkh trs \<Rightarrow> pkh trs"
  | ArsMut "pkh ars \<Rightarrow> pkh ars"
  | SetAlpha alpha
  | ClearThreshold
  | AskFactor u16 u32
  | AskTotal u64
  | AskEligibility pkh u32
  | AskOrder "pkh list"

primrec engine_step ::
  "(u8 list \<Rightarrow> 'h::linorder) \<Rightarrow> (u32 \<Rightarrow> nat \<Rightarrow> u32 \<Rightarrow> u32 list \<times> u32) \<Rightarrow> engine_op
     \<Rightarrow> reputation_engine \<Rightarrow> reputation_engine option"
where
  "engine_step sha256 triangle (TrsMut f) e = Some (trs_mut e f)"
| "engine_step sha256 triangle (ArsMut f) e = Some (ars_mut e f)"
| "engine_step sha256 triangle (SetAlpha a) e = Some (set_current_alpha e a)"
| "engine_step sha256 triangle ClearThreshold e = Some (clear_threshold_cache e)"
| "engine_step sha256 triangle (AskFactor n f) e =
     (let (r, e') = threshold_factor sha256 triangle e n in if r = Ok f then Some e' else None)"
| "engine_step sha256 triangle (AskTotal r) e =
     (let (r', e') = total_active_reputation sha256 triangle e in if r' = r then Some e' else None)"
| "engine_step sha256 triangle (AskEligibility k r) e =
     (let (r', e') = get_eligibility sha256 triangle e k in if r' = r then Some e' else None)"
| "engine_step sha256 triangle (AskOrder r) e =
     (let (r', e') = get_rep_ordered_ars_list sha256 triangle e in if r' = r then Some e' else None)"

primrec engine_spec ::
  "(u8 list \<Rightarrow> 'h::linorder) \<Rightarrow> (u32 \<Rightarrow> nat \<Rightarrow> u32 \<Rightarrow> u32 list \<times> u32) \<Rightarrow> engine_op
     \<Rightarrow> reputation_engine \<Rightarrow> reputation_engine \<Rightarrow> bool"
where
  "engine_spec sha256 triangle (TrsMut f) a b \<longleftrightarrow> b = a\<lparr>engine_trs := f (engine_trs a)\<rparr>"
| "engine_spec sha256 triangle (ArsMut f) a b \<longleftrightarrow> b = a\<lparr>engine_ars := f (engine_ars a)\<rparr>"
| "engine_spec sha256 triangle (SetAlpha al) a b \<longleftrightarrow> b = a\<lparr>current_alpha := al\<rparr>"
| "engine_spec sha256 triangle ClearThreshold a b \<longleftrightarrow> b = a"
| "engine_spec sha256 triangle (AskFactor n f) a b \<longleftrightarrow> b = a
     \<and> (case calculate_active_rep sha256 triangle a of (tot, reps, _, _) \<Rightarrow>
          internal_threshold_factor (ucast n) tot reps = Ok f)"
| "engine_spec sha256 triangle (AskTotal r) a b \<longleftrightarrow> b = a
     \<and> fst (calculate_active_rep sha256 triangle a) = r"
| "engine_spec sha256 triangle (AskEligibility k r) a b \<longleftrightarrow> b = a
     \<and> (case calculate_active_rep sha256 triangle a of (_, _, hm, _) \<Rightarrow> get_or_default hm k = r)"
| "engine_spec sha256 triangle (AskOrder r) a b \<longleftrightarrow> b = a
     \<and> calculate_rep_ordered_ars_list sha256 a = r"

definition cache_coherent :: "threshold_cache \<Rightarrow> active_rep \<Rightarrow> bool" where
  "cache_coherent c g \<longleftrightarrow>
     valid c \<longrightarrow> (total_active_rep c, sorted_active_rep c, trapezoid_rep c, sorted_identities c) = g
       \<and> (\<forall>n f. map_of (threshold c) n = Some f \<longrightarrow>
            internal_threshold_factor (ucast n) (total_active_rep c) (sorted_active_rep c) = Ok f)"

definition engine_coherent ::
  "(u8 list \<Rightarrow> 'h::linorder) \<Rightarrow> (u32 \<Rightarrow> nat \<Rightarrow> u32 \<Rightarrow> u32 list \<times> u32) \<Rightarrow> reputation_engine \<Rightarrow> bool"
where
  "engine_coherent sha256 triangle e \<longleftrightarrow>
     cache_coherent (threshold_cache e) (calculate_active_rep sha256 triangle e)"

lemma calculate_active_rep_cache [simp]:
  "calculate_active_rep sha256 triangle (e\<lparr>threshold_cache := c\<rparr>) = calculate_active_rep sha256 triangle e"
  by (simp add: calculate_active_rep_def calculate_rep_ordered_ars_list_def)

lemma calculate_active_rep_core [simp]:
  "calculate_active_rep sha256 triangle (core e) = calculate_active_rep sha256 triangle e"
  by (simp add: core_def)

lemma core_cache [simp]: "core (e\<lparr>threshold_cache := c\<rparr>) = core e"
  by (simp add: core_def)

lemma refresh_coherent:
  assumes "cache_coherent c g"
  shows "cache_coherent (cache_refresh c g) g" and "valid (cache_refresh c g)"
  using assms by (auto simp: cache_refresh_def cache_coherent_def cache_initialize_def split: prod.splits)

lemma refreshed:
  assumes "cache_coherent c g"
  shows "(total_active_rep (cache_refresh c g), sorted_active_rep (cache_refresh c g),
    trapezoid_rep (cache_refresh c g), sorted_identities (cache_refresh c g)) = g"
  using refresh_coherent [OF assms] by (simp add: cache_coherent_def)

lemma cache_threshold_factor_coherent:
  assumes "cache_coherent c g" and "cache_threshold_factor c n g = (r, c')"
  shows "cache_coherent c' g"
    and "case g of (tot, reps, _, _) \<Rightarrow> r = internal_threshold_factor (ucast n) tot reps"
  using refresh_coherent [OF assms(1)] refreshed [OF assms(1)] assms(2)
  by (auto simp: cache_threshold_factor_def Let_def cache_coherent_def update_conv'
      split: option.splits outcome.splits prod.splits if_splits)

lemma invalid_coherent: "\<not> valid c \<Longrightarrow> cache_coherent c g"
  by (simp add: cache_coherent_def)

lemma engine_mut_simps [simp]:
  "\<not> valid (threshold_cache (trs_mut e f))"
  "\<not> valid (threshold_cache (ars_mut e h))"
  "core (trs_mut e f) = (core e)\<lparr>engine_trs := f (engine_trs (core e))\<rparr>"
  "core (ars_mut e h) = (core e)\<lparr>engine_ars := h (engine_ars (core e))\<rparr>"
  "core (set_current_alpha e al) = (core e)\<lparr>current_alpha := al\<rparr>"
  "core (clear_threshold_cache e) = core e"
  by (auto simp: trs_mut_def ars_mut_def set_current_alpha_def clear_threshold_cache_def core_def
      invalidate_reputation_threshold_cache_def cache_invalidate_def)

lemma engine_step_coherent:
  assumes "engine_coherent sha256 triangle e" and "engine_step sha256 triangle op e = Some e'"
  shows "engine_coherent sha256 triangle e'"
proof (cases op)
  case (SetAlpha al)
  then show ?thesis
    using assms by (auto simp: set_current_alpha_def engine_coherent_def
        invalidate_reputation_threshold_cache_def cache_invalidate_def invalid_coherent)
next
  case ClearThreshold
  then show ?thesis
    using assms by (auto simp: clear_threshold_cache_def engine_coherent_def cache_clear_threshold_def
        cache_coherent_def)
next
  case (AskFactor n f)
  then show ?thesis
    using assms cache_threshold_factor_coherent(1)
      [of "threshold_cache e" "calculate_active_rep sha256 triangle e" n]
    by (auto simp: threshold_factor_def engine_coherent_def split: prod.splits if_splits)
qed (use assms in \<open>auto simp: engine_coherent_def invalid_coherent total_active_reputation_def
    cache_total_active_reputation_def get_eligibility_def cache_get_trapezoidal_eligibility_def
    get_rep_ordered_ars_list_def cache_get_rep_ordered_ars_list_def Let_def refresh_coherent
    split: if_splits\<close>)

lemma engine_step_refines:
  assumes "engine_coherent sha256 triangle e" and "engine_step sha256 triangle op e = Some e'"
  shows "engine_spec sha256 triangle op (core e) (core e')"
proof -
  let ?g = "calculate_active_rep sha256 triangle e"
  have order: "snd (snd (snd ?g)) = calculate_rep_ordered_ars_list sha256 (core e)"
    by (simp add: calculate_active_rep_def Let_def core_def calculate_rep_ordered_ars_list_def
        split: prod.splits)
  have c: "cache_coherent (threshold_cache e) ?g"
    using assms(1) by (simp add: engine_coherent_def)
  obtain tot reps hm ids where g: "?g = (tot, reps, hm, ids)" by (metis prod_cases4)
  then have r: "total_active_rep (cache_refresh (threshold_cache e) ?g) = tot"
      "trapezoid_rep (cache_refresh (threshold_cache e) ?g) = hm"
      "sorted_identities (cache_refresh (threshold_cache e) ?g) = ids"
    using refreshed [OF c] by auto
  show ?thesis
    using assms(2) order cache_threshold_factor_coherent(2) [OF c]
    by (cases op) (auto simp: threshold_factor_def total_active_reputation_def get_eligibility_def
        get_rep_ordered_ars_list_def cache_total_active_reputation_def
        cache_get_trapezoidal_eligibility_def cache_get_rep_ordered_ars_list_def Let_def g r [unfolded g]
        split: prod.splits if_splits)
qed

interpretation engine: refinement "engine_coherent sha256 triangle" core
    "engine_step sha256 triangle" "engine_spec sha256 triangle" for sha256 triangle
  by unfold_locales (fact engine_step_coherent, fact engine_step_refines)

lemma engine_new_coherent: "engine_coherent sha256 triangle (engine_new p)"
  by (simp add: engine_coherent_def invalid_coherent engine_new_def default_cache_def)

section \<open>Properties\<close>

text \<open>
  Claim C9. The cache of the engine cannot be observed. Over any sequence of changes to the two
  reputation sets and the alpha clock, and of queries (threshold factor, total active reputation,
  eligibility, order of the identities), every answer is the one that a fresh computation on the
  current sets gives.
\<close>

theorem engine_cache_transparent:
  fixes sha256 :: "u8 list \<Rightarrow> 'h::linorder"
  assumes "run_ops (engine_step sha256 triangle) ops (engine_new activity_period) = Some e"
  shows "spec_run (engine_spec sha256 triangle) ops (core (engine_new activity_period)) (core e)"
  by (rule engine.run_spec [OF engine_new_coherent assms])



text \<open>
  Reputation is issued by the alpha clock alone: however an interval of witnessing acts
  is cut into blocks, the same reputation is issued over it, and none from the stop on.
\<close>

theorem reputation_issuance_additive:
  assumes "a \<le> b" and "b \<le> c"
  shows "reputation_issuance i stop a b + reputation_issuance i stop b c = reputation_issuance i stop a c
    \<and> (stop \<le> a \<longrightarrow> reputation_issuance i stop a c = 0)"
  using assms by (auto simp: reputation_issuance_def min_def algebra_simps)

section \<open>A concrete engine\<close>

definition flat_triangle :: "u32 \<Rightarrow> nat \<Rightarrow> u32 \<Rightarrow> u32 list \<times> u32" where
  "flat_triangle T n m = (replicate n 0, 0)"

lemma flat_triangle_ok: "triangle_ok flat_triangle"
proof -
  have "sorted_wrt (\<ge>) (replicate n (0::u32))" for n
    by (induction n) auto
  then show ?thesis by (simp add: triangle_ok_def flat_triangle_def)
qed

definition sample_engine_ops :: "engine_op list" where
  "sample_engine_ops =
     [ArsMut (\<lambda>_. \<lparr>ars_map = [([1], 1), ([2], 1)], ars_queue = [[[1], [2]]], ars_capacity = 4, ars_last_update = 1\<rparr>),
      AskFactor 1 1, AskTotal 2,
      TrsMut (\<lambda>_. \<lparr>trs_map = [([1], 6)], trs_queue = [(9, [([1], 6)])]\<rparr>),
      AskTotal 8, AskOrder [[1], [2]], AskEligibility [1] 6]"

definition sample_engine :: reputation_engine where
  "sample_engine =
     \<lparr>current_alpha = 0, extra_reputation = 0,
      engine_trs = \<lparr>trs_map = [([1], 6)], trs_queue = [(9, [([1], 6)])]\<rparr>,
      engine_ars = \<lparr>ars_map = [([1], 1), ([2], 1)], ars_queue = [[[1], [2]]], ars_capacity = 4, ars_last_update = 1\<rparr>,
      threshold_cache = \<lparr>valid = True, total_active_rep = 8, sorted_active_rep = [7, 1],
        sorted_identities = [[1], [2]], threshold = [], trapezoid_rep = [([1], 6)]\<rparr>\<rparr>"

lemmas engine_eval =
  calculate_active_rep_def calculate_rep_ordered_ars_list_def active_identities_def sort_by_def
  reputed_le_def trapezoidal_eligibility_def flat_triangle_def trs_get_def get_or_default_def
  trs_mut_def ars_mut_def invalidate_reputation_threshold_cache_def cache_invalidate_def
  threshold_factor_def cache_threshold_factor_def cache_refresh_def cache_initialize_def
  internal_threshold_factor_def total_active_reputation_def cache_total_active_reputation_def
  get_rep_ordered_ars_list_def cache_get_rep_ordered_ars_list_def get_eligibility_def
  cache_get_trapezoidal_eligibility_def engine_new_def default_cache_def trs_new_def ars_new_def

lemma sample_engine_run:
  "run_ops (engine_step length flat_triangle) sample_engine_ops (engine_new 4) = Some sample_engine"
  by (simp add: sample_engine_ops_def sample_engine_def engine_eval Let_def)

lemma sample_engine_fits: "active_fits sample_engine"
  by (auto simp: active_fits_def sample_engine_def ars_wf_def active_identities_def
      active_identities_number_def trs_get_def get_or_default_def cache_wf_def hm_wf_def amount_Cons)

theorem engine_cache_transparent_witness:
  "spec_run (engine_spec length flat_triangle) sample_engine_ops (core (engine_new 4)) (core sample_engine)"
  by (rule engine_cache_transparent [OF sample_engine_run])



theorem reputation_issuance_additive_witness:
  "reputation_issuance 10 100 95 98 + reputation_issuance 10 100 98 120 = 50"
  using reputation_issuance_additive [of 95 98 120 10 100] by (simp add: reputation_issuance_def)

end
