(* ===== verification/Epochs.thy ===== *)
theory Epochs
  imports Wit
begin

text \<open>
  Epochs and protocol versions: the conversion between epochs and timestamps (\<^verbatim>\<open>EpochConstants\<close> of
  chain/mod.rs) and the registry of protocol versions (\<^verbatim>\<open>ProtocolVersion\<close>, \<^verbatim>\<open>VersionsMap\<close> and
  \<^verbatim>\<open>ProtocolInfo\<close> of proto/versioning.rs, with the accessors of lib.rs). The registry that the code
  keeps behind a global lock is an argument here.

  Timestamps are 64-bit signed integers: integers, with the wrap-around of an unchecked operation
  written as \<open>i64_wrap\<close>.
\<close>

section \<open>Definitions\<close>

subsection \<open>Signed 64-bit integers\<close>

definition I64_MAX :: int where
  "I64_MAX = 2 ^ 63 - 1"

definition i64_wrap :: "int \<Rightarrow> int" where
  "i64_wrap x = (x + 2 ^ 63) mod 2 ^ 64 - 2 ^ 63"

definition i64_checked_add :: "int \<Rightarrow> int \<Rightarrow> int option" where
  "i64_checked_add a b = (if - (2 ^ 63) \<le> a + b \<and> a + b < 2 ^ 63 then Some (a + b) else None)"

text \<open>Division truncates towards zero; the divisors of the code are not negative.\<close>

definition i64_div :: "int \<Rightarrow> int \<Rightarrow> int" where
  "i64_div a b = (if a < 0 then - ((- a) div b) else a div b)"

definition u32_try_from :: "int \<Rightarrow> u32 option" where
  "u32_try_from x = (if 0 \<le> x \<and> x < 2 ^ 32 then Some (of_int x) else None)"

subsection \<open>Epoch constants\<close>

record epoch_constants =
  checkpoint_zero_timestamp :: int
  checkpoints_period :: u16
  checkpoint_zero_timestamp_wit2 :: int
  checkpoints_period_wit2 :: u16

datatype epoch_calculation_error = CheckpointZeroInTheFuture int | Overflow

definition epoch_div :: "u32 \<Rightarrow> u16 \<Rightarrow> (epoch_calculation_error, epoch) outcome" where
  "epoch_div x p = (if p = 0 then Panic else Ok (x div ucast p))"

definition epoch_at :: "epoch_constants \<Rightarrow> int \<Rightarrow> (epoch_calculation_error, epoch) outcome" where
  "epoch_at c timestamp =
     (if timestamp \<ge> checkpoint_zero_timestamp_wit2 c then
        (case u32_try_from (i64_wrap (checkpoint_zero_timestamp_wit2 c - checkpoint_zero_timestamp c)) of
           None \<Rightarrow> Err (CheckpointZeroInTheFuture (checkpoint_zero_timestamp c))
         | Some pre \<Rightarrow>
             (case epoch_div pre (checkpoints_period c) of
                Err err \<Rightarrow> Err err
              | Panic \<Rightarrow> Panic
              | Ok epochs_pre_v2 \<Rightarrow>
                  (case u32_try_from (i64_wrap (timestamp - checkpoint_zero_timestamp_wit2 c)) of
                     None \<Rightarrow> Err (CheckpointZeroInTheFuture (checkpoint_zero_timestamp c))
                   | Some post \<Rightarrow>
                       (case epoch_div post (checkpoints_period_wit2 c) of
                          Err err \<Rightarrow> Err err
                        | Panic \<Rightarrow> Panic
                        | Ok epochs_post_v2 \<Rightarrow> Ok (epochs_pre_v2 + epochs_post_v2)))))
      else
        (case u32_try_from (i64_wrap (timestamp - checkpoint_zero_timestamp c)) of
           None \<Rightarrow> Err (CheckpointZeroInTheFuture (checkpoint_zero_timestamp c))
         | Some x \<Rightarrow> epoch_div x (checkpoints_period c)))"

definition epoch_timestamp ::
  "epoch_constants \<Rightarrow> epoch \<Rightarrow> (epoch_calculation_error, int \<times> bool) outcome"
where
  "epoch_timestamp c e =
     (case checked_mul (ucast (checkpoints_period c)) e of
        None \<Rightarrow> Err Overflow
      | Some x \<Rightarrow>
          (case i64_checked_add (uint x) (checkpoint_zero_timestamp c) of
             None \<Rightarrow> Err Overflow
           | Some ts \<Rightarrow>
               if ts \<ge> checkpoint_zero_timestamp_wit2 c then
                 (if checkpoints_period c = 0 then Panic
                  else
                    case u32_try_from
                           (i64_div (i64_wrap (checkpoint_zero_timestamp_wit2 c - checkpoint_zero_timestamp c))
                                    (uint (checkpoints_period c))) of
                      None \<Rightarrow> Err Overflow
                    | Some epochs_pre_v2 \<Rightarrow>
                        Ok (i64_wrap (checkpoint_zero_timestamp_wit2 c
                              + uint ((e - epochs_pre_v2) * ucast (checkpoints_period_wit2 c))), True))
               else Ok (ts, False)))"

definition block_mining_timestamp ::
  "epoch_constants \<Rightarrow> epoch \<Rightarrow> (epoch_calculation_error, int) outcome"
where
  "block_mining_timestamp c e =
     (case epoch_timestamp c e of
        Err err \<Rightarrow> Err err
      | Panic \<Rightarrow> Panic
      | Ok (start, in_v2) \<Rightarrow>
          let period = (if in_v2 then checkpoints_period_wit2 c else checkpoints_period c);
              seconds_before_next_epoch = period div 2
          in case i64_checked_add start (uint (period - seconds_before_next_epoch)) of
               None \<Rightarrow> Err Overflow
             | Some t \<Rightarrow> Ok t)"

definition get_epoch_period :: "epoch_constants \<Rightarrow> epoch \<Rightarrow> (epoch_calculation_error, u16) outcome" where
  "get_epoch_period c e =
     (case epoch_timestamp c e of
        Err err \<Rightarrow> Err err
      | Panic \<Rightarrow> Panic
      | Ok (_, in_v2) \<Rightarrow> Ok (if in_v2 then checkpoints_period_wit2 c else checkpoints_period c))"

definition set_values_for_wit2 ::
  "epoch_constants \<Rightarrow> u16 \<Rightarrow> epoch \<Rightarrow> (epoch_calculation_error, unit) outcome \<times> epoch_constants"
where
  "set_values_for_wit2 c period e =
     (let c1 = c\<lparr>checkpoints_period_wit2 := period\<rparr>
      in case epoch_timestamp c1 e of
           Ok (timestamp, _) \<Rightarrow> (Ok (), c1\<lparr>checkpoint_zero_timestamp_wit2 := timestamp\<rparr>)
         | Err err \<Rightarrow> (Err err, c1)
         | Panic \<Rightarrow> (Panic, c1))"

subsection \<open>Protocol versions\<close>

datatype protocol_version = V1_7 | V1_8 | V2_0

fun version_le :: "protocol_version \<Rightarrow> protocol_version \<Rightarrow> bool" where
  "version_le V1_7 _ = True"
| "version_le V1_8 v = (v \<noteq> V1_7)"
| "version_le V2_0 v = (v = V2_0)"

instantiation protocol_version :: linorder
begin

definition less_eq_protocol_version :: "protocol_version \<Rightarrow> protocol_version \<Rightarrow> bool" where
  "less_eq_protocol_version = version_le"

definition less_protocol_version :: "protocol_version \<Rightarrow> protocol_version \<Rightarrow> bool" where
  "less_protocol_version v w = (v \<le> w \<and> v \<noteq> w)"

instance
proof
  fix x y z :: protocol_version
  show "x \<le> x" by (cases x) (simp_all add: less_eq_protocol_version_def)
  show "x \<le> y \<Longrightarrow> y \<le> z \<Longrightarrow> x \<le> z" by (cases x; cases y; cases z) (simp_all add: less_eq_protocol_version_def)
  show "x \<le> y \<Longrightarrow> y \<le> x \<Longrightarrow> x = y" by (cases x; cases y) (simp_all add: less_eq_protocol_version_def)
  show "x \<le> y \<or> y \<le> x" by (cases x; cases y) (simp_all add: less_eq_protocol_version_def)
  show "(x < y) = (x \<le> y \<and> \<not> y \<le> x)" by (cases x; cases y) (simp_all add: less_protocol_version_def less_eq_protocol_version_def)
qed

end

lemma version_le_simps [simp]:
  "V1_7 \<le> v"
  "V1_8 \<le> v \<longleftrightarrow> v \<noteq> V1_7"
  "V2_0 \<le> v \<longleftrightarrow> v = V2_0"
  by (simp_all add: less_eq_protocol_version_def)

fun version_next :: "protocol_version \<Rightarrow> protocol_version" where
  "version_next V1_7 = V1_8"
| "version_next _ = V2_0"

fun version_prev :: "protocol_version \<Rightarrow> protocol_version" where
  "version_prev V2_0 = V1_8"
| "version_prev _ = V1_7"

record versions_map =
  efv :: "(protocol_version \<times> epoch) list"
  vfe :: "(epoch \<times> protocol_version) list"

definition versions_register :: "versions_map \<Rightarrow> epoch \<Rightarrow> protocol_version \<Rightarrow> versions_map" where
  "versions_register m e v = \<lparr>efv = AList.update v e (efv m), vfe = bt_insert e v (vfe m)\<rparr>"

definition version_for_epoch :: "versions_map \<Rightarrow> epoch \<Rightarrow> protocol_version" where
  "version_for_epoch m queried =
     (case find (\<lambda>(e, _). e \<le> queried) (rev (vfe m)) of Some (_, v) \<Rightarrow> v | None \<Rightarrow> V1_7)"

definition try_get_activation_epoch :: "versions_map \<Rightarrow> protocol_version \<Rightarrow> epoch option" where
  "try_get_activation_epoch m v = map_of (efv m) v"

definition get_activation_epoch :: "versions_map \<Rightarrow> protocol_version \<Rightarrow> epoch" where
  "get_activation_epoch m v = (case try_get_activation_epoch m v of Some e \<Rightarrow> e | None \<Rightarrow> - 1)"

record protocol_info =
  current_version :: protocol_version
  all_versions :: versions_map
  all_checkpoints_periods :: "(protocol_version \<times> u16) list"

definition default_protocol_info :: protocol_info where
  "default_protocol_info =
     \<lparr>current_version = V1_7, all_versions = \<lparr>efv = [], vfe = []\<rparr>, all_checkpoints_periods = []\<rparr>"

definition protocol_register ::
  "protocol_info \<Rightarrow> epoch \<Rightarrow> protocol_version \<Rightarrow> u16 \<Rightarrow> protocol_info"
where
  "protocol_register p e v period =
     p\<lparr>all_versions := versions_register (all_versions p) e v,
       all_checkpoints_periods := AList.update v period (all_checkpoints_periods p)\<rparr>"

definition clear_versions :: "protocol_info \<Rightarrow> protocol_info" where
  "clear_versions p = \<lparr>current_version = V1_7, all_versions = \<lparr>efv = [], vfe = []\<rparr>,
                       all_checkpoints_periods = []\<rparr>"

text \<open>
  The timestamp at which a version is activated, derived from the activation of the previous
  version: the period of that version times the epochs it was in force.
\<close>

definition activation_from ::
  "protocol_info \<Rightarrow> u16 \<Rightarrow> protocol_version \<Rightarrow> int option \<Rightarrow> int option"
where
  "activation_from p zero_period v previous_activation =
     (let prev = version_prev v;
          period = (if prev = V1_7 then Some zero_period else map_of (all_checkpoints_periods p) prev)
      in case period of
           None \<Rightarrow> None
         | Some per \<Rightarrow>
             (case try_get_activation_epoch (all_versions p) v of
                None \<Rightarrow> None
              | Some e \<Rightarrow>
                  let span = saturating_sub e
                        (case try_get_activation_epoch (all_versions p) prev of Some e' \<Rightarrow> e' | None \<Rightarrow> 0)
                  in map_option (\<lambda>t. i64_wrap (t + uint (span * ucast per))) previous_activation))"

function derive_activation_timestamp ::
  "protocol_info \<Rightarrow> protocol_version \<Rightarrow> int \<Rightarrow> u16 \<Rightarrow> int option"
where
  "derive_activation_timestamp p V1_7 zero_timestamp zero_period = Some zero_timestamp"
| "derive_activation_timestamp p V1_8 zero_timestamp zero_period =
     activation_from p zero_period V1_8
       (derive_activation_timestamp p (version_prev V1_8) zero_timestamp zero_period)"
| "derive_activation_timestamp p V2_0 zero_timestamp zero_period =
     activation_from p zero_period V2_0
       (derive_activation_timestamp p (version_prev V2_0) zero_timestamp zero_period)"
  by pat_completeness auto
termination
  by (relation "measure (\<lambda>(_, v, _, _). case v of V1_7 \<Rightarrow> 0 | V1_8 \<Rightarrow> 1 | V2_0 \<Rightarrow> 2)") auto

definition get_protocol_version :: "protocol_info \<Rightarrow> epoch option \<Rightarrow> protocol_version" where
  "get_protocol_version p e =
     (case e of Some e' \<Rightarrow> version_for_epoch (all_versions p) e' | None \<Rightarrow> current_version p)"

definition set_protocol_version :: "protocol_info \<Rightarrow> protocol_version \<Rightarrow> protocol_info" where
  "set_protocol_version p v = p\<lparr>current_version := v\<rparr>"

definition refresh_protocol_version :: "protocol_info \<Rightarrow> epoch \<Rightarrow> protocol_info" where
  "refresh_protocol_version p e = set_protocol_version p (get_protocol_version p (Some e))"

definition get_protocol_version_activation_epoch :: "protocol_info \<Rightarrow> protocol_version \<Rightarrow> epoch" where
  "get_protocol_version_activation_epoch p v = get_activation_epoch (all_versions p) v"

definition get_protocol_version_period :: "protocol_info \<Rightarrow> protocol_version \<Rightarrow> u16" where
  "get_protocol_version_period p v =
     (case map_of (all_checkpoints_periods p) v of Some period \<Rightarrow> period | None \<Rightarrow> - 1)"

section \<open>Epochs and timestamps\<close>

lemma i64_wrap_id: "- (2 ^ 63) \<le> x \<Longrightarrow> x < 2 ^ 63 \<Longrightarrow> i64_wrap x = x"
  by (simp add: i64_wrap_def)

lemma i64_wrap_small: "0 \<le> x \<Longrightarrow> x < 2 ^ 32 \<Longrightarrow> i64_wrap x = x"
  by (rule i64_wrap_id) simp_all

lemma u32_try_from_Some: "0 \<le> x \<Longrightarrow> x < 2 ^ 32 \<Longrightarrow> u32_try_from x = Some (of_int x)"
  by (simp add: u32_try_from_def)

lemma uint_of_int32: "0 \<le> x \<Longrightarrow> x < 2 ^ 32 \<Longrightarrow> uint (of_int x :: u32) = x"
  by (simp add: unsigned_of_int take_bit_int_eq_self)

lemma uint_up32: "uint (ucast (w :: u16) :: u32) = uint w"
  using uint_lt2p [of w] by (simp add: unsigned_ucast_eq take_bit_int_eq_self)

lemma uint_mult_nowrap32: "uint a * uint b < 2 ^ 32 \<Longrightarrow> uint (a * b :: u32) = uint a * uint b"
  by (simp add: uint_word_ariths(3))

lemma uint_add_nowrap32: "uint a + uint b < 2 ^ 32 \<Longrightarrow> uint (a + b :: u32) = uint a + uint b"
  by (simp add: uint_word_ariths(1))

lemma checked_mul_uint:
  "checked_mul a b = (if uint a * uint b < 2 ^ 32 then Some (a * b :: u32) else None)"
proof -
  have "(unat a * unat b < 2 ^ 32) = (int (unat a * unat b) < 2 ^ 32)"
    by (metis of_nat_less_numeral_power_cancel_iff of_nat_numeral of_nat_power)
  then show ?thesis by (simp add: checked_mul_def)
qed

text \<open>The constants after a fork at epoch \<open>k\<close>.\<close>

definition forked_at :: "epoch_constants \<Rightarrow> epoch \<Rightarrow> bool" where
  "forked_at c k \<longleftrightarrow> checkpoints_period c \<noteq> 0 \<and> checkpoints_period_wit2 c \<noteq> 0
     \<and> \<bar>checkpoint_zero_timestamp c\<bar> \<le> 2 ^ 62
     \<and> uint (checkpoints_period c) * uint k < 2 ^ 32
     \<and> checkpoint_zero_timestamp_wit2 c
         = checkpoint_zero_timestamp c + uint (checkpoints_period c) * uint k"

lemma forked_positive:
  assumes "forked_at c k"
  shows "0 < uint (checkpoints_period c)" and "0 < uint (checkpoints_period_wit2 c)"
  using assms by (auto simp: forked_at_def order.strict_iff_order uint_0_iff)

lemma of_int_div32:
  "0 \<le> x \<Longrightarrow> x < 2 ^ 32 \<Longrightarrow> of_int x div (ucast (p :: u16) :: u32) = of_int (x div uint p)"
  by (simp add: word_div_def uint_of_int32 uint_up32)

lemma epoch_at_v1:
  assumes f: "forked_at c k" and t: "checkpoint_zero_timestamp c \<le> t" "t < checkpoint_zero_timestamp_wit2 c"
  shows "epoch_at c t = Ok (of_int ((t - checkpoint_zero_timestamp c) div uint (checkpoints_period c)))"
proof -
  let ?x = "t - checkpoint_zero_timestamp c"
  have x: "0 \<le> ?x" "?x < 2 ^ 32" using f t by (simp_all add: forked_at_def)
  then have "u32_try_from (i64_wrap ?x) = Some (of_int ?x)"
    by (simp add: i64_wrap_id u32_try_from_Some)
  then show ?thesis
    using f t by (simp add: epoch_at_def epoch_div_def forked_at_def of_int_div32 [OF x, symmetric] del: of_int_diff)
qed

lemma epoch_at_v2:
  assumes f: "forked_at c k" and t: "checkpoint_zero_timestamp_wit2 c \<le> t"
    "t - checkpoint_zero_timestamp_wit2 c < 2 ^ 32"
  shows "epoch_at c t
    = Ok (k + of_int ((t - checkpoint_zero_timestamp_wit2 c) div uint (checkpoints_period_wit2 c)))"
proof -
  let ?w = "checkpoint_zero_timestamp_wit2 c - checkpoint_zero_timestamp c"
  let ?x = "t - checkpoint_zero_timestamp_wit2 c"
  have w: "?w = uint (checkpoints_period c) * uint k" "?w < 2 ^ 32" "0 \<le> ?w"
    using f by (simp_all add: forked_at_def)
  have "u32_try_from (i64_wrap ?w) = Some (of_int ?w)" "u32_try_from (i64_wrap ?x) = Some (of_int ?x)"
    using w(2,3) t by (simp_all add: i64_wrap_id u32_try_from_Some)
  moreover have "of_int ?w div (ucast (checkpoints_period c) :: u32) = k"
  proof -
    have "of_int ?w div (ucast (checkpoints_period c) :: u32) = of_int (?w div uint (checkpoints_period c))"
      by (rule of_int_div32 [OF w(3,2)])
    also have "?w div uint (checkpoints_period c) = uint k"
      using forked_positive(1) [OF f] by (simp add: w(1))
    finally show ?thesis by simp
  qed
  moreover have "of_int ?x div (ucast (checkpoints_period_wit2 c) :: u32)
      = of_int (?x div uint (checkpoints_period_wit2 c))"
    using t by (intro of_int_div32) simp_all
  ultimately show ?thesis
    using f t by (simp add: epoch_at_def epoch_div_def forked_at_def del: of_int_diff of_int_mult)
qed

lemma epoch_timestamp_forked:
  assumes f: "forked_at c k" and e: "uint (checkpoints_period c) * uint e < 2 ^ 32"
    and e2: "uint (checkpoints_period_wit2 c) * uint e < 2 ^ 32"
  shows "epoch_timestamp c e =
    Ok (if k \<le> e
        then (checkpoint_zero_timestamp_wit2 c + (uint e - uint k) * uint (checkpoints_period_wit2 c), True)
        else (checkpoint_zero_timestamp c + uint (checkpoints_period c) * uint e, False))"
proof -
  let ?p = "uint (checkpoints_period c)" and ?z = "checkpoint_zero_timestamp c"
  let ?ts = "?p * uint e + ?z"
  have mul: "checked_mul (ucast (checkpoints_period c)) e = Some (ucast (checkpoints_period c) * e)"
      "uint (ucast (checkpoints_period c) * e :: u32) = ?p * uint e"
    using e by (simp_all add: checked_mul_uint uint_up32 uint_mult_nowrap32)
  have z: "- 4611686018427387904 \<le> ?z" "?z \<le> 4611686018427387904"
    using f by (simp_all add: forked_at_def abs_le_iff)
  have "0 \<le> ?p * uint e" "?p * uint e < 4294967296" using e by simp_all
  then have "- 9223372036854775808 \<le> ?ts" "?ts < 9223372036854775808"
    using z by linarith+
  then have add: "i64_checked_add (?p * uint e) ?z = Some ?ts"
    by (simp add: i64_checked_add_def)
  have split: "checkpoint_zero_timestamp_wit2 c \<le> ?ts \<longleftrightarrow> k \<le> e"
    using f forked_positive(1) [OF f] by (simp add: forked_at_def word_le_def)
  have w: "i64_wrap (checkpoint_zero_timestamp_wit2 c - ?z) = ?p * uint k"
    using f by (simp add: forked_at_def i64_wrap_small)
  have pre: "u32_try_from (i64_div (?p * uint k) ?p) = Some k"
    using forked_positive(1) [OF f] uint_lt2p [of k]
    by (simp add: i64_div_def u32_try_from_def mult_less_0_iff)
  show ?thesis
  proof (cases "k \<le> e")
    case True
    then have le: "uint k \<le> uint e" by (simp add: word_le_def)
    let ?n = "(uint e - uint k) * uint (checkpoints_period_wit2 c)"
    have n: "0 \<le> ?n" "?n < 2 ^ 32"
    proof -
      have "?n \<le> uint e * uint (checkpoints_period_wit2 c)"
        by (rule mult_right_mono) simp_all
      then show "?n < 2 ^ 32" using e2 by (simp add: mult.commute)
    qed (use le in simp)
    have "uint (e - k) = uint e - uint k" using True by (rule uint_minus_simple_alt [THEN iffD1])
    then have "uint ((e - k) * ucast (checkpoints_period_wit2 c)) = ?n"
      using n by (simp add: uint_mult_nowrap32 uint_up32)
    moreover have "i64_wrap (checkpoint_zero_timestamp_wit2 c + ?n) = checkpoint_zero_timestamp_wit2 c + ?n"
    proof (rule i64_wrap_id)
      have "0 \<le> ?p * uint k" "?p * uint k < 4294967296" "?n < 4294967296"
          and wit2: "checkpoint_zero_timestamp_wit2 c = ?z + ?p * uint k"
        using f n(2) by (simp_all add: forked_at_def)
      then have "- 9223372036854775808 \<le> checkpoint_zero_timestamp_wit2 c + ?n"
          "checkpoint_zero_timestamp_wit2 c + ?n < 9223372036854775808"
        using z n(1) unfolding wit2 by linarith+
      then show "- (2 ^ 63) \<le> checkpoint_zero_timestamp_wit2 c + ?n"
          "checkpoint_zero_timestamp_wit2 c + ?n < 2 ^ 63" by simp_all
    qed
    moreover have "checkpoints_period c \<noteq> 0" using f by (simp add: forked_at_def)
    ultimately show ?thesis
      using True by (simp add: epoch_timestamp_def mul add split w pre)
  next
    case False
    then show ?thesis by (simp add: epoch_timestamp_def mul add split)
  qed
qed

lemma set_values_forked:
  assumes "checkpoint_zero_timestamp_wit2 c = I64_MAX" and "\<bar>checkpoint_zero_timestamp c\<bar> \<le> 2 ^ 62"
    and "checkpoints_period c \<noteq> 0" and "period \<noteq> 0"
    and run: "set_values_for_wit2 c period k = (Ok (), c')"
  shows "forked_at c' k" and "checkpoints_period c' = checkpoints_period c"
    and "checkpoints_period_wit2 c' = period"
    and "checkpoint_zero_timestamp c' = checkpoint_zero_timestamp c"
proof -
  let ?p = "uint (checkpoints_period c)" and ?z = "checkpoint_zero_timestamp c"
  let ?c1 = "c\<lparr>checkpoints_period_wit2 := period\<rparr>"
  have fits: "?p * uint k < 2 ^ 32"
    using run by (auto simp: set_values_for_wit2_def epoch_timestamp_def checked_mul_uint uint_up32 Let_def
        split: if_splits)
  then have mul: "checked_mul (ucast (checkpoints_period c)) k = Some (ucast (checkpoints_period c) * k)"
      "uint (ucast (checkpoints_period c) * k :: u32) = ?p * uint k"
    by (simp_all add: checked_mul_uint uint_up32 uint_mult_nowrap32)
  have z: "- 4611686018427387904 \<le> ?z" "?z \<le> 4611686018427387904"
    using assms(2) by (simp_all add: abs_le_iff)
  have "0 \<le> ?p * uint k" "?p * uint k < 4294967296" using fits by simp_all
  then have "- 9223372036854775808 \<le> ?p * uint k + ?z" "?p * uint k + ?z < 9223372036854775807"
    using z by linarith+
  then have "i64_checked_add (?p * uint k) ?z = Some (?p * uint k + ?z)" "?p * uint k + ?z < I64_MAX"
    by (simp_all add: i64_checked_add_def I64_MAX_def)
  then have "epoch_timestamp ?c1 k = Ok (?p * uint k + ?z, False)"
    using assms(1) by (simp add: epoch_timestamp_def mul)
  then have c': "c' = ?c1\<lparr>checkpoint_zero_timestamp_wit2 := ?p * uint k + ?z\<rparr>"
    using run by (simp add: set_values_for_wit2_def Let_def)
  then show "forked_at c' k"
    using assms(2-4) fits by (simp add: forked_at_def)
  show "checkpoints_period c' = checkpoints_period c" "checkpoints_period_wit2 c' = period"
      "checkpoint_zero_timestamp c' = ?z"
    by (simp_all add: c')
qed

text \<open>The epoch of a timestamp, from the start of the epoch and its period.\<close>

lemma div_between:
  fixes n p t :: int
  assumes "0 < p" and "p * n \<le> t" and "t < p * n + p"
  shows "t div p = n"
  using assms by (intro int_div_pos_eq [of _ _ _ "t - p * n"]) simp_all

lemma epoch_at_after_fork:
  assumes f: "forked_at c k" and "k \<le> e"
    and fits: "uint (checkpoints_period_wit2 c) * (uint e + 1) < 2 ^ 32"
    and t: "checkpoint_zero_timestamp_wit2 c + (uint e - uint k) * uint (checkpoints_period_wit2 c) \<le> t"
      "t < checkpoint_zero_timestamp_wit2 c + (uint e - uint k) * uint (checkpoints_period_wit2 c)
             + uint (checkpoints_period_wit2 c)"
  shows "epoch_at c t = Ok e"
proof -
  let ?p = "uint (checkpoints_period_wit2 c)" and ?w = "checkpoint_zero_timestamp_wit2 c"
  have pos: "0 < ?p" using forked_positive [OF f] by simp
  have n: "0 \<le> (uint e - uint k) * ?p" using \<open>k \<le> e\<close> by (simp add: word_le_def)
  have "(uint e - uint k) * ?p + ?p \<le> ?p * (uint e + 1)" using pos by (simp add: algebra_simps)
  then have "epoch_at c t = Ok (k + of_int ((t - ?w) div ?p))"
    using epoch_at_v2 [OF f, of t] t n fits by simp
  also have "(t - ?w) div ?p = uint e - uint k"
    using t pos by (intro div_between) (simp_all add: algebra_simps)
  finally show ?thesis by simp
qed

lemma epoch_at_before_fork:
  assumes f: "forked_at c k" and "e < k"
    and t: "checkpoint_zero_timestamp c + uint (checkpoints_period c) * uint e \<le> t"
      "t < checkpoint_zero_timestamp c + uint (checkpoints_period c) * uint e + uint (checkpoints_period c)"
  shows "epoch_at c t = Ok e"
proof -
  let ?p = "uint (checkpoints_period c)" and ?z = "checkpoint_zero_timestamp c"
  have pos: "0 < ?p" using forked_positive [OF f] by simp
  have "?p * (uint e + 1) \<le> ?p * uint k" using \<open>e < k\<close> pos by (simp add: word_less_def)
  then have "t < checkpoint_zero_timestamp_wit2 c"
    using t(2) f by (simp add: forked_at_def distrib_left)
  moreover have "0 \<le> ?p * uint e" by simp
  then have "?z \<le> t" using t(1) by linarith
  ultimately have "epoch_at c t = Ok (of_int ((t - ?z) div ?p))"
    using epoch_at_v1 [OF f, of t] by simp
  also have "(t - ?z) div ?p = uint e"
    using t pos by (intro div_between) simp_all
  finally show ?thesis by simp
qed

section \<open>Protocol versions\<close>

definition register_all :: "(epoch \<times> protocol_version) list \<Rightarrow> versions_map" where
  "register_all vs = fold (\<lambda>(e, v) m. versions_register m e v) vs \<lparr>efv = [], vfe = []\<rparr>"

definition versions_ordered :: "(epoch \<times> protocol_version) list \<Rightarrow> bool" where
  "versions_ordered vs \<longleftrightarrow> sorted_wrt (\<lambda>(e, v) (e', v'). e < e' \<and> v < v') vs"

lemma bt_insert_last: "\<forall>p \<in> set m. fst p < k \<Longrightarrow> bt_insert k v m = m @ [(k, v)]"
  by (induction k v m rule: bt_insert.induct) auto

lemma register_all_snoc:
  "register_all (vs @ [(e, v)]) = versions_register (register_all vs) e v"
  by (simp add: register_all_def)

lemma vfe_register_all: "versions_ordered vs \<Longrightarrow> vfe (register_all vs) = vs"
proof (induction vs rule: rev_induct)
  case (snoc x vs)
  obtain e v where x: "x = (e, v)" by fastforce
  have "versions_ordered vs" "\<forall>p \<in> set vs. fst p < e"
    using snoc.prems by (auto simp: versions_ordered_def sorted_wrt_append x)
  then show ?case
    using snoc.IH by (simp add: x register_all_snoc versions_register_def bt_insert_last)
qed (simp add: register_all_def)

lemma efv_register_all:
  "versions_ordered vs \<Longrightarrow> (e, v) \<in> set vs \<Longrightarrow> map_of (efv (register_all vs)) v = Some e"
proof (induction vs rule: rev_induct)
  case (snoc x vs)
  obtain e' v' where x: "x = (e', v')" by fastforce
  have ord: "versions_ordered vs" "\<forall>p \<in> set vs. snd p < v'"
    using snoc.prems(1) by (auto simp: versions_ordered_def sorted_wrt_append x)
  show ?case
  proof (cases "(e, v) = (e', v')")
    case True
    then show ?thesis by (simp add: x register_all_snoc versions_register_def update_conv')
  next
    case False
    then have "(e, v) \<in> set vs" using snoc.prems(2) by (auto simp: x)
    moreover from this have "v \<noteq> v'" using ord(2) by force
    ultimately show ?thesis
      using snoc.IH [OF ord(1)] by (simp add: x register_all_snoc versions_register_def update_conv')
  qed
qed simp

lemma find_Some_in: "find P xs = Some x \<Longrightarrow> x \<in> set xs \<and> P x"
  by (induction xs) (auto split: if_splits)

lemma find_rev_ordered:
  assumes "versions_ordered vs" and "find P (rev vs) = Some x" and "y \<in> set vs" and "P y"
  shows "y = x \<or> fst y < fst x \<and> snd y < snd x"
  using assms
proof (induction vs rule: rev_induct)
  case (snoc z vs)
  then show ?case
    by (cases "P z") (fastforce simp: versions_ordered_def sorted_wrt_append)+
qed simp

section \<open>Properties\<close>

text \<open>
  Claim C14. Epochs partition time, also across the fork that changes the period. After the values
  of the fork are set, the start of an epoch and the start of the next are one period of that
  epoch apart, and every timestamp from the start of an epoch up to the start of the next is
  mapped back to that epoch. The period is the new one exactly from the epoch of the fork on.
\<close>

theorem epoch_timestamp_roundtrip:
  assumes "checkpoint_zero_timestamp_wit2 c = I64_MAX" and "\<bar>checkpoint_zero_timestamp c\<bar> \<le> 2 ^ 62"
    and "checkpoints_period c \<noteq> 0" and "period \<noteq> 0"
    and run: "set_values_for_wit2 c period k = (Ok (), c')"
    and fits: "uint (checkpoints_period c) * (uint e + 1) < 2 ^ 32" "uint period * (uint e + 1) < 2 ^ 32"
  shows "\<exists>start. epoch_timestamp c' e = Ok (start, k \<le> e)
    \<and> get_epoch_period c' e = Ok (if k \<le> e then period else checkpoints_period c)
    \<and> (\<exists>v2. epoch_timestamp c' (e + 1)
         = Ok (start + uint (if k \<le> e then period else checkpoints_period c), v2))
    \<and> (\<forall>t. start \<le> t \<and> t < start + uint (if k \<le> e then period else checkpoints_period c)
         \<longrightarrow> epoch_at c' t = Ok e)"
proof -
  note f = set_values_forked [OF assms(1-5)]
  let ?p = "uint (checkpoints_period c)" and ?p2 = "uint period"
  let ?z = "checkpoint_zero_timestamp c'" and ?w = "checkpoint_zero_timestamp_wit2 c'"
  have pos: "0 < ?p" "0 < ?p2" using forked_positive [OF f(1)] by (simp_all add: f)
  have w: "?w = ?z + ?p * uint k" using f(1) by (simp add: forked_at_def f)
  have "1 * (uint e + 1) \<le> ?p * (uint e + 1)" using pos(1) by (intro mult_right_mono) simp_all
  then have "1 * (uint e + 1) < 2 ^ 32" using fits(1) by (rule order.strict_trans1)
  then have "uint e + 1 < 2 ^ 32" by simp
  then have suc: "uint (e + 1) = uint e + 1" by (simp add: uint_add_nowrap32)
  have mono: "?p * uint e < 2 ^ 32" "?p2 * uint e < 2 ^ 32"
    using fits pos by (simp_all add: distrib_left)
  note ts = epoch_timestamp_forked [OF f(1), unfolded f(2,3)]
  have e: "epoch_timestamp c' e = Ok (if k \<le> e then (?w + (uint e - uint k) * ?p2, True)
      else (?z + ?p * uint e, False))"
    by (rule ts [OF mono])
  have e1: "epoch_timestamp c' (e + 1) = Ok (if k \<le> e + 1 then (?w + (uint e + 1 - uint k) * ?p2, True)
      else (?z + ?p * (uint e + 1), False))"
    using ts [of "e + 1"] fits by (simp add: suc)
  show ?thesis
  proof (cases "k \<le> e")
    case True
    then have "k \<le> e + 1" by (simp add: word_le_def suc)
    moreover have "epoch_at c' t = Ok e"
      if "?w + (uint e - uint k) * ?p2 \<le> t" "t < ?w + (uint e - uint k) * ?p2 + ?p2" for t
      using epoch_at_after_fork [OF f(1) True, of t] that fits(2) by (simp add: f)
    moreover have "(uint e + 1 - uint k) * ?p2 = (uint e - uint k) * ?p2 + ?p2"
      by (simp add: algebra_simps)
    ultimately show ?thesis
      using True e e1 by (auto simp: get_epoch_period_def f add.assoc)
  next
    case False
    then have lt: "uint e < uint k" by (simp add: word_less_def not_le)
    have "epoch_at c' t = Ok e" if "?z + ?p * uint e \<le> t" "t < ?z + ?p * uint e + ?p" for t
      using epoch_at_before_fork [OF f(1), of e t] False that by (simp add: f)
    moreover have "?w + (uint e + 1 - uint k) * ?p2 = ?z + ?p * uint e + ?p" if "k \<le> e + 1"
    proof -
      have "uint k = uint e + 1" using that lt by (simp add: word_le_def suc)
      then show ?thesis by (simp add: w distrib_left)
    qed
    ultimately show ?thesis
      using False e e1 by (auto simp: get_epoch_period_def f distrib_left add.assoc)
  qed
qed

theorem epoch_timestamp_roundtrip_witness:
  "\<exists>c'. set_values_for_wit2 \<lparr>checkpoint_zero_timestamp = 1000, checkpoints_period = 45,
        checkpoint_zero_timestamp_wit2 = I64_MAX, checkpoints_period_wit2 = 1\<rparr> 20 100 = (Ok (), c')
     \<and> epoch_at c' 5540 = Ok 102 \<and> epoch_at c' 5559 = Ok 102"
proof -
  let ?c = "\<lparr>checkpoint_zero_timestamp = 1000, checkpoints_period = 45,
        checkpoint_zero_timestamp_wit2 = I64_MAX, checkpoints_period_wit2 = 1\<rparr>"
  let ?c' = "\<lparr>checkpoint_zero_timestamp = 1000, checkpoints_period = 45,
        checkpoint_zero_timestamp_wit2 = 5500, checkpoints_period_wit2 = 20\<rparr>"
  have run: "set_values_for_wit2 ?c 20 100 = (Ok (), ?c')"
    by (simp add: set_values_for_wit2_def epoch_timestamp_def checked_mul_def i64_checked_add_def I64_MAX_def)
  have start: "epoch_timestamp ?c' 102 = Ok (5540, True)"
    by (simp add: epoch_timestamp_def checked_mul_def i64_checked_add_def i64_div_def i64_wrap_def u32_try_from_def)
  show ?thesis
    using epoch_timestamp_roundtrip [OF _ _ _ _ run, of 102] run start by auto
qed

text \<open>
  Claim C26. The two maps of the version registry agree: after registering versions in order at
  increasing epochs, a version is in force at an epoch (the version of that epoch is at least it)
  exactly from its activation epoch on.
\<close>

theorem version_in_force_from_activation:
  assumes ord: "versions_ordered vs" and v: "(e, v) \<in> set vs" "v \<noteq> V1_7"
  shows "v \<le> version_for_epoch (register_all vs) q
    \<longleftrightarrow> get_activation_epoch (register_all vs) v \<le> q"
proof -
  have act: "get_activation_epoch (register_all vs) v = e"
    using efv_register_all [OF ord v(1)]
    by (simp add: get_activation_epoch_def try_get_activation_epoch_def)
  show ?thesis
  proof (cases "find (\<lambda>(e, _). e \<le> q) (rev vs)")
    case None
    then have "\<not> e \<le> q" using v(1) by (auto simp: find_None_iff)
    moreover have "\<not> v \<le> V1_7" using v(2) by (cases v) simp_all
    ultimately show ?thesis
      using None by (simp add: version_for_epoch_def vfe_register_all [OF ord] act)
  next
    case (Some x)
    obtain e' v' where x: "x = (e', v')" by fastforce
    have in_force: "e' \<le> q" "(e', v') \<in> set vs"
      using find_Some_in [OF Some] by (simp_all add: x)
    have "e \<le> q \<longleftrightarrow> v \<le> v'"
    proof
      assume "e \<le> q"
      then show "v \<le> v'" using find_rev_ordered [OF ord Some v(1)] by (auto simp: x)
    next
      assume le: "v \<le> v'"
      have "\<not> e' < e"
      proof
        assume "e' < e"
        moreover have "(e, v) = (e', v') \<or> e < e' \<and> v < v' \<or> e' < e \<and> v' < v"
          using ord v(1) in_force(2) unfolding versions_ordered_def
          by (induction vs) fastforce+
        ultimately show False using le by auto
      qed
      then show "e \<le> q" using in_force(1) by simp
    qed
    then show ?thesis
      using Some by (simp add: version_for_epoch_def vfe_register_all [OF ord] act x)
  qed
qed

theorem version_in_force_from_activation_witness:
  "version_for_epoch (register_all [(0, V1_7), (100, V1_8), (200, V2_0)]) 150 = V1_8
   \<and> V1_8 \<le> version_for_epoch (register_all [(0, V1_7), (100, V1_8), (200, V2_0)]) 100"
proof -
  have ord: "versions_ordered [(0, V1_7), (100, V1_8), (200, V2_0)]"
    by (simp add: versions_ordered_def less_protocol_version_def)
  have "get_activation_epoch (register_all [(0, V1_7), (100, V1_8), (200, V2_0)]) V1_8 = 100"
    by (simp add: register_all_def versions_register_def get_activation_epoch_def try_get_activation_epoch_def)
  then show ?thesis
    using version_in_force_from_activation [OF ord, of 100 V1_8 100]
    by (simp add: register_all_def versions_register_def version_for_epoch_def)
qed

end
