(* ===== verification/Transactions.thy ===== *)
theory Transactions
  imports Stake
begin

text \<open>
  Transactions and data request outputs (transaction.rs and chain/mod.rs): the data types, the
  weights that enforce the block size limit, the values, the mint transaction with an external
  address, and the check of the fields of a retrieval. The memoized hash of a transaction body is
  not a field: it caches a function of the other fields, which the components that need it take
  as an argument.
\<close>

section \<open>Definitions\<close>

subsection \<open>Constants\<close>

definition INPUT_SIZE :: u32 where "INPUT_SIZE = 133"
definition OUTPUT_SIZE :: u32 where "OUTPUT_SIZE = 36"
definition STAKE_OUTPUT_WEIGHT :: u32 where "STAKE_OUTPUT_WEIGHT = 105"
definition UNSTAKE_TRANSACTION_WEIGHT :: u32 where "UNSTAKE_TRANSACTION_WEIGHT = 153"
definition COMMIT_WEIGHT :: u32 where "COMMIT_WEIGHT = 400"
definition REVEAL_WEIGHT :: u32 where "REVEAL_WEIGHT = 200"
definition TALLY_WEIGHT :: u32 where "TALLY_WEIGHT = 100"
definition ALPHA :: u32 where "ALPHA = 1"
definition BETA :: u32 where "BETA = 1"
definition GAMMA :: u32 where "GAMMA = 10"

lemmas weight_constants =
  INPUT_SIZE_def OUTPUT_SIZE_def STAKE_OUTPUT_WEIGHT_def UNSTAKE_TRANSACTION_WEIGHT_def
  COMMIT_WEIGHT_def REVEAL_WEIGHT_def TALLY_WEIGHT_def ALPHA_def BETA_def GAMMA_def

text \<open>\<^verbatim>\<open>u32::try_from(len).unwrap_or(u32::MAX)\<close>\<close>

definition len_u32 :: "'a list \<Rightarrow> u32" where
  "len_u32 xs = (if length xs < 2 ^ 32 then of_nat (length xs) else - 1)"

subsection \<open>Radon requests\<close>

datatype rad_type = Unknown | HttpGet | Rng | HttpPost | HttpHead

record rad_retrieve =
  kind :: rad_type
  url :: string
  script :: "u8 list"
  retrieve_body :: "u8 list"
  headers :: "(string \<times> string) list"

record rad_filter =
  filter_op :: u32
  filter_args :: "u8 list"

text \<open>The aggregate and the tally stage have the same fields.\<close>

record rad_stage =
  stage_filters :: "rad_filter list"
  stage_reducer :: u32

record rad_request =
  rad_time_lock :: u64
  retrieve :: "rad_retrieve list"
  aggregate :: rad_stage
  tally_stage :: rad_stage

definition is_http :: "rad_type \<Rightarrow> bool" where
  "is_http k \<longleftrightarrow> k \<in> {HttpGet, HttpPost, HttpHead}"

datatype field = Kind | Url | Script | Body | Headers

datatype retrieve_error = MalformedRetrieval rad_type "field set" "field set" | InvalidRadType

definition present_fields :: "rad_retrieve \<Rightarrow> field set" where
  "present_fields r =
     (if kind r \<noteq> Unknown then {Kind} else {}) \<union> (if url r \<noteq> [] then {Url} else {})
     \<union> (if script r \<noteq> [] then {Script} else {}) \<union> (if retrieve_body r \<noteq> [] then {Body} else {})
     \<union> (if headers r \<noteq> [] then {Headers} else {})"

definition field_checker ::
  "rad_retrieve \<Rightarrow> field set \<Rightarrow> field set \<Rightarrow> (retrieve_error, unit) outcome"
where
  "field_checker r expected optional =
     (let diff = present_fields r - optional
      in if diff = expected then Ok () else Err (MalformedRetrieval (kind r) expected diff))"

definition check_fields :: "rad_retrieve \<Rightarrow> (retrieve_error, unit) outcome" where
  "check_fields r =
     (case kind r of
        Unknown \<Rightarrow> Ok ()
      | HttpGet \<Rightarrow> field_checker r {Kind, Url, Script} {Headers}
      | Rng \<Rightarrow> field_checker r {Kind, Script} {}
      | HttpPost \<Rightarrow> field_checker r {Kind, Url, Script} {Body, Headers}
      | HttpHead \<Rightarrow> field_checker r {Kind, Url, Script} {Headers})"

definition check_fields_before_wip0020 :: "rad_retrieve \<Rightarrow> (retrieve_error, unit) outcome" where
  "check_fields_before_wip0020 r =
     (case kind r of
        Unknown \<Rightarrow> Ok ()
      | HttpGet \<Rightarrow> field_checker r {Kind, Url, Script} {}
      | Rng \<Rightarrow> field_checker r {Kind, Script} {Url}
      | HttpPost \<Rightarrow> Err InvalidRadType
      | HttpHead \<Rightarrow> Err InvalidRadType)"

fun headers_weight :: "u32 \<Rightarrow> (string \<times> string) list \<Rightarrow> u32" where
  "headers_weight acc [] = acc"
| "headers_weight acc ((k, v) # hs) =
     headers_weight (saturating_add (saturating_add (saturating_add acc (len_u32 k)) (len_u32 v)) 6) hs"

definition retrieve_weight :: "rad_retrieve \<Rightarrow> u32" where
  "retrieve_weight r =
     saturating_add (saturating_add (saturating_add (saturating_add (len_u32 (script r)) (len_u32 (url r))) 1)
       (len_u32 (retrieve_body r))) (headers_weight 0 (headers r))"

definition filter_weight :: "rad_filter \<Rightarrow> u32" where
  "filter_weight f = saturating_add (len_u32 (filter_args f)) 4"

text \<open>A loop that adds weights up, saturating.\<close>

fun add_weights :: "u32 \<Rightarrow> u32 list \<Rightarrow> u32" where
  "add_weights acc [] = acc"
| "add_weights acc (w # ws) = add_weights (saturating_add acc w) ws"

definition stage_weight :: "rad_stage \<Rightarrow> u32" where
  "stage_weight s = saturating_add (add_weights 0 (map filter_weight (stage_filters s))) 4"

definition rad_request_weight :: "rad_request \<Rightarrow> u32" where
  "rad_request_weight r =
     saturating_add (saturating_add (saturating_add (add_weights 0 (map retrieve_weight (retrieve r)))
       (stage_weight (aggregate r))) (stage_weight (tally_stage r))) 8"

subsection \<open>Outputs\<close>

record output_pointer =
  transaction_id :: hash
  output_index :: u32

type_synonym input = output_pointer

record value_transfer_output =
  vto_pkh :: pkh
  vto_value :: u64
  vto_time_lock :: u64

record keyed_signature =
  ks_signature :: "u8 list"
  ks_public_key :: "u8 list"

record data_request_output =
  data_request :: rad_request
  witness_reward :: u64
  witnesses :: u16
  commit_and_reveal_fee :: u64
  min_consensus_percentage :: u32
  collateral :: u64

record stake_output =
  so_authorization :: keyed_signature
  so_key :: "pkh stake_key"
  so_value :: u64

datatype transaction_value_error = FeeOverflow

definition checked_total_value :: "data_request_output \<Rightarrow> (transaction_value_error, u64) outcome" where
  "checked_total_value d =
     (case Option.bind (Option.bind (checked_add (witness_reward d) (commit_and_reveal_fee d))
             (\<lambda>res. checked_add res (commit_and_reveal_fee d)))
             (\<lambda>res. checked_mul res (ucast (witnesses d))) of
        Some v \<Rightarrow> Ok v
      | None \<Rightarrow> Err FeeOverflow)"

definition dr_output_weight :: "data_request_output \<Rightarrow> u32" where
  "dr_output_weight d = saturating_add (rad_request_weight (data_request d)) (8 + 2 + 8 + 4 + 8)"

definition dr_output_extra_weight :: "data_request_output \<Rightarrow> u32" where
  "dr_output_extra_weight d =
     (let w = ucast (witnesses d);
          commits_weight = saturating_mul w COMMIT_WEIGHT;
          reveals_weight = saturating_mul (saturating_mul w REVEAL_WEIGHT) BETA;
          tally_outputs_weight = saturating_mul w OUTPUT_SIZE;
          tally_weight = saturating_add (saturating_mul TALLY_WEIGHT BETA) tally_outputs_weight
      in saturating_add (saturating_add commits_weight reveals_weight) tally_weight)"

datatype tx_output =
    DataRequestOut data_request_output
  | StakeOut stake_output
  | ValueTransferOut value_transfer_output

fun output_value :: "tx_output \<Rightarrow> (transaction_value_error, u64) outcome" where
  "output_value (DataRequestOut d) = checked_total_value d"
| "output_value (StakeOut s) = Ok (so_value s)"
| "output_value (ValueTransferOut v) = Ok (vto_value v)"

fun output_weight :: "tx_output \<Rightarrow> u32" where
  "output_weight (DataRequestOut d) = dr_output_weight d"
| "output_weight (StakeOut s) = STAKE_OUTPUT_WEIGHT"
| "output_weight (ValueTransferOut v) = OUTPUT_SIZE"

subsection \<open>Transactions\<close>

record vt_transaction =
  vt_inputs :: "input list"
  vt_outputs :: "value_transfer_output list"
  vt_signatures :: "keyed_signature list"

record dr_transaction =
  dr_inputs :: "input list"
  dr_outputs :: "value_transfer_output list"
  dr_output :: data_request_output
  dr_signatures :: "keyed_signature list"

record commit_transaction =
  commit_dr_pointer :: hash
  commitment :: hash
  commit_proof :: "u8 list"
  commit_collateral :: "input list"
  commit_outputs :: "value_transfer_output list"
  commit_bn256_public_key :: "u8 list option"
  commit_signatures :: "keyed_signature list"

record reveal_transaction =
  reveal_dr_pointer :: hash
  reveal_bytes :: "u8 list"
  reveal_pkh :: pkh
  reveal_signatures :: "keyed_signature list"

record tally_transaction =
  tally_dr_pointer :: hash
  tally_bytes :: "u8 list"
  tally_outputs :: "value_transfer_output list"
  out_of_consensus :: "pkh list"
  error_committers :: "pkh list"

record mint_transaction =
  mint_epoch :: epoch
  mint_outputs :: "value_transfer_output list"

record stake_tx =
  st_inputs :: "input list"
  st_output :: stake_output
  st_change :: "value_transfer_output option"
  st_signatures :: "keyed_signature list"

record unstake_tx =
  ut_operator :: pkh
  ut_withdrawal :: value_transfer_output
  ut_fee :: u64
  ut_nonce :: u64
  ut_signature :: keyed_signature

datatype transaction =
    ValueTransfer vt_transaction
  | DataRequest dr_transaction
  | Commit commit_transaction
  | Reveal reveal_transaction
  | Tally tally_transaction
  | Mint mint_transaction
  | Stake stake_tx
  | Unstake unstake_tx

definition outputs_value :: "value_transfer_output list \<Rightarrow> u64" where
  "outputs_value os = sum_list (map vto_value os)"

definition vt_value :: "vt_transaction \<Rightarrow> u64" where
  "vt_value t = outputs_value (vt_outputs t)"

definition vt_weight :: "vt_transaction \<Rightarrow> u32" where
  "vt_weight t =
     (let inputs_weight = saturating_mul (len_u32 (vt_inputs t)) INPUT_SIZE;
          outputs_weight = saturating_mul (saturating_mul (len_u32 (vt_outputs t)) OUTPUT_SIZE) GAMMA
      in saturating_add inputs_weight outputs_weight)"

definition dr_value :: "dr_transaction \<Rightarrow> (transaction_value_error, u64) outcome" where
  "dr_value t =
     (case checked_total_value (dr_output t) of
        Ok v \<Rightarrow> Ok (v + outputs_value (dr_outputs t))
      | Err e \<Rightarrow> Err e
      | Panic \<Rightarrow> Panic)"

definition dr_weight :: "dr_transaction \<Rightarrow> u32" where
  "dr_weight t =
     (let dr_output_size = saturating_mul (dr_output_weight (dr_output t)) ALPHA;
          inputs_weight = saturating_mul (len_u32 (dr_inputs t)) INPUT_SIZE;
          outputs_weight = saturating_mul (len_u32 (dr_outputs t)) OUTPUT_SIZE
      in saturating_add (saturating_add (saturating_add dr_output_size
           (dr_output_extra_weight (dr_output t))) inputs_weight) outputs_weight)"

definition st_value :: "stake_tx \<Rightarrow> u64" where
  "st_value t = so_value (st_output t) + (case st_change t of Some c \<Rightarrow> vto_value c | None \<Rightarrow> 0)"

definition st_weight :: "stake_tx \<Rightarrow> u32" where
  "st_weight t =
     saturating_add (saturating_add (saturating_mul (len_u32 (st_inputs t)) INPUT_SIZE)
       (if st_change t \<noteq> None then OUTPUT_SIZE else 0)) STAKE_OUTPUT_WEIGHT"

definition ut_value :: "unstake_tx \<Rightarrow> u64" where
  "ut_value t = vto_value (ut_withdrawal t)"

definition ut_weight :: "unstake_tx \<Rightarrow> u32" where
  "ut_weight t = UNSTAKE_TRANSACTION_WEIGHT"

fun transaction_weight :: "transaction \<Rightarrow> u32" where
  "transaction_weight (ValueTransfer t) = vt_weight t"
| "transaction_weight (DataRequest t) = dr_weight t"
| "transaction_weight _ = 0"

text \<open>The mint transaction with a reward split between the node and an external address.\<close>

definition with_external_address ::
  "epoch \<Rightarrow> u64 \<Rightarrow> pkh \<Rightarrow> pkh option \<Rightarrow> u8 \<Rightarrow> mint_transaction"
where
  "with_external_address e reward own_pkh external_address external_percentage =
     (let (reward', external_reward, external_pkh) =
            (case external_address of
               Some k \<Rightarrow>
                 let x = saturating_mul reward (ucast external_percentage) div 100
                 in (reward - x, x, k)
             | None \<Rightarrow> (reward, 0, replicate 20 0))
      in \<lparr>mint_epoch = e,
          mint_outputs =
            (if reward' > 0 then [\<lparr>vto_pkh = own_pkh, vto_value = reward', vto_time_lock = 0\<rparr>] else [])
            @ (if external_reward > 0
               then [\<lparr>vto_pkh = external_pkh, vto_value = external_reward, vto_time_lock = 0\<rparr>] else [])\<rparr>)"

section \<open>Properties\<close>

subsection \<open>Weights\<close>

text \<open>Saturating arithmetic computes the exact sum, clamped once at the end.\<close>

named_theorems clamp_simps \<open>inner clamps are absorbed by the outer one\<close>

lemma clamp_add_left [clamp_simps]: "min M (min M a + b) = min M (a + b)" for M :: nat
  by (auto simp: min_def)

lemma clamp_add_right [clamp_simps]: "min M (a + min M b) = min M (a + b)" for M :: nat
  by (auto simp: min_def)

lemma clamp_mult_left [clamp_simps]: "min M (min M a * b) = min M (a * b)" for M :: nat
  by (cases "a \<le> M"; cases b) (auto simp: min_def intro: le_trans)

lemmas unat_saturating_add_u32 = unat_saturating_add [where 'l = 32, simplified]
lemmas unat_saturating_mul_u32 = unat_saturating_mul [where 'l = 32, simplified]

lemmas weight_simps = unat_saturating_add_u32 unat_saturating_mul_u32 clamp_simps weight_constants

lemma unat_len_u32: "unat (len_u32 xs) = min 4294967295 (length xs)"
  by (auto simp: len_u32_def unat_simps min_def unsigned_of_nat take_bit_nat_eq_self)

text \<open>The exact sizes, over the natural numbers.\<close>

definition retrieve_size :: "rad_retrieve \<Rightarrow> nat" where
  "retrieve_size r = length (script r) + length (url r) + 1 + length (retrieve_body r)
     + (\<Sum>(k, v) \<leftarrow> headers r. length k + length v + 6)"

definition stage_size :: "rad_stage \<Rightarrow> nat" where
  "stage_size s = (\<Sum>f \<leftarrow> stage_filters s. length (filter_args f) + 4) + 4"

definition dr_output_size :: "data_request_output \<Rightarrow> nat" where
  "dr_output_size d =
     (let r = data_request d
      in (\<Sum>x \<leftarrow> retrieve r. retrieve_size x) + stage_size (aggregate r) + stage_size (tally_stage r) + 38)"

lemma unat_headers_weight:
  "unat (headers_weight acc hs) =
     min 4294967295 (unat acc + (\<Sum>(k, v) \<leftarrow> hs. length k + length v + 6))"
proof (induction acc hs rule: headers_weight.induct)
  case (1 acc)
  then show ?case using unsigned_less [of acc, where 'a = nat] by simp
next
  case (2 acc k v hs)
  then show ?case by (simp add: weight_simps unat_len_u32)
qed

lemma unat_add_weights:
  "unat (add_weights acc ws) = min 4294967295 (unat acc + (\<Sum>w \<leftarrow> ws. unat w))"
proof (induction acc ws rule: add_weights.induct)
  case (1 acc)
  then show ?case using unsigned_less [of acc, where 'a = nat] by simp
next
  case (2 acc w ws)
  then show ?case by (simp add: weight_simps)
qed

text \<open>The summands of a saturating loop may themselves be clamped.\<close>

lemma clamp_sum_list:
  "min M (\<Sum>x \<leftarrow> xs. min M (f x)) = min M (\<Sum>x \<leftarrow> xs. f x)" for M :: nat
proof (induction xs)
  case (Cons x xs)
  have "min M (\<Sum>x \<leftarrow> x # xs. min M (f x)) = min M (f x + (\<Sum>x \<leftarrow> xs. min M (f x)))"
    by (simp add: clamp_simps)
  also have "\<dots> = min M (f x + min M (\<Sum>x \<leftarrow> xs. min M (f x)))"
    by (simp only: clamp_add_right)
  finally show ?case by (simp add: Cons clamp_add_right)
qed simp

lemma unat_add_weights_map:
  assumes "\<And>x. unat (g x) = min 4294967295 (f x)"
  shows "unat (add_weights 0 (map g xs)) = min 4294967295 (\<Sum>x \<leftarrow> xs. f x)"
  using clamp_sum_list [of 4294967295 f xs] by (simp add: unat_add_weights assms comp_def)

lemma unat_filter_weight: "unat (filter_weight f) = min 4294967295 (length (filter_args f) + 4)"
  by (simp add: filter_weight_def unat_len_u32 weight_simps)

lemma unat_retrieve_weight: "unat (retrieve_weight r) = min 4294967295 (retrieve_size r)"
  by (simp add: retrieve_weight_def retrieve_size_def unat_headers_weight unat_len_u32 weight_simps)

lemma unat_stage_weight: "unat (stage_weight s) = min 4294967295 (stage_size s)"
  by (simp add: stage_weight_def stage_size_def unat_add_weights_map [OF unat_filter_weight] weight_simps)

lemma unat_dr_output_weight: "unat (dr_output_weight d) = min 4294967295 (dr_output_size d)"
  by (simp add: dr_output_weight_def rad_request_weight_def dr_output_size_def Let_def
      unat_add_weights_map [OF unat_retrieve_weight] unat_stage_weight weight_simps)

lemma unat_dr_output_extra_weight:
  "unat (dr_output_extra_weight d) = min 4294967295 (unat (witnesses d) * 636 + 100)"
proof -
  have "unat (witnesses d) < 65536" using unsigned_less [of "witnesses d", where 'a = nat] by simp
  then show ?thesis
    by (simp add: dr_output_extra_weight_def Let_def weight_simps unat_cast_mod)
qed

lemma unat_dr_weight:
  "unat (dr_weight u) = min 4294967295 (dr_output_size (dr_output u)
     + (unat (witnesses (dr_output u)) * 636 + 100) + length (dr_inputs u) * 133 + length (dr_outputs u) * 36)"
  by (simp add: dr_weight_def Let_def unat_dr_output_weight unat_dr_output_extra_weight
      unat_len_u32 weight_simps)

text \<open>Claim C29: the weight of a value transfer and of a data request transaction, computed with
  saturating 32-bit arithmetic over every nested filter, header and script, is the documented
  formula \<^verbatim>\<open>N*INPUT_SIZE + M*OUTPUT_SIZE*gamma\<close>, respectively
  \<^verbatim>\<open>DR_output_size*alpha + W*COMMIT + W*REVEAL*beta + TALLY*beta + N*INPUT_SIZE + (W+M)*OUTPUT_SIZE\<close>,
  evaluated exactly and clamped once to the largest 32-bit value: a transaction too large never
  wraps around to a small weight.\<close>

theorem transaction_weight_exact:
  "unat (vt_weight t) = min (2 ^ 32 - 1) (length (vt_inputs t) * 133 + length (vt_outputs t) * 36 * 10)
   \<and> unat (dr_weight u) =
       min (2 ^ 32 - 1)
         (let W = unat (witnesses (dr_output u));
              N = length (dr_inputs u);
              M = length (dr_outputs u)
          in dr_output_size (dr_output u) * 1 + W * 400 + W * 200 * 1 + 100 * 1 + N * 133 + (W + M) * 36)"
proof
  show "unat (vt_weight t) = min (2 ^ 32 - 1) (length (vt_inputs t) * 133 + length (vt_outputs t) * 36 * 10)"
    by (simp add: vt_weight_def Let_def unat_len_u32 weight_simps)
next
  show "unat (dr_weight u) =
       min (2 ^ 32 - 1)
         (let W = unat (witnesses (dr_output u));
              N = length (dr_inputs u);
              M = length (dr_outputs u)
          in dr_output_size (dr_output u) * 1 + W * 400 + W * 200 * 1 + 100 * 1 + N * 133 + (W + M) * 36)"
    unfolding unat_dr_weight by (simp add: Let_def algebra_simps)
qed

subsection \<open>Mint\<close>

lemma external_share_le:
  assumes "unat (p :: u8) \<le> 100"
  shows "unat (saturating_mul r (ucast p) div 100) \<le> unat (r :: u64)" (is "unat ?x \<le> _")
proof -
  have "unat ?x = min (2 ^ 64 - 1) (unat r * unat p) div 100"
    using unsigned_less [of p, where 'a = nat] by (simp add: unat_div unat_simps unat_cast_mod)
  also have "\<dots> \<le> unat r * unat p div 100" by (intro div_le_mono) simp
  also have "\<dots> \<le> unat r * 100 div 100" using assms by (intro div_le_mono mult_le_mono2)
  finally show ?thesis by simp
qed

text \<open>The outputs of a mint transaction with an external address pay out exactly the
  block reward, whatever the percentage up to 100: no nanowit is lost or created by rounding or by
  saturation, no output is empty, the external address gets the rounded-down percentage of a reward
  that does not overflow, and without an external address the node gets everything.\<close>

theorem mint_pays_out_reward:
  assumes "unat percentage \<le> 100"
    and "mint = with_external_address e reward own external percentage"
  shows "(\<Sum>out \<leftarrow> mint_outputs mint. unat (vto_value out)) = unat reward
   \<and> (\<forall>out \<in> set (mint_outputs mint). vto_value out \<noteq> 0)
   \<and> (\<forall>k. external = Some k \<and> k \<noteq> own \<and> unat reward * unat percentage < 2 ^ 64 \<longrightarrow>
        (\<Sum>out \<leftarrow> filter (\<lambda>out. vto_pkh out = k) (mint_outputs mint). unat (vto_value out))
          = unat reward * unat percentage div 100)
   \<and> (external = None \<longrightarrow> (\<forall>out \<in> set (mint_outputs mint). vto_pkh out = own))"
proof (cases external)
  case None
  then show ?thesis using assms(2) by (auto simp: with_external_address_def word_gt_0 unat_eq_zero)
next
  case (Some k)
  define x where "x = saturating_mul reward (ucast percentage) div 100"
  have le: "x \<le> reward"
    using external_share_le [OF assms(1)] by (simp add: x_def word_le_nat_alt)
  then have sum: "unat (reward - x) + unat x = unat reward"
    by (simp add: unat_sub word_le_nat_alt)
  have share: "unat x = unat reward * unat percentage div 100" if "unat reward * unat percentage < 2 ^ 64"
    using that unsigned_less [of percentage, where 'a = nat]
    by (simp add: x_def unat_div unat_simps unat_cast_mod)
  have outs: "mint_outputs mint =
      (if reward - x \<noteq> 0 then [\<lparr>vto_pkh = own, vto_value = reward - x, vto_time_lock = 0\<rparr>] else [])
      @ (if x \<noteq> 0 then [\<lparr>vto_pkh = k, vto_value = x, vto_time_lock = 0\<rparr>] else [])"
    using assms(2) Some by (simp add: with_external_address_def x_def Let_def word_gt_0)
  have total: "(\<Sum>out \<leftarrow> mint_outputs mint. unat (vto_value out)) = unat reward"
    using sum by (auto simp: outs)
  moreover have "(\<Sum>out \<leftarrow> filter (\<lambda>out. vto_pkh out = k) (mint_outputs mint). unat (vto_value out)) = unat x"
    if "k \<noteq> own" using that by (auto simp: outs)
  moreover have "\<forall>out \<in> set (mint_outputs mint). vto_value out \<noteq> 0"
    by (auto simp: outs)
  ultimately show ?thesis using Some share by simp
qed

theorem mint_pays_out_reward_witness:
  "(\<Sum>out \<leftarrow> mint_outputs (with_external_address 7 1001 [1] (Some [2]) 30). unat (vto_value out)) = 1001
   \<and> (\<Sum>out \<leftarrow> filter (\<lambda>out. vto_pkh out = [2]) (mint_outputs (with_external_address 7 1001 [1] (Some [2]) 30)).
        unat (vto_value out)) = 300"
  using mint_pays_out_reward [of 30 "with_external_address 7 1001 [1] (Some [2]) 30" 7 1001 "[1]" "Some [2]"]
  by simp

end
