(* ===== verification/Data_Request.thy ===== *)
theory Data_Request
  imports Transactions Epochs "HOL-Library.List_Lexorder"
begin

text \<open>
  The life of a data request (DataRequestState in chain/mod.rs) and the pool of active data
  requests (DataRequestPool in data_request.rs). The hashes of transactions, the hash of a public
  key and SHA-256 are arguments; the protocol version in force at an epoch is read from the table
  of theory Epochs. A HashSet is a list without repetitions. The maps are iterated in the order
  of their association lists, which stands for the unspecified order of a HashMap.
\<close>

section \<open>Definitions\<close>

subsection \<open>The state of a request\<close>

datatype dr_stage = COMMIT | REVEAL | TALLY

record dr_info =
  commits :: "(pkh \<times> commit_transaction) list"
  reveals :: "(pkh \<times> reveal_transaction) list"
  tally :: "tally_transaction option"
  block_hash_dr_tx :: "hash option"
  block_hash_tally_tx :: "hash option"
  current_commit_round :: u16
  current_reveal_round :: u16
  current_stage :: "dr_stage option"

record dr_state =
  dr_request :: data_request_output
  dr_pkh :: pkh
  info :: dr_info
  stage :: dr_stage
  dr_epoch :: epoch

datatype dr_error =
    NotCommitStage
  | NotRevealStage
  | NotTallyStage
  | AddCommitFail hash hash hash
  | AddRevealFail hash hash hash
  | AddTallyFail hash hash hash
  | SignatureNotFound

definition default_dr_info :: dr_info where
  "default_dr_info = \<lparr>commits = [], reveals = [], tally = None, block_hash_dr_tx = None,
     block_hash_tally_tx = None, current_commit_round = 0, current_reveal_round = 0,
     current_stage = Some COMMIT\<rparr>"

definition new_dr_state :: "data_request_output \<Rightarrow> pkh \<Rightarrow> epoch \<Rightarrow> hash option \<Rightarrow> dr_state" where
  "new_dr_state d k e h =
     \<lparr>dr_request = d, dr_pkh = k,
      info = default_dr_info\<lparr>block_hash_dr_tx := h, current_stage := Some COMMIT\<rparr>,
      stage = COMMIT, dr_epoch = e\<rparr>"

definition state_add_commit ::
  "pkh \<Rightarrow> commit_transaction \<Rightarrow> dr_state \<Rightarrow> (dr_error, unit) outcome \<times> dr_state"
where
  "state_add_commit k c st =
     (case stage st of
        COMMIT \<Rightarrow> (Ok (), st\<lparr>info := (info st)\<lparr>commits := AList.update k c (commits (info st))\<rparr>\<rparr>)
      | _ \<Rightarrow> (Err NotCommitStage, st))"

definition state_add_reveal ::
  "pkh \<Rightarrow> reveal_transaction \<Rightarrow> dr_state \<Rightarrow> (dr_error, unit) outcome \<times> dr_state"
where
  "state_add_reveal k r st =
     (case stage st of
        REVEAL \<Rightarrow> (Ok (), st\<lparr>info := (info st)\<lparr>reveals := AList.update k r (reveals (info st))\<rparr>\<rparr>)
      | _ \<Rightarrow> (Err NotRevealStage, st))"

definition state_add_tally ::
  "tally_transaction \<Rightarrow> hash \<Rightarrow> dr_state \<Rightarrow> (dr_error, dr_info) outcome"
where
  "state_add_tally t h st =
     (case stage st of
        TALLY \<Rightarrow> Ok ((info st)\<lparr>tally := Some t, block_hash_tally_tx := Some h, current_stage := None\<rparr>)
      | _ \<Rightarrow> Err NotTallyStage)"

definition set_stage :: "dr_stage \<Rightarrow> dr_state \<Rightarrow> dr_state" where
  "set_stage s st = st\<lparr>stage := s, info := (info st)\<lparr>current_stage := Some s\<rparr>\<rparr>"

text \<open>The round counters are 16-bit and wrap around.\<close>

definition update_stage :: "u16 \<Rightarrow> bool \<Rightarrow> dr_state \<Rightarrow> (dr_error, dr_state) outcome" where
  "update_stage er too_many_witnesses st =
     (let i = info st
      in case stage st of
           COMMIT \<Rightarrow>
             if commits i = [] then
               if too_many_witnesses then Ok (set_stage TALLY st)
               else if current_commit_round i \<le> er then
                 Ok (set_stage COMMIT (st\<lparr>info := i\<lparr>current_commit_round := current_commit_round i + 1\<rparr>\<rparr>))
               else Ok (set_stage TALLY st)
             else Ok (set_stage REVEAL (st\<lparr>info := i\<lparr>current_reveal_round := 1\<rparr>\<rparr>))
         | REVEAL \<Rightarrow>
             if length (reveals i) < unat (witnesses (dr_request st)) \<and> current_reveal_round i \<le> er then
               Ok (set_stage REVEAL (st\<lparr>info := i\<lparr>current_reveal_round := current_reveal_round i + 1\<rparr>\<rparr>))
             else Ok (set_stage TALLY st)
         | TALLY \<Rightarrow> if tally i = None then Ok (set_stage TALLY st) else Panic)"

text \<open>\<^verbatim>\<open>saturating_pow\<close>\<close>

definition saturating_pow :: "'l::len word \<Rightarrow> nat \<Rightarrow> 'l word" where
  "saturating_pow a n = (if unat a ^ n < 2 ^ LENGTH('l) then a ^ n else - 1)"

definition calculate_backup_witnesses :: "u16 \<Rightarrow> u16 \<Rightarrow> u16" where
  "calculate_backup_witnesses w commit_round =
     (let exponent = saturating_sub (ucast commit_round :: u32) 1;
          coefficient = saturating_pow (2 :: u16) (unat exponent)
      in saturating_mul w coefficient div 2)"

definition backup_witnesses :: "dr_state \<Rightarrow> u16" where
  "backup_witnesses st =
     calculate_backup_witnesses (witnesses (dr_request st)) (current_commit_round (info st))"

subsection \<open>The pool\<close>

record dr_pool =
  waiting_for_reveal :: "(hash \<times> reveal_transaction) list"
  data_requests_by_epoch :: "(epoch \<times> hash list) list"
  data_request_pool :: "(hash \<times> dr_state) list"
  to_be_stored :: "dr_info list"
  extra_rounds :: u16

definition new_dr_pool :: "u16 \<Rightarrow> dr_pool" where
  "new_dr_pool er = \<lparr>waiting_for_reveal = [], data_requests_by_epoch = [], data_request_pool = [],
     to_be_stored = [], extra_rounds = er\<rparr>"

definition get_dr_output_pointers_by_epoch :: "dr_pool \<Rightarrow> epoch \<Rightarrow> hash list" where
  "get_dr_output_pointers_by_epoch p e =
     concat (map snd (filter (\<lambda>(e', _). e' \<le> e) (data_requests_by_epoch p)))"

definition get_dr_output :: "dr_pool \<Rightarrow> hash \<Rightarrow> data_request_output option" where
  "get_dr_output p h = map_option dr_request (map_of (data_request_pool p) h)"

definition concatenate_and_hash :: "(u8 list \<Rightarrow> u8 list) \<Rightarrow> u8 list \<Rightarrow> u8 list \<Rightarrow> u8 list" where
  "concatenate_and_hash sha256 a b = sha256 (a @ b)"

definition sorted_reveals ::
  "(u8 list \<Rightarrow> u8 list) \<Rightarrow> bool \<Rightarrow> hash \<Rightarrow> dr_state \<Rightarrow> reveal_transaction list"
where
  "sorted_reveals sha256 wip0019 h st =
     (let rs = map snd (reveals (info st))
      in if wip0019
         then sort_by (\<lambda>r s. concatenate_and_hash sha256 (reveal_pkh r) h
                              \<le> concatenate_and_hash sha256 (reveal_pkh s) h) rs
         else sort_by (\<lambda>r s. reveal_pkh r \<le> reveal_pkh s) rs)"

definition get_reveals ::
  "(u8 list \<Rightarrow> u8 list) \<Rightarrow> bool \<Rightarrow> dr_pool \<Rightarrow> hash \<Rightarrow> reveal_transaction list option"
where
  "get_reveals sha256 wip0019 p h =
     map_option (sorted_reveals sha256 wip0019 h) (map_of (data_request_pool p) h)"

definition insert_reveal :: "hash \<Rightarrow> reveal_transaction \<Rightarrow> dr_pool \<Rightarrow> dr_pool" where
  "insert_reveal h r p = p\<lparr>waiting_for_reveal := AList.update h r (waiting_for_reveal p)\<rparr>"

definition data_request_has_too_many_witnesses ::
  "protocol_info \<Rightarrow> data_request_output \<Rightarrow> nat \<Rightarrow> epoch option \<Rightarrow> bool"
where
  "data_request_has_too_many_witnesses pi d validator_count e =
     (if get_protocol_version pi e < V2_0 then False
      else unat (witnesses d) > validator_count div 4)"

definition DEFAULT_VALIDATOR_COUNT_FOR_TESTS :: nat where
  "DEFAULT_VALIDATOR_COUNT_FOR_TESTS = 1000"

definition validators_or_default :: "nat option \<Rightarrow> nat" where
  "validators_or_default v = (case v of Some n \<Rightarrow> n | None \<Rightarrow> DEFAULT_VALIDATOR_COUNT_FOR_TESTS)"

definition get_all_reveals ::
  "(u8 list \<Rightarrow> u8 list) \<Rightarrow> protocol_info \<Rightarrow> bool \<Rightarrow> nat option \<Rightarrow> epoch option \<Rightarrow> dr_pool \<Rightarrow>
   (hash \<times> reveal_transaction list) list"
where
  "get_all_reveals sha256 pi wip0019 validator_count e p =
     List.map_filter (\<lambda>(h, st).
       if stage st = TALLY then
         if dr_epoch st \<ge> get_protocol_version_activation_epoch pi V2_0
            \<and> data_request_has_too_many_witnesses pi (dr_request st)
                 (validators_or_default validator_count) e
         then None
         else Some (h, sorted_reveals sha256 wip0019 h st)
       else None) (data_request_pool p)"

definition get_tally_ready_drs :: "dr_pool \<Rightarrow> hash list" where
  "get_tally_ready_drs p = map fst (filter (\<lambda>(_, st). stage st = TALLY) (data_request_pool p))"

text \<open>The set of requests of an epoch; an absent key is an empty set.\<close>

definition epoch_index :: "(epoch \<times> hash list) list \<Rightarrow> epoch \<Rightarrow> hash list" where
  "epoch_index m e = (case map_of m e of Some hs \<Rightarrow> hs | None \<Rightarrow> [])"

definition add_data_request ::
  "(protocol_version \<Rightarrow> dr_transaction \<Rightarrow> hash) \<Rightarrow> (u8 list \<Rightarrow> pkh) \<Rightarrow> protocol_info \<Rightarrow>
   epoch \<Rightarrow> dr_transaction \<Rightarrow> hash option \<Rightarrow> dr_pool \<Rightarrow> (dr_error, unit) outcome \<times> dr_pool"
where
  "add_data_request dr_hash pkh_of pi e tx block_hash p =
     (let h = dr_hash (get_protocol_version pi (Some e)) tx
      in case dr_signatures tx of
           [] \<Rightarrow> (Err SignatureNotFound, p)
         | sig # _ \<Rightarrow>
             (Ok (), p\<lparr>data_requests_by_epoch :=
                         bt_insert e (List.insert h (epoch_index (data_requests_by_epoch p) e))
                           (data_requests_by_epoch p),
                       data_request_pool :=
                         AList.update h (new_dr_state (dr_output tx) (pkh_of (ks_public_key sig)) e block_hash)
                           (data_request_pool p)\<rparr>))"

definition pool_add_commit ::
  "(protocol_version \<Rightarrow> commit_transaction \<Rightarrow> hash) \<Rightarrow> protocol_info \<Rightarrow> epoch \<Rightarrow> pkh \<Rightarrow>
   commit_transaction \<Rightarrow> hash \<Rightarrow> dr_pool \<Rightarrow> (dr_error, unit) outcome \<times> dr_pool"
where
  "pool_add_commit commit_hash pi e k c block_hash p =
     (let tx_hash = commit_hash (get_protocol_version pi (Some e)) c;
          h = commit_dr_pointer c
      in case map_of (data_request_pool p) h of
           Some st \<Rightarrow>
             let (r, st') = state_add_commit k c st
             in (r, p\<lparr>data_request_pool := AList.update h st' (data_request_pool p)\<rparr>)
         | None \<Rightarrow> (Err (AddCommitFail block_hash tx_hash h), p))"

definition pool_add_reveal ::
  "(protocol_version \<Rightarrow> reveal_transaction \<Rightarrow> hash) \<Rightarrow> protocol_info \<Rightarrow> epoch \<Rightarrow> pkh \<Rightarrow>
   reveal_transaction \<Rightarrow> hash \<Rightarrow> dr_pool \<Rightarrow> (dr_error, unit) outcome \<times> dr_pool"
where
  "pool_add_reveal reveal_hash pi e k r block_hash p =
     (let tx_hash = reveal_hash (get_protocol_version pi (Some e)) r;
          h = reveal_dr_pointer r
      in case map_of (data_request_pool p) h of
           Some st \<Rightarrow>
             let (res, st') = state_add_reveal k r st
             in (res, p\<lparr>data_request_pool := AList.update h st' (data_request_pool p)\<rparr>)
         | None \<Rightarrow> (Err (AddRevealFail block_hash tx_hash h), p))"

text \<open>The request is removed from the pool before its stage is looked at.\<close>

definition resolve_data_request ::
  "(tally_transaction \<Rightarrow> hash) \<Rightarrow> tally_transaction \<Rightarrow> hash \<Rightarrow> (hash \<times> dr_state) list \<Rightarrow>
   (dr_error, dr_info) outcome \<times> (hash \<times> dr_state) list"
where
  "resolve_data_request tally_hash t block_hash m =
     (let h = tally_dr_pointer t
      in case map_of m h of
           None \<Rightarrow> (Err (AddTallyFail block_hash (tally_hash t) h), m)
         | Some st \<Rightarrow> (state_add_tally t block_hash st, AList.delete h m))"

definition pool_add_tally ::
  "(tally_transaction \<Rightarrow> hash) \<Rightarrow> tally_transaction \<Rightarrow> hash \<Rightarrow> dr_pool \<Rightarrow>
   (dr_error, unit) outcome \<times> dr_pool"
where
  "pool_add_tally tally_hash t block_hash p =
     (let (r, m) = resolve_data_request tally_hash t block_hash (data_request_pool p);
          p' = p\<lparr>data_request_pool := m\<rparr>
      in case r of
           Ok i \<Rightarrow> (Ok (), p'\<lparr>to_be_stored := to_be_stored p' @ [i]\<rparr>)
         | Err e \<Rightarrow> (Err e, p')
         | Panic \<Rightarrow> (Panic, p'))"

text \<open>\<^verbatim>\<open>signatures[0]\<close> panics on a transaction without signatures.\<close>

definition process_commit ::
  "(protocol_version \<Rightarrow> commit_transaction \<Rightarrow> hash) \<Rightarrow> (u8 list \<Rightarrow> pkh) \<Rightarrow> protocol_info \<Rightarrow>
   commit_transaction \<Rightarrow> epoch \<Rightarrow> hash \<Rightarrow> dr_pool \<Rightarrow> (dr_error, unit) outcome \<times> dr_pool"
where
  "process_commit commit_hash pkh_of pi c e block_hash p =
     (case commit_signatures c of
        [] \<Rightarrow> (Panic, p)
      | sig # _ \<Rightarrow> pool_add_commit commit_hash pi e (pkh_of (ks_public_key sig)) c block_hash p)"

definition process_reveal ::
  "(protocol_version \<Rightarrow> reveal_transaction \<Rightarrow> hash) \<Rightarrow> (u8 list \<Rightarrow> pkh) \<Rightarrow> protocol_info \<Rightarrow>
   reveal_transaction \<Rightarrow> epoch \<Rightarrow> hash \<Rightarrow> dr_pool \<Rightarrow> (dr_error, unit) outcome \<times> dr_pool"
where
  "process_reveal reveal_hash pkh_of pi r e block_hash p =
     (case reveal_signatures r of
        [] \<Rightarrow> (Panic, p)
      | sig # _ \<Rightarrow> pool_add_reveal reveal_hash pi e (pkh_of (ks_public_key sig)) r block_hash p)"

definition process_data_request ::
  "(protocol_version \<Rightarrow> dr_transaction \<Rightarrow> hash) \<Rightarrow> (u8 list \<Rightarrow> pkh) \<Rightarrow> protocol_info \<Rightarrow>
   dr_transaction \<Rightarrow> epoch \<Rightarrow> hash option \<Rightarrow> dr_pool \<Rightarrow> (dr_error, unit) outcome \<times> dr_pool"
where
  "process_data_request dr_hash pkh_of pi tx e block_hash p =
     add_data_request dr_hash pkh_of pi e tx block_hash p"

definition process_tally ::
  "(tally_transaction \<Rightarrow> hash) \<Rightarrow> tally_transaction \<Rightarrow> hash \<Rightarrow> dr_pool \<Rightarrow>
   (dr_error, unit) outcome \<times> dr_pool"
where
  "process_tally tally_hash t block_hash p = pool_add_tally tally_hash t block_hash p"

definition finished_data_requests :: "dr_pool \<Rightarrow> dr_info list \<times> dr_pool" where
  "finished_data_requests p = (to_be_stored p, p\<lparr>to_be_stored := []\<rparr>)"

subsection \<open>Updating the stages\<close>

text \<open>Taking a request out of the index of its epoch, and the epoch with it when it was the last.\<close>

definition unindex :: "epoch \<Rightarrow> hash \<Rightarrow> (epoch \<times> hash list) list \<Rightarrow> (epoch \<times> hash list) list" where
  "unindex e h m =
     (case map_of m e of
        Some hs \<Rightarrow>
          let hs' = removeAll h hs
          in if hs' = [] then bt_remove e m else bt_insert e hs' m
      | None \<Rightarrow> m)"

text \<open>One entry of the pool: its new state, the index, the reveals that wait, and a reveal to send.\<close>

definition update_request ::
  "(u8 list \<Rightarrow> pkh) \<Rightarrow> u16 \<Rightarrow> bool \<Rightarrow> hash \<Rightarrow> dr_state \<Rightarrow> (epoch \<times> hash list) list \<Rightarrow>
   (hash \<times> reveal_transaction) list \<Rightarrow>
   (dr_error, dr_state \<times> (epoch \<times> hash list) list \<times> (hash \<times> reveal_transaction) list
              \<times> reveal_transaction option) outcome"
where
  "update_request pkh_of er too_many h st idx wfr =
     (case update_stage er too_many st of
        Err e \<Rightarrow> Err e
      | Panic \<Rightarrow> Panic
      | Ok st' \<Rightarrow>
          (case stage st' of
             REVEAL \<Rightarrow>
               let idx' = (if current_reveal_round (info st') = 1 then unindex (dr_epoch st') h idx else idx)
               in (case map_of wfr h of
                     None \<Rightarrow> Ok (st', idx', wfr, None)
                   | Some r \<Rightarrow>
                       (case reveal_signatures r of
                          [] \<Rightarrow> Panic
                        | sig # _ \<Rightarrow>
                            let k = pkh_of (ks_public_key sig)
                            in Ok (st', idx', wfr,
                                 if map_of (commits (info st')) k \<noteq> None
                                    \<and> map_of (reveals (info st')) k = None
                                 then Some r else None)))
           | TALLY \<Rightarrow> Ok (st', unindex (dr_epoch st') h idx, AList.delete h wfr, None)
           | COMMIT \<Rightarrow> Ok (st', idx, wfr, None)))"

fun update_requests ::
  "(u8 list \<Rightarrow> pkh) \<Rightarrow> u16 \<Rightarrow> (data_request_output \<Rightarrow> bool) \<Rightarrow> (hash \<times> dr_state) list \<Rightarrow>
   (epoch \<times> hash list) list \<Rightarrow> (hash \<times> reveal_transaction) list \<Rightarrow>
   (dr_error, (hash \<times> dr_state) list \<times> (epoch \<times> hash list) list \<times> (hash \<times> reveal_transaction) list
              \<times> reveal_transaction list) outcome"
where
  "update_requests pkh_of er too_many [] idx wfr = Ok ([], idx, wfr, [])"
| "update_requests pkh_of er too_many ((h, st) # m) idx wfr =
     (case update_request pkh_of er (too_many (dr_request st)) h st idx wfr of
        Err e \<Rightarrow> Err e
      | Panic \<Rightarrow> Panic
      | Ok (st', idx', wfr', r) \<Rightarrow>
          (case update_requests pkh_of er too_many m idx' wfr' of
             Err e \<Rightarrow> Err e
           | Panic \<Rightarrow> Panic
           | Ok (m', idx'', wfr'', rs) \<Rightarrow>
               Ok ((h, st') # m', idx'', wfr'', (case r of Some x \<Rightarrow> x # rs | None \<Rightarrow> rs))))"

definition update_data_request_stages ::
  "(u8 list \<Rightarrow> pkh) \<Rightarrow> protocol_info \<Rightarrow> nat option \<Rightarrow> epoch option \<Rightarrow> dr_pool \<Rightarrow>
   (dr_error, reveal_transaction list \<times> dr_pool) outcome"
where
  "update_data_request_stages pkh_of pi validator_count e p =
     (case update_requests pkh_of (extra_rounds p)
             (\<lambda>d. data_request_has_too_many_witnesses pi d (validators_or_default validator_count) e)
             (data_request_pool p) (data_requests_by_epoch p) (waiting_for_reveal p) of
        Ok (m, idx, wfr, rs) \<Rightarrow>
          Ok (rs, p\<lparr>data_request_pool := m, data_requests_by_epoch := idx, waiting_for_reveal := wfr\<rparr>)
      | Err err \<Rightarrow> Err err
      | Panic \<Rightarrow> Panic)"

subsection \<open>Wits locked by the requests\<close>

definition locked_by_request :: "u64 \<Rightarrow> dr_state \<Rightarrow> u64 option" where
  "locked_by_request collateral_minimum st =
     (let d = dr_request st;
          dr_collateral = (if collateral d = 0 then collateral_minimum else collateral d)
      in case checked_total_value d of
           Ok dr_total_value \<Rightarrow>
             Some (case stage st of
                COMMIT \<Rightarrow> dr_total_value
              | _ \<Rightarrow>
                  let n_commits = of_nat (length (commits (info st)));
                      n_reveals = of_nat (length (reveals (info st)));
                      collateralized_wits = saturating_mul n_commits dr_collateral;
                      commit_fees = saturating_mul n_commits (commit_and_reveal_fee d);
                      reveal_fees = saturating_mul n_reveals (commit_and_reveal_fee d)
                  in saturating_sub (saturating_sub (saturating_add dr_total_value collateralized_wits)
                       commit_fees) reveal_fees)
         | _ \<Rightarrow> None)"

fun locked_wits_from :: "u64 \<Rightarrow> u64 \<Rightarrow> (hash \<times> dr_state) list \<Rightarrow> u64 option" where
  "locked_wits_from collateral_minimum acc [] = Some acc"
| "locked_wits_from collateral_minimum acc ((_, st) # m) =
     (case locked_by_request collateral_minimum st of
        None \<Rightarrow> None
      | Some w \<Rightarrow> locked_wits_from collateral_minimum (acc + w) m)"

text \<open>\<^const>\<open>None\<close> stands for the panic of \<^verbatim>\<open>unwrap\<close> on a request whose value overflows.\<close>

definition locked_wits_by_requests :: "dr_pool \<Rightarrow> u64 \<Rightarrow> u64 option" where
  "locked_wits_by_requests p collateral_minimum =
     locked_wits_from collateral_minimum 0 (data_request_pool p)"

section \<open>Properties\<close>

subsection \<open>The life of a request\<close>

text \<open>What can happen to the state of a request: a commitment, a reveal, or the stage update
  that follows every block.\<close>

datatype dr_event =
    CommitEvent pkh commit_transaction
  | RevealEvent pkh reveal_transaction
  | BlockEvent bool

fun request_step :: "u16 \<Rightarrow> dr_event \<Rightarrow> dr_state \<Rightarrow> dr_state option" where
  "request_step er (CommitEvent k c) st = Some (snd (state_add_commit k c st))"
| "request_step er (RevealEvent k r) st = Some (snd (state_add_reveal k r st))"
| "request_step er (BlockEvent too_many) st =
     (case update_stage er too_many st of Ok st' \<Rightarrow> Some st' | _ \<Rightarrow> None)"

fun request_run :: "u16 \<Rightarrow> dr_event list \<Rightarrow> dr_state \<Rightarrow> dr_state option" where
  "request_run er [] st = Some st"
| "request_run er (ev # evs) st = Option.bind (request_step er ev st) (request_run er evs)"

definition block_events :: "dr_event list \<Rightarrow> nat" where
  "block_events evs = length (filter (\<lambda>ev. case ev of BlockEvent _ \<Rightarrow> True | _ \<Rightarrow> False) evs)"

definition request_ok :: "u16 \<Rightarrow> dr_state \<Rightarrow> bool" where
  "request_ok er st \<longleftrightarrow>
     tally (info st) = None \<and> current_stage (info st) = Some (stage st)
     \<and> unat (current_commit_round (info st)) \<le> unat er + 1
     \<and> (stage st = REVEAL \<longrightarrow> commits (info st) \<noteq> []
          \<and> 1 \<le> unat (current_reveal_round (info st)) \<and> unat (current_reveal_round (info st)) \<le> unat er + 1)"

text \<open>How many more blocks a request can stay out of the tally stage.\<close>

definition rounds_left :: "u16 \<Rightarrow> dr_state \<Rightarrow> nat" where
  "rounds_left er st =
     (case stage st of
        COMMIT \<Rightarrow> 2 * unat er + 4 - unat (current_commit_round (info st))
      | REVEAL \<Rightarrow> unat er + 2 - unat (current_reveal_round (info st))
      | TALLY \<Rightarrow> 0)"

lemma request_ok_new [simp]: "request_ok er (new_dr_state d k e h)"
  by (simp add: request_ok_def new_dr_state_def default_dr_info_def)

lemma rounds_left_new: "rounds_left er (new_dr_state d k e h) = 2 * unat er + 4"
  by (simp add: rounds_left_def new_dr_state_def default_dr_info_def)

lemma round_inc:
  fixes r er :: u16
  assumes "unat er < 65535" and "r \<le> er"
  shows "unat (r + 1) = unat r + 1"
  using assms unat_add_nowrap [of r 1] by (simp add: word_le_nat_alt)

lemma add_commit_keeps:
  "request_ok er st \<Longrightarrow> request_ok er (snd (state_add_commit k c st))"
  "rounds_left er (snd (state_add_commit k c st)) = rounds_left er st"
  "stage (snd (state_add_commit k c st)) = stage st"
  "dr_epoch (snd (state_add_commit k c st)) = dr_epoch st"
  by (auto simp: state_add_commit_def request_ok_def rounds_left_def split: dr_stage.split)

lemma add_reveal_keeps:
  "request_ok er st \<Longrightarrow> request_ok er (snd (state_add_reveal k r st))"
  "rounds_left er (snd (state_add_reveal k r st)) = rounds_left er st"
  "stage (snd (state_add_reveal k r st)) = stage st"
  "dr_epoch (snd (state_add_reveal k r st)) = dr_epoch st"
  by (auto simp: state_add_reveal_def request_ok_def rounds_left_def split: dr_stage.split)

lemma update_stage_total:
  "tally (info st) = None \<Longrightarrow> \<exists>st'. update_stage er tm st = Ok st'"
  by (cases "stage st") (auto simp: update_stage_def Let_def)

lemma update_stage_keeps:
  assumes "update_stage er tm st = Ok st'"
  shows "dr_epoch st' = dr_epoch st" and "dr_request st' = dr_request st"
    and "commits (info st') = commits (info st)" and "reveals (info st') = reveals (info st)"
    and "stage st' = COMMIT \<Longrightarrow> stage st = COMMIT"
    and "stage st = TALLY \<Longrightarrow> stage st' = TALLY"
  using assms
  by (auto simp: update_stage_def set_stage_def Let_def split: dr_stage.splits if_splits)

lemma update_stage_ok:
  assumes "request_ok er st" and "unat er < 65535" and "update_stage er tm st = Ok st'"
  shows "request_ok er st'" and "stage st \<noteq> TALLY \<Longrightarrow> rounds_left er st' < rounds_left er st"
    and "stage st' = REVEAL \<Longrightarrow> stage st = REVEAL \<Longrightarrow> current_reveal_round (info st') \<noteq> 1"
    and "stage st' = REVEAL \<Longrightarrow> stage st = COMMIT \<Longrightarrow> current_reveal_round (info st') = 1"
  using assms round_inc [OF assms(2), of "current_commit_round (info st)"]
    round_inc [OF assms(2), of "current_reveal_round (info st)"]
  by (auto simp: update_stage_def set_stage_def request_ok_def rounds_left_def Let_def word_le_nat_alt
      word_unat_eq_iff split: dr_stage.splits if_splits)

lemma request_run_progress:
  assumes "request_ok er st" and "unat er < 65535"
  shows "\<exists>st'. request_run er evs st = Some st' \<and> request_ok er st'
           \<and> (stage st = TALLY \<longrightarrow> stage st' = TALLY)
           \<and> (rounds_left er st \<le> block_events evs \<longrightarrow> stage st' = TALLY)"
  using assms(1)
proof (induction evs arbitrary: st)
  case Nil
  then show ?case
    by (auto simp: rounds_left_def block_events_def request_ok_def split: dr_stage.splits)
next
  case (Cons ev evs)
  show ?case
  proof (cases ev)
    case (CommitEvent k c)
    then show ?thesis
      using Cons.IH [OF add_commit_keeps(1) [OF Cons.prems, of k c]]
      by (simp add: add_commit_keeps block_events_def)
  next
    case (RevealEvent k r)
    then show ?thesis
      using Cons.IH [OF add_reveal_keeps(1) [OF Cons.prems, of k r]]
      by (simp add: add_reveal_keeps block_events_def)
  next
    case (BlockEvent tm)
    obtain st1 where st1: "update_stage er tm st = Ok st1"
      using update_stage_total [of st er tm] Cons.prems by (auto simp: request_ok_def)
    note ok = update_stage_ok [OF Cons.prems assms(2) st1]
    from Cons.IH [OF ok(1)] obtain st' where
      st': "request_run er evs st1 = Some st'" "request_ok er st'"
        "stage st1 = TALLY \<longrightarrow> stage st' = TALLY"
        "rounds_left er st1 \<le> block_events evs \<longrightarrow> stage st' = TALLY" by blast
    have "stage st' = TALLY" if "rounds_left er st \<le> block_events (ev # evs)"
      using that ok(2) st'(3,4) update_stage_keeps(6) [OF st1] BlockEvent
      by (cases "stage st = TALLY") (auto simp: block_events_def)
    then show ?thesis
      using st' st1 BlockEvent update_stage_keeps(6) [OF st1] by auto
  qed
qed

text \<open>Claim C2: a data request is always resolved. Whatever commitments and reveals arrive, in
  whatever order and number, and whatever the number of validators, the state of a new request
  never makes the node panic, and after at most \<^verbatim>\<open>2 * extra_rounds + 4\<close> blocks it is in
  the tally stage, where it stays.\<close>

theorem request_reaches_tally:
  assumes "unat er < 65535"
  shows "\<exists>st. request_run er evs (new_dr_state d k e h) = Some st
           \<and> current_stage (info st) = Some (stage st)
           \<and> (2 * unat er + 4 \<le> block_events evs \<longrightarrow> stage st = TALLY)
           \<and> (\<forall>evs'. stage st = TALLY \<longrightarrow>
                (\<exists>st'. request_run er evs' st = Some st' \<and> stage st' = TALLY))"
proof -
  obtain st where st: "request_run er evs (new_dr_state d k e h) = Some st" "request_ok er st"
    "2 * unat er + 4 \<le> block_events evs \<longrightarrow> stage st = TALLY"
    using request_run_progress [OF request_ok_new assms] unfolding rounds_left_new by blast
  moreover have "\<exists>st'. request_run er evs' st = Some st' \<and> stage st' = TALLY"
    if "stage st = TALLY" for evs'
    using request_run_progress [OF st(2) assms, of evs'] that by blast
  ultimately show ?thesis by (auto simp: request_ok_def)
qed

definition sample_request :: data_request_output where
  "sample_request =
     \<lparr>data_request = \<lparr>rad_time_lock = 0, retrieve = [], aggregate = \<lparr>stage_filters = [], stage_reducer = 1\<rparr>,
        tally_stage = \<lparr>stage_filters = [], stage_reducer = 1\<rparr>\<rparr>,
      witness_reward = 10, witnesses = 2, commit_and_reveal_fee = 3, min_consensus_percentage = 51,
      collateral = 100\<rparr>"

definition sample_commit :: commit_transaction where
  "sample_commit =
     \<lparr>commit_dr_pointer = [9], commitment = [], commit_proof = [], commit_collateral = [],
      commit_outputs = [], commit_bn256_public_key = None,
      commit_signatures = [\<lparr>ks_signature = [], ks_public_key = [7]\<rparr>]\<rparr>"

theorem request_reaches_tally_witness:
  "\<exists>st. request_run 1 (BlockEvent False # CommitEvent [7] sample_commit # replicate 5 (BlockEvent False))
           (new_dr_state sample_request [1] 100 None) = Some st \<and> stage st = TALLY"
  using request_reaches_tally [of 1 "BlockEvent False # CommitEvent [7] sample_commit # replicate 5 (BlockEvent False)"
      sample_request "[1]" 100 None]
  by (auto simp: block_events_def)

subsection \<open>The index of the pool\<close>

definition index_wf :: "(epoch \<times> hash list) list \<Rightarrow> bool" where
  "index_wf idx \<longleftrightarrow> bt_wf idx \<and> (\<forall>(e, hs) \<in> set idx. hs \<noteq> [] \<and> distinct hs)"

lemma index_wfD: "index_wf idx \<Longrightarrow> map_of idx e = Some hs \<Longrightarrow> hs \<noteq> [] \<and> distinct hs"
  by (auto simp: index_wf_def dest: map_of_SomeD)

lemma distinct_epoch_index: "index_wf idx \<Longrightarrow> distinct (epoch_index idx e)"
  by (auto simp: epoch_index_def dest: index_wfD split: option.split)

lemma index_wf_insert:
  "index_wf idx \<Longrightarrow> hs \<noteq> [] \<Longrightarrow> distinct hs \<Longrightarrow> index_wf (bt_insert e hs idx)"
  by (auto simp: index_wf_def bt_wf_insert btm.set_insert_kv)

lemma index_wf_unindex: "index_wf idx \<Longrightarrow> index_wf (unindex e h idx)"
  using index_wfD [of idx e]
  by (auto simp: unindex_def Let_def index_wf_insert distinct_removeAll split: option.split)
    (auto simp: index_wf_def bt_wf_remove btm.set_remove_k)

lemma removeAll_eq_Nil: "removeAll x xs = [] \<longleftrightarrow> set xs \<subseteq> {x}"
  by (induction xs) auto

lemma set_epoch_index_unindex:
  assumes "index_wf idx"
  shows "set (epoch_index (unindex e h idx) e') =
           (if e' = e then set (epoch_index idx e) - {h} else set (epoch_index idx e'))"
proof (cases "map_of idx e")
  case None
  then show ?thesis by (auto simp: unindex_def epoch_index_def)
next
  case (Some hs)
  then show ?thesis
    by (auto simp: unindex_def epoch_index_def Let_def lookup_bt_insert lookup_bt_remove
        removeAll_eq_Nil)
qed

lemma set_epoch_index_insert:
  "set (epoch_index (bt_insert e (List.insert h (epoch_index idx e)) idx) e') =
     (if e' = e then insert h (set (epoch_index idx e)) else set (epoch_index idx e'))"
  by (auto simp: epoch_index_def lookup_bt_insert)

lemma get_dr_output_pointers_iff:
  assumes "index_wf (data_requests_by_epoch p)"
  shows "h \<in> set (get_dr_output_pointers_by_epoch p e) \<longleftrightarrow>
           (\<exists>e' \<le> e. h \<in> set (epoch_index (data_requests_by_epoch p) e'))"
proof -
  have "h \<in> set (epoch_index (data_requests_by_epoch p) e') \<longleftrightarrow>
          (\<exists>hs. (e', hs) \<in> set (data_requests_by_epoch p) \<and> h \<in> set hs)" for e'
    using assms by (cases "map_of (data_requests_by_epoch p) e'") (auto simp: index_wf_def epoch_index_def btm.entry_iff)
  then show ?thesis by (auto simp: get_dr_output_pointers_by_epoch_def)
qed

text \<open>The pool is consistent: the index holds exactly the requests that expect commitments, under
  the epoch they were added at.\<close>

definition dr_pool_inv :: "dr_pool \<Rightarrow> bool" where
  "dr_pool_inv p \<longleftrightarrow>
     hm_wf (data_request_pool p) \<and> hm_wf (waiting_for_reveal p) \<and> index_wf (data_requests_by_epoch p)
     \<and> (\<forall>h r. map_of (waiting_for_reveal p) h = Some r \<longrightarrow> reveal_signatures r \<noteq> [])
     \<and> (\<forall>h st. map_of (data_request_pool p) h = Some st \<longrightarrow> request_ok (extra_rounds p) st)
     \<and> (\<forall>e h. h \<in> set (epoch_index (data_requests_by_epoch p) e) \<longleftrightarrow>
          (\<exists>st. map_of (data_request_pool p) h = Some st \<and> stage st = COMMIT \<and> dr_epoch st = e))"

lemma dr_pool_invD:
  assumes "dr_pool_inv p"
  shows "hm_wf (data_request_pool p)" and "hm_wf (waiting_for_reveal p)"
    and "index_wf (data_requests_by_epoch p)"
    and "map_of (waiting_for_reveal p) h = Some r \<Longrightarrow> reveal_signatures r \<noteq> []"
    and "map_of (data_request_pool p) h = Some st \<Longrightarrow> request_ok (extra_rounds p) st"
    and "h \<in> set (epoch_index (data_requests_by_epoch p) e) \<longleftrightarrow>
      (\<exists>st. map_of (data_request_pool p) h = Some st \<and> stage st = COMMIT \<and> dr_epoch st = e)"
  using assms unfolding dr_pool_inv_def by blast+

subsection \<open>One stage update of the whole pool\<close>

definition next_state :: "u16 \<Rightarrow> (data_request_output \<Rightarrow> bool) \<Rightarrow> dr_state \<Rightarrow> dr_state" where
  "next_state er tm st = (case update_stage er (tm (dr_request st)) st of Ok st' \<Rightarrow> st' | _ \<Rightarrow> st)"

text \<open>When a request leaves the index, and when the reveal of this node is due.\<close>

definition leaves_index :: "dr_state \<Rightarrow> bool" where
  "leaves_index st \<longleftrightarrow> stage st = TALLY \<or> stage st = REVEAL \<and> current_reveal_round (info st) = 1"

definition reveal_due :: "(u8 list \<Rightarrow> pkh) \<Rightarrow> reveal_transaction \<Rightarrow> dr_state \<Rightarrow> bool" where
  "reveal_due pkh_of r st \<longleftrightarrow>
     (let k = pkh_of (ks_public_key (hd (reveal_signatures r)))
      in stage st = REVEAL \<and> map_of (commits (info st)) k \<noteq> None \<and> map_of (reveals (info st)) k = None)"

lemma update_request_result:
  assumes "tally (info st) = None" and "\<And>r. map_of wfr h = Some r \<Longrightarrow> reveal_signatures r \<noteq> []"
  shows "update_request pkh_of er (tm (dr_request st)) h st idx wfr =
           (let st' = next_state er tm st
            in Ok (st', if leaves_index st' then unindex (dr_epoch st) h idx else idx,
                   if stage st' = TALLY then AList.delete h wfr else wfr,
                   case map_of wfr h of
                     Some r \<Rightarrow> if reveal_due pkh_of r st' then Some r else None
                   | None \<Rightarrow> None))"
proof -
  obtain st' where st': "update_stage er (tm (dr_request st)) st = Ok st'"
    using update_stage_total [of st er "tm (dr_request st)"] assms(1) by auto
  show ?thesis
    using assms(2) update_stage_keeps(1) [OF st']
    by (auto simp: update_request_def st' next_state_def leaves_index_def reveal_due_def Let_def
        neq_Nil_conv split: dr_stage.split option.split list.split)
qed

lemma update_requests_result:
  assumes "distinct (map fst m)" and "index_wf idx" and "hm_wf wfr"
    and "\<And>h st. (h, st) \<in> set m \<Longrightarrow> tally (info st) = None"
    and "\<And>h r. map_of wfr h = Some r \<Longrightarrow> reveal_signatures r \<noteq> []"
  obtains idx' wfr' rs where
    "update_requests pkh_of er tm m idx wfr = Ok (map (map_prod id (next_state er tm)) m, idx', wfr', rs)"
    "index_wf idx'" "hm_wf wfr'"
    "\<And>h. map_of wfr' h =
       (if \<exists>st. (h, st) \<in> set m \<and> stage (next_state er tm st) = TALLY then None else map_of wfr h)"
    "\<And>e h. h \<in> set (epoch_index idx' e) \<longleftrightarrow> h \<in> set (epoch_index idx e) \<and>
       \<not> (\<exists>st. (h, st) \<in> set m \<and> dr_epoch st = e \<and> leaves_index (next_state er tm st))"
    "set rs = {r. \<exists>h st. (h, st) \<in> set m \<and> map_of wfr h = Some r \<and> reveal_due pkh_of r (next_state er tm st)}"
  using assms
proof (induction m arbitrary: idx wfr thesis)
  case Nil
  then show ?case by simp
next
  case (Cons x m)
  obtain h st where x: "x = (h, st)" by force
  define st' where "st' = next_state er tm st"
  define idx1 where "idx1 = (if leaves_index st' then unindex (dr_epoch st) h idx else idx)"
  define wfr1 where "wfr1 = (if stage st' = TALLY then AList.delete h wfr else wfr)"
  define r where "r = (case map_of wfr h of
      Some r \<Rightarrow> if reveal_due pkh_of r st' then Some r else None | None \<Rightarrow> None)"
  have one: "update_request pkh_of er (tm (dr_request st)) h st idx wfr = Ok (st', idx1, wfr1, r)"
    unfolding st'_def idx1_def wfr1_def r_def
    using Cons.prems(5,6) x by (subst update_request_result) (auto simp: Let_def)
  have wfr1: "map_of wfr1 h' = (if h' = h \<and> stage st' = TALLY then None else map_of wfr h')" for h'
    using Cons.prems(4) by (simp add: wfr1_def hm.lookup_remove)
  have notin: "(h, s) \<notin> set m" for s using Cons.prems(2) x by force
  have pre: "distinct (map fst m)" "index_wf idx1" "hm_wf wfr1"
    "\<And>h st. (h, st) \<in> set m \<Longrightarrow> tally (info st) = None"
    "\<And>h r. map_of wfr1 h = Some r \<Longrightarrow> reveal_signatures r \<noteq> []"
    using Cons.prems(2-6) x
    by (auto simp: idx1_def index_wf_unindex wfr1 split: if_splits)
      (auto simp: wfr1_def hm.invar_remove)
  obtain idx' wfr' rs where rest:
    "update_requests pkh_of er tm m idx1 wfr1 = Ok (map (map_prod id (next_state er tm)) m, idx', wfr', rs)"
    "index_wf idx'" "hm_wf wfr'"
    "\<And>h. map_of wfr' h =
       (if \<exists>st. (h, st) \<in> set m \<and> stage (next_state er tm st) = TALLY then None else map_of wfr1 h)"
    "\<And>e h. h \<in> set (epoch_index idx' e) \<longleftrightarrow> h \<in> set (epoch_index idx1 e) \<and>
       \<not> (\<exists>st. (h, st) \<in> set m \<and> dr_epoch st = e \<and> leaves_index (next_state er tm st))"
    "set rs = {r. \<exists>h st. (h, st) \<in> set m \<and> map_of wfr1 h = Some r \<and> reveal_due pkh_of r (next_state er tm st)}"
    by (rule Cons.IH [OF _ pre], rule that; assumption)
  have same: "map_of wfr1 h' = map_of wfr h'" if "(h', s) \<in> set m" for h' s
    using that notin by (auto simp: wfr1)
  have rs: "set rs =
      {r. \<exists>h st. (h, st) \<in> set m \<and> map_of wfr h = Some r \<and> reveal_due pkh_of r (next_state er tm st)}"
    unfolding rest(6) by (rule Collect_cong) (use same in \<open>fastforce\<close>)
  show ?case
  proof (rule Cons.prems(1))
    show "update_requests pkh_of er tm (x # m) idx wfr =
        Ok (map (map_prod id (next_state er tm)) (x # m), idx', wfr', (case r of Some y \<Rightarrow> y # rs | None \<Rightarrow> rs))"
      by (simp add: x one rest(1) st'_def)
    show "index_wf idx'" "hm_wf wfr'" by fact+
    show "map_of wfr' h' =
        (if \<exists>st. (h', st) \<in> set (x # m) \<and> stage (next_state er tm st) = TALLY then None else map_of wfr h')" for h'
      by (auto simp: rest(4) wfr1 x st'_def)
    show "h' \<in> set (epoch_index idx' e) \<longleftrightarrow> h' \<in> set (epoch_index idx e) \<and>
        \<not> (\<exists>st. (h', st) \<in> set (x # m) \<and> dr_epoch st = e \<and> leaves_index (next_state er tm st))" for e h'
      using Cons.prems(3) by (auto simp: rest(5) x idx1_def st'_def set_epoch_index_unindex)
    show "set (case r of Some y \<Rightarrow> y # rs | None \<Rightarrow> rs) =
        {r. \<exists>h st. (h, st) \<in> set (x # m) \<and> map_of wfr h = Some r \<and> reveal_due pkh_of r (next_state er tm st)}"
      by (auto simp: rs x r_def st'_def split: option.splits if_splits)
  qed
qed

lemma map_of_next: "map_of (map (map_prod id f) m) h = map_option f (map_of m h)"
  by (induction m) auto

lemma update_stage_next:
  "tally (info st) = None \<Longrightarrow> update_stage er (tm (dr_request st)) st = Ok (next_state er tm st)"
  using update_stage_total [of st er "tm (dr_request st)"] by (auto simp: next_state_def)

lemma next_state_ok:
  assumes "request_ok er st" and "unat er < 65535"
  shows "request_ok er (next_state er tm st)" and "dr_epoch (next_state er tm st) = dr_epoch st"
    and "leaves_index (next_state er tm st) \<or> stage st \<noteq> COMMIT \<longleftrightarrow> stage (next_state er tm st) \<noteq> COMMIT"
proof -
  obtain st' where st': "update_stage er (tm (dr_request st)) st = Ok st'"
    using update_stage_total [of st er "tm (dr_request st)"] assms(1) by (auto simp: request_ok_def)
  note ok = update_stage_ok [OF assms st'] and keeps = update_stage_keeps [OF st']
  show "request_ok er (next_state er tm st)" "dr_epoch (next_state er tm st) = dr_epoch st"
    using ok(1) keeps(1) by (simp_all add: next_state_def st')
  show "leaves_index (next_state er tm st) \<or> stage st \<noteq> COMMIT \<longleftrightarrow> stage (next_state er tm st) \<noteq> COMMIT"
    using ok(4) keeps(5) by (cases "stage st'"; cases "stage st") (auto simp: next_state_def st' leaves_index_def)
qed

lemma update_stages_keeps_inv:
  assumes "dr_pool_inv p" and "unat (extra_rounds p) < 65535"
  obtains rs p' where "update_data_request_stages pkh_of pi vc e p = Ok (rs, p')" "dr_pool_inv p'"
    "extra_rounds p' = extra_rounds p"
    "\<And>h. map_of (data_request_pool p') h = map_option (next_state (extra_rounds p)
        (\<lambda>d. data_request_has_too_many_witnesses pi d (validators_or_default vc) e))
        (map_of (data_request_pool p) h)"
    "set rs = {r. \<exists>h st. map_of (data_request_pool p') h = Some st
                  \<and> map_of (waiting_for_reveal p) h = Some r \<and> reveal_due pkh_of r st}"
proof -
  define tm where "tm = (\<lambda>d. data_request_has_too_many_witnesses pi d (validators_or_default vc) e)"
  let ?m = "data_request_pool p" and ?er = "extra_rounds p"
  note inv = dr_pool_invD [OF assms(1)]
  have pool: "\<And>h st. (h, st) \<in> set ?m \<longleftrightarrow> map_of ?m h = Some st"
    by (simp add: hm.entry_iff inv(1))
  note ok = inv(5)
  have open_requests: "tally (info st) = None" if "(h, st) \<in> set ?m" for h st
    using ok [of h st] that by (simp add: pool request_ok_def)
  note pre = hm.invar_distinct [OF inv(1)] inv(3) inv(2) open_requests inv(4)
  obtain idx' wfr' rs where res:
    "update_requests pkh_of ?er tm ?m (data_requests_by_epoch p) (waiting_for_reveal p)
       = Ok (map (map_prod id (next_state ?er tm)) ?m, idx', wfr', rs)"
    "index_wf idx'" "hm_wf wfr'"
    "\<And>h. map_of wfr' h = (if \<exists>st. (h, st) \<in> set ?m \<and> stage (next_state ?er tm st) = TALLY then None
        else map_of (waiting_for_reveal p) h)"
    "\<And>e h. h \<in> set (epoch_index idx' e) \<longleftrightarrow> h \<in> set (epoch_index (data_requests_by_epoch p) e) \<and>
       \<not> (\<exists>st. (h, st) \<in> set ?m \<and> dr_epoch st = e \<and> leaves_index (next_state ?er tm st))"
    "set rs = {r. \<exists>h st. (h, st) \<in> set ?m \<and> map_of (waiting_for_reveal p) h = Some r
        \<and> reveal_due pkh_of r (next_state ?er tm st)}"
    by (rule update_requests_result [where pkh_of = pkh_of and er = ?er and tm = tm, OF pre],
        assumption, assumption, rule that; assumption)
  define p' where "p' = p\<lparr>data_request_pool := map (map_prod id (next_state ?er tm)) ?m,
      data_requests_by_epoch := idx', waiting_for_reveal := wfr'\<rparr>"
  have look: "map_of (data_request_pool p') h = map_option (next_state ?er tm) (map_of ?m h)" for h
    by (simp add: p'_def map_of_next)
  have idx: "h \<in> set (epoch_index idx' e) \<longleftrightarrow>
      (\<exists>st. map_of (data_request_pool p') h = Some st \<and> stage st = COMMIT \<and> dr_epoch st = e)" for h e
    unfolding res(5) look pool inv(6)
    using next_state_ok(2,3) [OF ok assms(2), of h _ tm] by (cases "map_of ?m h") auto
  have "dr_pool_inv p'"
    unfolding dr_pool_inv_def
  proof (intro conjI allI impI)
    show "hm_wf (data_request_pool p')"
      using inv(1) by (simp add: p'_def hm_wf_def comp_def split_def)
    show "hm_wf (waiting_for_reveal p')" "index_wf (data_requests_by_epoch p')"
      using res(2,3) by (simp_all add: p'_def)
    show "reveal_signatures r \<noteq> []" if "map_of (waiting_for_reveal p') h = Some r" for h r
      using that inv(4) [of h r] by (simp add: p'_def res(4) split: if_splits)
    show "request_ok (extra_rounds p') st" if "map_of (data_request_pool p') h = Some st" for h st
      using that next_state_ok(1) [OF ok assms(2)] by (auto simp: look) (simp add: p'_def)
    show "h \<in> set (epoch_index (data_requests_by_epoch p') e) \<longleftrightarrow>
        (\<exists>st. map_of (data_request_pool p') h = Some st \<and> stage st = COMMIT \<and> dr_epoch st = e)" for e h
      using idx by (simp add: p'_def)
  qed
  moreover have "set rs = {r. \<exists>h st. map_of (data_request_pool p') h = Some st
        \<and> map_of (waiting_for_reveal p) h = Some r \<and> reveal_due pkh_of r st}"
    by (auto simp: res(6) pool look)
  moreover have "update_data_request_stages pkh_of pi vc e p = Ok (rs, p')"
    using res(1) by (simp add: update_data_request_stages_def tm_def p'_def)
  ultimately show thesis using look that by (simp add: tm_def p'_def)
qed

subsection \<open>The other operations keep the pool consistent\<close>

lemma dr_pool_inv_new: "dr_pool_inv (new_dr_pool er)"
  by (simp add: dr_pool_inv_def new_dr_pool_def hm.invar_Nil index_wf_def btm.invar_Nil epoch_index_def)

lemma dr_pool_inv_entry:
  assumes "dr_pool_inv p" and "map_of (data_request_pool p) h = Some st"
    and "request_ok (extra_rounds p) st'" and "stage st' = stage st" and "dr_epoch st' = dr_epoch st"
  shows "dr_pool_inv (p\<lparr>data_request_pool := AList.update h st' (data_request_pool p)\<rparr>)"
  using dr_pool_invD [OF assms(1)] assms(2-)
  by (simp add: dr_pool_inv_def hm.invar_insert hm.lookup_insert)

lemma add_data_request_inv:
  assumes "dr_pool_inv p"
    and "map_of (data_request_pool p) (dr_hash (get_protocol_version pi (Some e)) tx) = None"
  shows "dr_pool_inv (snd (add_data_request dr_hash pkh_of pi e tx bh p))"
proof (cases "dr_signatures tx")
  case Nil
  then show ?thesis using assms by (simp add: add_data_request_def Let_def)
next
  case (Cons sig sigs)
  let ?h = "dr_hash (get_protocol_version pi (Some e)) tx"
  let ?st = "new_dr_state (dr_output tx) (pkh_of (ks_public_key sig)) e bh"
  note inv = dr_pool_invD [OF assms(1)]
  have st: "stage ?st = COMMIT" "dr_epoch ?st = e" by (simp_all add: new_dr_state_def)
  define idx where "idx = bt_insert e (List.insert ?h (epoch_index (data_requests_by_epoch p) e))
      (data_requests_by_epoch p)"
  have "index_wf idx"
    unfolding idx_def using inv(3) by (intro index_wf_insert) (auto simp: distinct_epoch_index List.insert_def)
  moreover have "h \<in> set (epoch_index idx e') \<longleftrightarrow>
      (\<exists>st. ((map_of (data_request_pool p))(?h \<mapsto> ?st)) h = Some st \<and> stage st = COMMIT \<and> dr_epoch st = e')" for h e'
    unfolding idx_def set_epoch_index_insert using assms(2) st by (auto simp: inv(6))
  ultimately show ?thesis
    using inv(1,2,4,5) unfolding dr_pool_inv_def
    by (simp add: add_data_request_def Cons Let_def hm.invar_insert hm.lookup_insert flip: idx_def)
qed

lemma pool_add_commit_inv:
  assumes "dr_pool_inv p"
  shows "dr_pool_inv (snd (pool_add_commit commit_hash pi e k c bh p))"
proof (cases "map_of (data_request_pool p) (commit_dr_pointer c)")
  case (Some st)
  have "dr_pool_inv (p\<lparr>data_request_pool :=
      AList.update (commit_dr_pointer c) (snd (state_add_commit k c st)) (data_request_pool p)\<rparr>)"
    by (rule dr_pool_inv_entry [OF assms Some])
      (simp_all add: add_commit_keeps dr_pool_invD(5) [OF assms Some])
  then show ?thesis by (simp add: pool_add_commit_def Some Let_def split_def)
qed (simp add: assms pool_add_commit_def Let_def)

lemma pool_add_reveal_inv:
  assumes "dr_pool_inv p"
  shows "dr_pool_inv (snd (pool_add_reveal reveal_hash pi e k r bh p))"
proof (cases "map_of (data_request_pool p) (reveal_dr_pointer r)")
  case (Some st)
  have "dr_pool_inv (p\<lparr>data_request_pool :=
      AList.update (reveal_dr_pointer r) (snd (state_add_reveal k r st)) (data_request_pool p)\<rparr>)"
    by (rule dr_pool_inv_entry [OF assms Some])
      (simp_all add: add_reveal_keeps dr_pool_invD(5) [OF assms Some])
  then show ?thesis by (simp add: pool_add_reveal_def Some Let_def split_def)
qed (simp add: assms pool_add_reveal_def Let_def)

lemma pool_add_tally_inv:
  assumes "dr_pool_inv p"
    and "\<And>st. map_of (data_request_pool p) (tally_dr_pointer t) = Some st \<Longrightarrow> stage st = TALLY"
  shows "dr_pool_inv (snd (pool_add_tally tally_hash t bh p))"
proof (cases "map_of (data_request_pool p) (tally_dr_pointer t)")
  case (Some st)
  have "stage st = TALLY" using assms(2) Some .
  then show ?thesis
    using dr_pool_invD [OF assms(1)] Some unfolding dr_pool_inv_def
    by (auto simp: pool_add_tally_def resolve_data_request_def state_add_tally_def Let_def
        hm.invar_remove hm.lookup_remove)
qed (simp add: assms pool_add_tally_def resolve_data_request_def)

lemma insert_reveal_inv:
  "dr_pool_inv p \<Longrightarrow> reveal_signatures r \<noteq> [] \<Longrightarrow> dr_pool_inv (insert_reveal h r p)"
  by (simp add: dr_pool_inv_def insert_reveal_def hm.invar_insert hm.lookup_insert)

text \<open>The pools that a node can reach. A request is added once, and a tally only resolves a
  request in the tally stage: both are conditions on a valid block.\<close>

inductive pool_reachable ::
  "(protocol_version \<Rightarrow> dr_transaction \<Rightarrow> hash) \<Rightarrow> (protocol_version \<Rightarrow> commit_transaction \<Rightarrow> hash) \<Rightarrow>
   (protocol_version \<Rightarrow> reveal_transaction \<Rightarrow> hash) \<Rightarrow> (tally_transaction \<Rightarrow> hash) \<Rightarrow> (u8 list \<Rightarrow> pkh) \<Rightarrow>
   protocol_info \<Rightarrow> u16 \<Rightarrow> dr_pool \<Rightarrow> bool"
  for dr_hash commit_hash reveal_hash tally_hash pkh_of pi er
where
  init: "pool_reachable dr_hash commit_hash reveal_hash tally_hash pkh_of pi er (new_dr_pool er)"
| request: "pool_reachable dr_hash commit_hash reveal_hash tally_hash pkh_of pi er p \<Longrightarrow>
    map_of (data_request_pool p) (dr_hash (get_protocol_version pi (Some e)) tx) = None \<Longrightarrow>
    pool_reachable dr_hash commit_hash reveal_hash tally_hash pkh_of pi er
      (snd (process_data_request dr_hash pkh_of pi tx e bh p))"
| commit: "pool_reachable dr_hash commit_hash reveal_hash tally_hash pkh_of pi er p \<Longrightarrow>
    pool_reachable dr_hash commit_hash reveal_hash tally_hash pkh_of pi er
      (snd (process_commit commit_hash pkh_of pi c e' b p))"
| reveal: "pool_reachable dr_hash commit_hash reveal_hash tally_hash pkh_of pi er p \<Longrightarrow>
    pool_reachable dr_hash commit_hash reveal_hash tally_hash pkh_of pi er
      (snd (process_reveal reveal_hash pkh_of pi r e' b p))"
| tally: "pool_reachable dr_hash commit_hash reveal_hash tally_hash pkh_of pi er p \<Longrightarrow>
    (\<And>st. map_of (data_request_pool p) (tally_dr_pointer t) = Some st \<Longrightarrow> stage st = TALLY) \<Longrightarrow>
    pool_reachable dr_hash commit_hash reveal_hash tally_hash pkh_of pi er
      (snd (process_tally tally_hash t b p))"
| wait: "pool_reachable dr_hash commit_hash reveal_hash tally_hash pkh_of pi er p \<Longrightarrow>
    reveal_signatures r \<noteq> [] \<Longrightarrow>
    pool_reachable dr_hash commit_hash reveal_hash tally_hash pkh_of pi er (insert_reveal h r p)"
| stages: "pool_reachable dr_hash commit_hash reveal_hash tally_hash pkh_of pi er p \<Longrightarrow>
    update_data_request_stages pkh_of pi vc eo p = Ok (rs, p') \<Longrightarrow>
    pool_reachable dr_hash commit_hash reveal_hash tally_hash pkh_of pi er p'"
| store: "pool_reachable dr_hash commit_hash reveal_hash tally_hash pkh_of pi er p \<Longrightarrow>
    pool_reachable dr_hash commit_hash reveal_hash tally_hash pkh_of pi er (snd (finished_data_requests p))"

lemma extra_rounds_kept [simp]:
  "extra_rounds (snd (add_data_request dr_hash pkh_of pi e tx bh p)) = extra_rounds p"
  "extra_rounds (snd (pool_add_commit commit_hash pi e k c b p)) = extra_rounds p"
  "extra_rounds (snd (pool_add_reveal reveal_hash pi e k r b p)) = extra_rounds p"
  "extra_rounds (snd (pool_add_tally tally_hash t b p)) = extra_rounds p"
  "extra_rounds (insert_reveal h r p) = extra_rounds p"
  by (auto simp: add_data_request_def pool_add_commit_def pool_add_reveal_def pool_add_tally_def
      insert_reveal_def Let_def split: list.split option.split prod.split outcome.split)

lemma pool_reachable_inv:
  assumes "pool_reachable dr_hash commit_hash reveal_hash tally_hash pkh_of pi er p" and "unat er < 65535"
  shows "dr_pool_inv p \<and> extra_rounds p = er"
  using assms(1)
proof (induction rule: pool_reachable.induct)
  case (stages p vc eo rs p')
  then show ?case
    using update_stages_keeps_inv [of p pkh_of pi vc eo] assms(2) by (metis Pair_inject outcome.inject(1))
next
  case (tally p t b)
  then show ?case by (auto simp: process_tally_def pool_add_tally_inv)
next
  case (store p)
  then show ?case by (auto simp: finished_data_requests_def dr_pool_inv_def)
next
  case init
  then show ?case using dr_pool_inv_new [of er] by (simp add: new_dr_pool_def)
qed (auto simp: process_data_request_def add_data_request_inv
    process_commit_def pool_add_commit_inv process_reveal_def pool_add_reveal_inv insert_reveal_inv
    split: list.split)

lemma distinct_pointers:
  assumes "dr_pool_inv p"
  shows "distinct (get_dr_output_pointers_by_epoch p e)"
proof -
  let ?idx = "data_requests_by_epoch p"
  have wf: "bt_wf ?idx" using dr_pool_invD(3) [OF assms] by (simp add: index_wf_def)
  have sub: "h \<in> set (epoch_index ?idx e')" if "(e', hs) \<in> set ?idx" "h \<in> set hs" for e' hs h
    using that wf by (simp add: epoch_index_def btm.entry_iff)
  have ne: "hs \<noteq> [] \<and> distinct hs" if "(e', hs) \<in> set ?idx" for e' hs
    using that dr_pool_invD(3) [OF assms] by (auto simp: index_wf_def)
  have disj: "e1 = e2" if "(e1, hs1) \<in> set ?idx" "(e2, hs2) \<in> set ?idx" "h \<in> set hs1" "h \<in> set hs2" for e1 e2 hs1 hs2 h
    using sub [OF that(1,3)] sub [OF that(2,4)] by (auto simp: dr_pool_invD(6) [OF assms])
  have "inj_on snd (set ?idx)"
    using ne disj by (intro inj_onI) (metis list.set_intros(1) neq_Nil_conv prod.collapse)
  then have "distinct (map snd (filter (\<lambda>(e', _). e' \<le> e) ?idx))"
    using btm.distinct_entries [OF wf] by (auto simp: distinct_map intro: inj_on_subset)
  then show ?thesis
    unfolding get_dr_output_pointers_by_epoch_def
  proof (rule distinct_concat)
    fix hs assume "hs \<in> set (map snd (filter (\<lambda>(e', _). e' \<le> e) ?idx))"
    then show "distinct hs" using ne by auto
  next
    fix hs1 hs2 assume "hs1 \<in> set (map snd (filter (\<lambda>(e', _). e' \<le> e) ?idx))"
      "hs2 \<in> set (map snd (filter (\<lambda>(e', _). e' \<le> e) ?idx))" and neq: "hs1 \<noteq> hs2"
    then obtain e1 e2 where "(e1, hs1) \<in> set ?idx" "(e2, hs2) \<in> set ?idx" by auto
    then show "set hs1 \<inter> set hs2 = {}"
      using disj neq wf by (metis btm.entry_iff disjoint_iff option.inject)
  qed
qed

text \<open>Claim C15: in every reachable pool the index used for mining is exact: the pointers returned
  for an epoch are, without repetition, precisely the requests of the pool that still expect
  commitments and were added at that epoch or before.\<close>

theorem mining_index_exact:
  assumes "pool_reachable dr_hash commit_hash reveal_hash tally_hash pkh_of pi er p"
    and "unat er < 65535"
  shows "distinct (get_dr_output_pointers_by_epoch p e)
    \<and> set (get_dr_output_pointers_by_epoch p e) =
        {h. \<exists>st. map_of (data_request_pool p) h = Some st \<and> stage st = COMMIT \<and> dr_epoch st \<le> e}"
proof -
  have inv: "dr_pool_inv p" using pool_reachable_inv [OF assms] by simp
  show ?thesis
    by (auto simp: distinct_pointers [OF inv] get_dr_output_pointers_iff [OF dr_pool_invD(3) [OF inv]]
        dr_pool_invD(6) [OF inv])
qed

text \<open>Claim C16: updating the stages of a reachable pool never panics. It moves every request of
  the pool one step, and the reveals it hands out to be broadcast are exactly those this node keeps
  for a request now in the reveal stage in which its commitment, but not yet its reveal, was
  included.\<close>

theorem stage_update_safe:
  assumes "pool_reachable dr_hash commit_hash reveal_hash tally_hash pkh_of pi er p"
    and "unat er < 65535"
  shows "\<exists>rs p'. update_data_request_stages pkh_of pi vc e p = Ok (rs, p')
    \<and> (\<forall>h. map_of (data_request_pool p') h =
         (case map_of (data_request_pool p) h of
            None \<Rightarrow> None
          | Some st \<Rightarrow>
              (case update_stage er (data_request_has_too_many_witnesses pi (dr_request st)
                      (validators_or_default vc) e) st of Ok st' \<Rightarrow> Some st' | _ \<Rightarrow> None)))
    \<and> set rs = {r. \<exists>h st k. map_of (waiting_for_reveal p) h = Some r
         \<and> map_of (data_request_pool p') h = Some st \<and> stage st = REVEAL
         \<and> k = pkh_of (ks_public_key (hd (reveal_signatures r)))
         \<and> map_of (commits (info st)) k \<noteq> None \<and> map_of (reveals (info st)) k = None}"
proof -
  have inv: "dr_pool_inv p" and er: "extra_rounds p = er" using pool_reachable_inv [OF assms] by simp_all
  define tm where "tm = (\<lambda>d. data_request_has_too_many_witnesses pi d (validators_or_default vc) e)"
  obtain rs p' where res: "update_data_request_stages pkh_of pi vc e p = Ok (rs, p')"
    "\<And>h. map_of (data_request_pool p') h = map_option (next_state er tm) (map_of (data_request_pool p) h)"
    "set rs = {r. \<exists>h st. map_of (data_request_pool p') h = Some st
        \<and> map_of (waiting_for_reveal p) h = Some r \<and> reveal_due pkh_of r st}"
    unfolding tm_def
    by (rule update_stages_keeps_inv [OF inv, of pkh_of pi vc e])
      (use assms(2) er in \<open>auto intro: that\<close>)
  have "map_option (next_state er tm) (map_of (data_request_pool p) h) =
      (case map_of (data_request_pool p) h of None \<Rightarrow> None
       | Some st \<Rightarrow> (case update_stage er (tm (dr_request st)) st of Ok st' \<Rightarrow> Some st' | _ \<Rightarrow> None))" for h
    using dr_pool_invD(5) [OF inv, of h] by (simp add: update_stage_next request_ok_def split: option.split)
  note pool' = this [folded res(2), unfolded tm_def]
  have "set rs = {r. \<exists>h st k. map_of (waiting_for_reveal p) h = Some r
         \<and> map_of (data_request_pool p') h = Some st \<and> stage st = REVEAL
         \<and> k = pkh_of (ks_public_key (hd (reveal_signatures r)))
         \<and> map_of (commits (info st)) k \<noteq> None \<and> map_of (reveals (info st)) k = None}"
    unfolding res(3) reveal_due_def Let_def by blast
  then show ?thesis using res(1) pool' by blast
qed

text \<open>A pool with one request, reached from the empty pool.\<close>

definition sample_dr_tx :: dr_transaction where
  "sample_dr_tx = \<lparr>dr_inputs = [], dr_outputs = [], dr_output = sample_request,
     dr_signatures = [\<lparr>ks_signature = [], ks_public_key = [1]\<rparr>]\<rparr>"

definition sample_pool :: dr_pool where
  "sample_pool = snd (process_data_request (\<lambda>_ _. [9]) id default_protocol_info sample_dr_tx 5 None (new_dr_pool 3))"

lemma sample_pool_reachable:
  "pool_reachable (\<lambda>_ _. [9]) (\<lambda>_ _. []) (\<lambda>_ _. []) (\<lambda>_. []) id default_protocol_info 3 sample_pool"
  unfolding sample_pool_def by (intro pool_reachable.intros) (simp add: new_dr_pool_def)

lemma sample_pool_simps:
  "data_request_pool sample_pool = [([9], new_dr_state sample_request [1] 5 None)]"
  "data_requests_by_epoch sample_pool = [(5, [[9]])]"
  "waiting_for_reveal sample_pool = []"
  by (simp_all add: sample_pool_def process_data_request_def add_data_request_def sample_dr_tx_def
      new_dr_pool_def epoch_index_def Let_def)

theorem mining_index_exact_witness:
  "set (get_dr_output_pointers_by_epoch sample_pool 6) =
     {h. \<exists>st. map_of (data_request_pool sample_pool) h = Some st \<and> stage st = COMMIT \<and> dr_epoch st \<le> 6}
   \<and> get_dr_output_pointers_by_epoch sample_pool 6 = [[9]]"
  using mining_index_exact [OF sample_pool_reachable, of 6]
  by (simp add: get_dr_output_pointers_by_epoch_def sample_pool_simps)

theorem stage_update_safe_witness:
  "\<exists>rs p'. update_data_request_stages id default_protocol_info None (Some 5) sample_pool = Ok (rs, p')
     \<and> map_option stage (map_of (data_request_pool p') [9]) = Some COMMIT \<and> rs = []"
  using stage_update_safe [OF sample_pool_reachable, of None "Some 5"]
  by (auto simp: sample_pool_simps update_stage_def set_stage_def new_dr_state_def default_dr_info_def
      data_request_has_too_many_witnesses_def get_protocol_version_def default_protocol_info_def
      version_for_epoch_def less_protocol_version_def)

subsection \<open>Tallies\<close>

text \<open>Claim C36: processing a tally. A request in the tally stage leaves the pool, and its record,
  with the tally and the hash of its block, is queued for storage. A tally for a request that is
  not in the tally stage is refused, but the request is gone from the pool all the same and nothing
  is stored; if the request was still expecting commitments, its pointer stays in the mining index
  and points to no request.\<close>

theorem tally_removes_request_in_any_stage:
  assumes "pool_reachable dr_hash commit_hash reveal_hash tally_hash pkh_of pi er p"
    and "unat er < 65535"
    and "map_of (data_request_pool p) h = Some st" and "tally_dr_pointer t = h"
    and "process_tally tally_hash t b p = (res, p')"
  shows "get_dr_output p' h = None
    \<and> (stage st = TALLY \<longrightarrow> res = Ok () \<and> dr_pool_inv p'
         \<and> to_be_stored p' = to_be_stored p @ [(info st)\<lparr>tally := Some t, block_hash_tally_tx := Some b,
                                               current_stage := None\<rparr>])
    \<and> (stage st \<noteq> TALLY \<longrightarrow> res = Err NotTallyStage \<and> to_be_stored p' = to_be_stored p)
    \<and> (stage st = COMMIT \<longrightarrow> h \<in> set (get_dr_output_pointers_by_epoch p' (dr_epoch st)))"
proof -
  have inv: "dr_pool_inv p" using pool_reachable_inv [OF assms(1,2)] by simp
  have idx: "data_requests_by_epoch p' = data_requests_by_epoch p"
    using assms(5) by (auto simp: process_tally_def pool_add_tally_def Let_def split: prod.splits outcome.splits)
  have "dr_pool_inv p'" if "stage st = TALLY"
    using pool_add_tally_inv [OF inv, of t tally_hash b] assms(3-5) that by (simp add: process_tally_def)
  moreover have "h \<in> set (get_dr_output_pointers_by_epoch p' (dr_epoch st))" if "stage st = COMMIT"
    using dr_pool_invD(3,6) [OF inv] assms(3) that by (auto simp: get_dr_output_pointers_iff idx)
  ultimately show ?thesis
    using assms(3-5) hm.lookup_remove [OF dr_pool_invD(1) [OF inv]]
    by (cases "stage st")
      (auto simp: process_tally_def pool_add_tally_def resolve_data_request_def state_add_tally_def
        get_dr_output_def Let_def)
qed

definition sample_tally :: tally_transaction where
  "sample_tally = \<lparr>tally_dr_pointer = [9], tally_bytes = [], tally_outputs = [], out_of_consensus = [],
     error_committers = []\<rparr>"

theorem tally_removes_request_in_any_stage_witness:
  "fst (process_tally (\<lambda>_. []) sample_tally [4] sample_pool) = Err NotTallyStage
   \<and> get_dr_output (snd (process_tally (\<lambda>_. []) sample_tally [4] sample_pool)) [9] = None
   \<and> [9] \<in> set (get_dr_output_pointers_by_epoch (snd (process_tally (\<lambda>_. []) sample_tally [4] sample_pool)) 5)"
  using tally_removes_request_in_any_stage [OF sample_pool_reachable, of "[9]" "new_dr_state sample_request [1] 5 None"
      sample_tally "[4]", OF _ _ _ prod.collapse [symmetric]]
  by (simp add: sample_pool_simps sample_tally_def new_dr_state_def)

end
