(* ===== verification/Tapi.thy ===== *)
theory Tapi
  imports Epochs
begin

text \<open>
  The threshold activation of protocol improvements (tapi.rs): the counters of the signals that
  blocks carry, the epochs at which improvements (WIPs) become active, and the queries other
  components make about them. The global protocol registry and the one of the chain state are both
  part of the state. Parsing an address is an argument.
\<close>

section \<open>Definitions\<close>

datatype environment = Mainnet | Testnet | Development

definition ONE_HOUR :: u32 where "ONE_HOUR = 80"
definition TWO_WEEKS :: u32 where "TWO_WEEKS = 26880"
definition FIRST_HARD_FORK :: epoch where "FIRST_HARD_FORK = 192000"
definition SECOND_HARD_FORK :: epoch where "SECOND_HARD_FORK = 376320"
definition THIRD_HARD_FORK :: epoch where "THIRD_HARD_FORK = 445440"

definition FIRST_EMERGENCY_COMMITTEE :: "string list" where
  "FIRST_EMERGENCY_COMMITTEE = [
    ''wit1asdpcspwysf0hg5kgwvgsp2h6g65y5kg9gj5dz'',
    ''wit13l337znc5yuualnxfg9s2hu9txylntq5pyazty'',
    ''wit17nnjuxmfuu92l6rxhque2qc3u2kvmx2fske4l9'',
    ''wit1drcpu0xc2akfcqn8r69vw70pj8fzjhjypdcfsq'',
    ''wit1cyrlc64hyu0rux7hclmg9rxwxpa0v9pevyaj2c'',
    ''wit1g0rkajsgwqux9rnmkfca5tz6djg0f87x7ms5qx'',
    ''wit1etherz02v4fvqty6jhdawefd0pl33qtevy7s4z'']"

definition SECOND_EMERGENCY_COMMITTEE :: "string list" where
  "SECOND_EMERGENCY_COMMITTEE = [
    ''wit1drcpu0xc2akfcqn8r69vw70pj8fzjhjypdcfsq'',
    ''wit1drcpu3x42y5vp7w3pe203xrwpnth2pnt6c0dm9'',
    ''wit1asdpcspwysf0hg5kgwvgsp2h6g65y5kg9gj5dz'',
    ''wit1cyrlc64hyu0rux7hclmg9rxwxpa0v9pevyaj2c'',
    ''wit1etherz02v4fvqty6jhdawefd0pl33qtevy7s4z'',
    ''wit13l337znc5yuualnxfg9s2hu9txylntq5pyazty'']"

definition THIRD_EMERGENCY_COMMITTEE :: "string list" where
  "THIRD_EMERGENCY_COMMITTEE = [
    ''wit1asdpcspwysf0hg5kgwvgsp2h6g65y5kg9gj5dz'',
    ''wit1drcpu0xc2akfcqn8r69vw70pj8fzjhjypdcfsq'',
    ''wit1drcpu3x42y5vp7w3pe203xrwpnth2pnt6c0dm9'',
    ''wit1fkps4hsrvadr2u9veyk27xrv8yhmldaj8zdlpj'',
    ''wit1gnw6gvmkzfwe5tyjd55h7t2j4s68xappl85g5v'',
    ''wit1q679r2d8yk0ntmk48k6nprc3fervd627vqe39l'',
    ''wit1wl200uau9zp072ps0wfpq74kd0a65uhd5c4dfk'']"

definition FOURTH_EMERGENCY_COMMITTEE :: "string list" where
  "FOURTH_EMERGENCY_COMMITTEE = [
    ''wit1c0ucz2u9hwgqflkn4xjeyxtla9tqp0sderzkjr'',
    ''wit1drcpu0xc2akfcqn8r69vw70pj8fzjhjypdcfsq'',
    ''wit1drcpu3x42y5vp7w3pe203xrwpnth2pnt6c0dm9'',
    ''wit1llz4vw9mszjqud5pqavf84208entwz73lxekzm'',
    ''wit1nawuk8f2hckz6ct9wlzg95fhg3kyjzlrrd99qz'',
    ''wit1sp8xnclrhm4j5lrzxwnxerdetzsjqw88kwr05f'']"

subsection \<open>Vote counters\<close>

record bit_votes_counter =
  votes :: u32
  vote_period :: epoch
  wip :: string
  vote_init :: epoch
  vote_end :: epoch
  bit_pos :: nat

record bit_tapi_counter =
  bit_info :: "bit_votes_counter option list"
  last_epoch :: epoch
  current_length :: nat

definition default_bit_tapi_counter :: bit_tapi_counter where
  "default_bit_tapi_counter = \<lparr>bit_info = replicate 32 None, last_epoch = 0, current_length = 0\<rparr>"

definition bit_get :: "bit_tapi_counter \<Rightarrow> nat \<Rightarrow> epoch \<Rightarrow> bit_votes_counter option" where
  "bit_get c n e =
     (if n < length (bit_info c) then
        case bit_info c ! n of
          Some b \<Rightarrow> if e \<ge> vote_init b \<and> e < vote_end b then Some b else None
        | None \<Rightarrow> None
      else None)"

definition bit_insert :: "bit_votes_counter \<Rightarrow> bit_tapi_counter \<Rightarrow> bit_tapi_counter" where
  "bit_insert b c =
     (let k = bit_pos b
      in if k \<ge> length (bit_info c) then c
         else c\<lparr>bit_info := (bit_info c)[k := Some b],
                current_length := (if k \<ge> current_length c then k + 1 else current_length c)\<rparr>)"

fun last_bit_length :: "nat \<Rightarrow> bit_votes_counter option list \<Rightarrow> nat" where
  "last_bit_length len [] = len"
| "last_bit_length len (None # bs) = last_bit_length len bs"
| "last_bit_length len (Some b # bs) = last_bit_length (bit_pos b + 1) bs"

definition update_current_length :: "bit_tapi_counter \<Rightarrow> bit_tapi_counter" where
  "update_current_length c = c\<lparr>current_length := last_bit_length 0 (bit_info c)\<rparr>"

definition bit_delete :: "nat \<Rightarrow> bit_tapi_counter \<Rightarrow> bit_tapi_counter" where
  "bit_delete n c =
     (if n \<ge> length (bit_info c) then c
      else
        let c' = c\<lparr>bit_info := (bit_info c)[n := None]\<rparr>
        in if n + 1 = current_length c' then update_current_length c' else c')"

definition bit_contains :: "bit_tapi_counter \<Rightarrow> nat \<Rightarrow> bit_votes_counter \<Rightarrow> bool" where
  "bit_contains c n w =
     (if n < length (bit_info c) then
        case bit_info c ! n of
          Some b \<Rightarrow> b\<lparr>votes := 0\<rparr> = w
        | None \<Rightarrow> False
      else False)"

definition bit_len :: "bit_tapi_counter \<Rightarrow> nat" where
  "bit_len c = current_length c"

definition bit_is_empty :: "bit_tapi_counter \<Rightarrow> bool" where
  "bit_is_empty c \<longleftrightarrow> current_length c = 0"

definition bit_pending :: "bit_tapi_counter \<Rightarrow> (string \<times> epoch) list \<Rightarrow> bit_votes_counter list" where
  "bit_pending c active =
     List.map_filter (\<lambda>x. case x of
         Some b \<Rightarrow> if map_of active (wip b) = None then Some b else None
       | None \<Rightarrow> None) (take (current_length c) (bit_info c))"

definition is_bit_n_activated :: "u32 \<Rightarrow> nat \<Rightarrow> bool" where
  "is_bit_n_activated v n \<longleftrightarrow> and v (push_bit n 1) \<noteq> 0"

subsection \<open>The engine\<close>

text \<open>The engine and the two protocol registries an activation is written to.\<close>

record tapi_state =
  bit_tapi_counter :: bit_tapi_counter
  wip_activation :: "(string \<times> epoch) list"
  global_protocol :: protocol_info
  chain_protocol :: protocol_info

definition wip_info :: "(string \<times> epoch) list" where
  "wip_info = [
    (''WIP0008'', FIRST_HARD_FORK),
    (''WIP0009-0011-0012'', SECOND_HARD_FORK),
    (''THIRD_HARD_FORK'', THIRD_HARD_FORK),
    (''WIP0014-0016'', 549141),
    (''WIP0017-0018-0019'', 683541),
    (''WIP0020-0021'', 1059861),
    (''WIP0022'', 1708901),
    (''WIP0023'', 1708901),
    (''WIP0024'', 1708901),
    (''WIP0025'', 1708901),
    (''WIP0026'', 1708901),
    (''WIP0027'', 1708901)]"

definition test_wip_info :: "(string \<times> epoch) list" where
  "test_wip_info = [
    (''WIP0008'', 0),
    (''WIP0009-0011-0012'', 0),
    (''THIRD_HARD_FORK'', 0),
    (''WIP0014-0016'', 0),
    (''WIP0017-0018-0019'', 0),
    (''WIP0020-0021'', 0),
    (''WIP0022'', 0),
    (''WIP0023'', 0),
    (''WIP0024'', 0),
    (''WIP0025'', 0),
    (''WIP0026'', 0),
    (''WIP0027'', 0)]"

text \<open>One counter of \<^verbatim>\<open>update_bit_counter\<close>: the votes are counted, and at the end of a
  period the improvement is scheduled or the votes are discarded. A period of zero divides by
  zero.\<close>

definition count_bit ::
  "u32 \<Rightarrow> epoch \<Rightarrow> epoch \<Rightarrow> string list \<Rightarrow> u16 \<Rightarrow> nat \<Rightarrow> tapi_state \<Rightarrow> tapi_state option"
where
  "count_bit v epoch_to_update block_epoch avoid_wip_list period n st =
     (case bit_get (bit_tapi_counter st) n epoch_to_update of
        None \<Rightarrow> Some st
      | Some b \<Rightarrow>
          if map_of (wip_activation st) (wip b) = None \<and> wip b \<notin> set avoid_wip_list then
            let b1 = (if is_bit_n_activated v n then b\<lparr>votes := votes b + 1\<rparr> else b);
                put = (\<lambda>b' s. s\<lparr>bit_tapi_counter := (bit_tapi_counter s)\<lparr>bit_info :=
                                  (bit_info (bit_tapi_counter s))[n := Some b']\<rparr>\<rparr>)
            in if vote_period b1 = 0 then None
               else if (epoch_to_update - vote_init b1) mod vote_period b1 = 0 then
                 let st1 =
                       (if votes b1 * 100 div vote_period b1 \<ge> 80 then
                          let scheduled_epoch = block_epoch + 21;
                              st2 = st\<lparr>wip_activation := AList.update (wip b1) scheduled_epoch (wip_activation st)\<rparr>
                          in if wip b1 = ''WIP0028'' then
                               st2\<lparr>global_protocol := protocol_register (global_protocol st2) scheduled_epoch V1_8 period,
                                   chain_protocol := protocol_register (chain_protocol st2) scheduled_epoch V1_8 period\<rparr>
                             else st2
                        else st)
                 in Some (put (b1\<lparr>votes := 0\<rparr>) st1)
               else Some (put b1 st)
          else Some st)"

fun count_bits ::
  "u32 \<Rightarrow> epoch \<Rightarrow> epoch \<Rightarrow> string list \<Rightarrow> u16 \<Rightarrow> nat list \<Rightarrow> tapi_state \<Rightarrow> tapi_state option"
where
  "count_bits v e be avoid period [] st = Some st"
| "count_bits v e be avoid period (n # ns) st =
     Option.bind (count_bit v e be avoid period n st) (count_bits v e be avoid period ns)"

text \<open>The loop over the counters, and the epoch noted at the end.\<close>

definition count_signals ::
  "u32 \<Rightarrow> epoch \<Rightarrow> epoch \<Rightarrow> string list \<Rightarrow> u16 \<Rightarrow> tapi_state \<Rightarrow> tapi_state option"
where
  "count_signals v e be avoid period st =
     map_option (\<lambda>s. s\<lparr>bit_tapi_counter := (bit_tapi_counter s)\<lparr>last_epoch := e\<rparr>\<rparr>)
       (count_bits v e be avoid period [0..<bit_len (bit_tapi_counter st)] st)"

lemma unat_gap_step: "i < e \<Longrightarrow> unat e - unat (i + 1) < unat e - unat (i :: epoch)"
proof -
  assume "i < e"
  then have "unat i < unat e" by (simp add: word_less_nat_alt)
  moreover have "unat (i + 1) = unat i + 1"
    using calculation unat_add_nowrap [of i 1] unat_lt_size [of e] by simp
  ultimately show ?thesis by simp
qed

text \<open>Epochs without a block count as blocks that signal nothing: the function calls itself for
  each of them. \<^const>\<open>None\<close> stands for a panic.\<close>

function update_bit_counter ::
  "u32 \<Rightarrow> epoch \<Rightarrow> epoch \<Rightarrow> string list \<Rightarrow> u16 \<Rightarrow> tapi_state \<Rightarrow> tapi_state option"
  and update_gap ::
  "epoch \<Rightarrow> epoch \<Rightarrow> epoch \<Rightarrow> string list \<Rightarrow> u16 \<Rightarrow> tapi_state \<Rightarrow> tapi_state option"
where
  "update_bit_counter v epoch_to_update block_epoch avoid period st =
     (let l = last_epoch (bit_tapi_counter st)
      in Option.bind
           (if l \<noteq> 0 \<and> epoch_to_update > l + 1
            then update_gap (l + 1) epoch_to_update block_epoch avoid period st
            else Some st)
           (count_signals v epoch_to_update block_epoch avoid period))"
| "update_gap i end_epoch block_epoch avoid period st =
     (if i < end_epoch then
        case update_bit_counter 0 i block_epoch avoid period st of
          None \<Rightarrow> None
        | Some st' \<Rightarrow> update_gap (i + 1) end_epoch block_epoch avoid period st'
      else Some st)"
  by pat_completeness auto

termination
  by (relation "measures [\<lambda>x. case x of Inl (v, e, r) \<Rightarrow> unat e | Inr (i, e, r) \<Rightarrow> unat e,
                          \<lambda>x. case x of Inl _ \<Rightarrow> 2 ^ 32 | Inr (i, e, r) \<Rightarrow> unat e - unat i]")
    (auto simp: word_less_nat_alt unat_gap_step intro: le_less_trans [OF diff_le_self unat_lt_size [where 'l = 32, simplified]])

declare update_bit_counter.simps [simp del] update_gap.simps [simp del]

fun insert_wips :: "(string \<times> epoch) list \<Rightarrow> (string \<times> epoch) list \<Rightarrow> (string \<times> epoch) list" where
  "insert_wips [] m = m"
| "insert_wips ((k, v) # ws) m = insert_wips ws (AList.update k v m)"

definition voting_wips :: "environment \<Rightarrow> bit_votes_counter option list" where
  "voting_wips env =
     (case env of
        Mainnet \<Rightarrow> (replicate 32 None)[9 := Some \<lparr>votes = 0, vote_period = TWO_WEEKS, wip = ''WIP0028'',
                     vote_init = 2922240, vote_end = - 1, bit_pos = 9\<rparr>]
      | _ \<Rightarrow> (replicate 32 None)[9 := Some \<lparr>votes = 0, vote_period = ONE_HOUR, wip = ''WIP0028'',
                     vote_init = 0, vote_end = - 1, bit_pos = 9\<rparr>])"

text \<open>The assessment of one bit: the state, the least first epoch and the improvements that were
  known already.\<close>

fun assess_wip ::
  "nat \<times> bit_votes_counter option \<Rightarrow> tapi_state \<times> epoch \<times> string list \<Rightarrow> tapi_state \<times> epoch \<times> string list"
where
  "assess_wip (i, None) (st, min_epoch, old) =
     (st\<lparr>bit_tapi_counter := bit_delete i (bit_tapi_counter st)\<rparr>, min_epoch, old)"
| "assess_wip (i, Some w) (st, min_epoch, old) =
     (if bit_contains (bit_tapi_counter st) i w then
        let alleged_activation = (case map_of (wip_activation st) (wip w) of Some e \<Rightarrow> e | None \<Rightarrow> - 1);
            minimum_activation = vote_init w + vote_period w
        in (st, min_epoch, if alleged_activation > minimum_activation then List.insert (wip w) old else old)
      else
        (st\<lparr>bit_tapi_counter := bit_insert w (bit_tapi_counter st)\<rparr>,
         if vote_init w < min_epoch then vote_init w else min_epoch, old))"

definition initialize_wip_information ::
  "environment \<Rightarrow> tapi_state \<Rightarrow> (epoch \<times> string list) \<times> tapi_state"
where
  "initialize_wip_information env st =
     (let known = (case env of Mainnet \<Rightarrow> wip_info | _ \<Rightarrow> test_wip_info);
          st1 = st\<lparr>wip_activation := insert_wips known (wip_activation st)\<rparr>;
          (st2, min_epoch, old) = fold assess_wip (enumerate 0 (voting_wips env)) (st1, - 1, [])
      in ((min_epoch, old), st2))"

definition in_voting_range :: "tapi_state \<Rightarrow> epoch \<Rightarrow> string \<Rightarrow> bool" where
  "in_voting_range st e w =
     (\<exists>i \<in> set [0..<bit_len (bit_tapi_counter st)].
        case bit_get (bit_tapi_counter st) i e of Some b \<Rightarrow> wip b = w | None \<Rightarrow> False)"

text \<open>The outer option is the result of the function; the inner one the panic on an address that
  does not parse.\<close>

fun parse_committee :: "(string \<Rightarrow> pkh option) \<Rightarrow> string list \<Rightarrow> pkh list option" where
  "parse_committee parse_address [] = Some []"
| "parse_committee parse_address (a # as) =
     (case parse_address a of
        None \<Rightarrow> None
      | Some k \<Rightarrow> map_option (\<lambda>ks. k # ks) (parse_committee parse_address as))"

definition in_emergency_period ::
  "(string \<Rightarrow> pkh option) \<Rightarrow> epoch \<Rightarrow> environment \<Rightarrow> pkh list option option"
where
  "in_emergency_period parse_address superblock_index env =
     (if env = Mainnet \<and> superblock_index > 750 \<and> superblock_index < 1344 then
        Some (parse_committee parse_address FIRST_EMERGENCY_COMMITTEE)
      else if env = Mainnet \<and> superblock_index > 44165 \<and> superblock_index < 45509 then
        Some (parse_committee parse_address SECOND_EMERGENCY_COMMITTEE)
      else if env = Mainnet \<and> superblock_index > 144200 \<and> superblock_index < 145500 then
        Some (parse_committee parse_address THIRD_EMERGENCY_COMMITTEE)
      else if env = Mainnet \<and> superblock_index > 224300 \<and> superblock_index < 292224 then
        Some (parse_committee parse_address FOURTH_EMERGENCY_COMMITTEE)
      else None)"

definition after_first_hard_fork :: "epoch \<Rightarrow> environment \<Rightarrow> bool" where
  "after_first_hard_fork e env = (case env of Mainnet \<Rightarrow> e \<ge> FIRST_HARD_FORK | _ \<Rightarrow> True)"

definition after_second_hard_fork :: "epoch \<Rightarrow> environment \<Rightarrow> bool" where
  "after_second_hard_fork e env = (case env of Mainnet \<Rightarrow> e \<ge> SECOND_HARD_FORK | _ \<Rightarrow> True)"

definition after_third_hard_fork :: "epoch \<Rightarrow> environment \<Rightarrow> bool" where
  "after_third_hard_fork e env \<longleftrightarrow> e \<ge> THIRD_HARD_FORK \<and> env = Mainnet"

subsection \<open>Active improvements\<close>

record active_wips =
  known_wips :: "(string \<times> epoch) list"
  block_epoch :: epoch

definition wip_active :: "active_wips \<Rightarrow> string \<Rightarrow> bool" where
  "wip_active a w = (case map_of (known_wips a) w of Some e \<Rightarrow> block_epoch a \<ge> e | None \<Rightarrow> False)"

definition wip_0008 :: "active_wips \<Rightarrow> bool" where "wip_0008 a = wip_active a ''WIP0008''"
definition wips_0009_0011_0012 :: "active_wips \<Rightarrow> bool" where
  "wips_0009_0011_0012 a = wip_active a ''WIP0009-0011-0012''"
definition third_hard_fork :: "active_wips \<Rightarrow> bool" where "third_hard_fork a = wip_active a ''THIRD_HARD_FORK''"
definition wip0014 :: "active_wips \<Rightarrow> bool" where "wip0014 a = wip_active a ''WIP0014-0016''"
definition wip0016 :: "active_wips \<Rightarrow> bool" where "wip0016 a = wip_active a ''WIP0014-0016''"
definition wip0017 :: "active_wips \<Rightarrow> bool" where "wip0017 a = wip_active a ''WIP0017-0018-0019''"
definition wip0018 :: "active_wips \<Rightarrow> bool" where "wip0018 a = wip_active a ''WIP0017-0018-0019''"
definition wip0019 :: "active_wips \<Rightarrow> bool" where "wip0019 a = wip_active a ''WIP0017-0018-0019''"
definition wip0020 :: "active_wips \<Rightarrow> bool" where "wip0020 a = wip_active a ''WIP0020-0021''"
definition wip0021 :: "active_wips \<Rightarrow> bool" where "wip0021 a = wip_active a ''WIP0020-0021''"
definition wip0022 :: "active_wips \<Rightarrow> bool" where "wip0022 a = wip_active a ''WIP0022''"
definition wip0023 :: "active_wips \<Rightarrow> bool" where "wip0023 a = wip_active a ''WIP0023''"
definition wip0024 :: "active_wips \<Rightarrow> bool" where "wip0024 a = wip_active a ''WIP0024''"
definition wip0025 :: "active_wips \<Rightarrow> bool" where "wip0025 a = wip_active a ''WIP0025''"
definition wip0026 :: "active_wips \<Rightarrow> bool" where "wip0026 a = wip_active a ''WIP0026''"
definition wip0027 :: "active_wips \<Rightarrow> bool" where "wip0027 a = wip_active a ''WIP0027''"
definition wip0028 :: "active_wips \<Rightarrow> bool" where "wip0028 a = wip_active a ''WIP0028''"

definition insert_wip :: "string \<Rightarrow> epoch \<Rightarrow> active_wips \<Rightarrow> active_wips" where
  "insert_wip w e a = a\<lparr>known_wips := AList.update w e (known_wips a)\<rparr>"

definition set_epoch :: "epoch \<Rightarrow> active_wips \<Rightarrow> active_wips" where
  "set_epoch e a = a\<lparr>block_epoch := e\<rparr>"

definition current_active_wips :: active_wips where
  "current_active_wips = \<lparr>known_wips = wip_info, block_epoch = - 1\<rparr>"

definition all_wips_active :: active_wips where
  "all_wips_active = insert_wip ''WIP0028'' 0 current_active_wips"

section \<open>Properties\<close>

subsection \<open>The gap is counted epoch by epoch\<close>

fun count_range :: "nat list \<Rightarrow> epoch \<Rightarrow> string list \<Rightarrow> u16 \<Rightarrow> tapi_state \<Rightarrow> tapi_state option" where
  "count_range [] be avoid period st = Some st"
| "count_range (i # is) be avoid period st =
     Option.bind (count_signals 0 (of_nat i) be avoid period st) (count_range is be avoid period)"

lemma count_bit_last_epoch:
  "count_bit v e be avoid period n st = Some st' \<Longrightarrow>
     last_epoch (bit_tapi_counter st') = last_epoch (bit_tapi_counter st)
     \<and> current_length (bit_tapi_counter st') = current_length (bit_tapi_counter st)
     \<and> length (bit_info (bit_tapi_counter st')) = length (bit_info (bit_tapi_counter st))"
  by (auto simp: count_bit_def Let_def split: option.splits if_splits)

lemma count_signals_last_epoch:
  "count_signals v e be avoid period st = Some st' \<Longrightarrow> last_epoch (bit_tapi_counter st') = e"
  by (auto simp: count_signals_def)

lemma update_gap_flat:
  assumes "a \<le> b" and "b < 2 ^ 32" and "0 < a"
    and "last_epoch (bit_tapi_counter st) + 1 = of_nat a"
  shows "update_gap (of_nat a) (of_nat b) be avoid period st = count_range [a..<b] be avoid period st"
  using assms
proof (induction "b - a" arbitrary: a st)
  case 0
  then show ?case by (simp add: update_gap.simps)
next
  case (Suc d)
  then have ab: "a < b" by simp
  have lt: "(of_nat a :: epoch) < of_nat b"
    using ab Suc.prems(2) by (simp add: word_less_nat_alt unsigned_of_nat take_bit_nat_eq_self)
  have step: "update_bit_counter 0 (of_nat a) be avoid period st = count_signals 0 (of_nat a) be avoid period st"
    using Suc.prems(4) by (simp add: update_bit_counter.simps Let_def)
  show ?case
  proof (cases "count_signals 0 (of_nat a) be avoid period st")
    case None
    then show ?thesis
      using lt step ab by (subst update_gap.simps) (simp add: upt_conv_Cons)
  next
    case (Some st')
    have "update_gap (of_nat (Suc a)) (of_nat b) be avoid period st' = count_range [Suc a..<b] be avoid period st'"
      using Suc.hyps Suc.prems ab count_signals_last_epoch [OF Some]
      by (intro Suc.hyps(1)) (simp_all add: add.commute)
    then show ?thesis
      using lt step ab Some
      by (subst update_gap.simps) (simp add: upt_conv_Cons add.commute)
  qed
qed

text \<open>Claim C28: the recursion over missed epochs terminates and is flat. When a block comes after
  a gap, the engine counts one silent block for every missed epoch, each exactly once and in order,
  and then the signals of the block; a block that directly follows, or the first block ever
  counted, is counted alone.\<close>

theorem missed_epochs_count_as_silent:
  assumes "last_epoch (bit_tapi_counter st) < e"
  shows "update_bit_counter v e be avoid period st =
     Option.bind
       (if last_epoch (bit_tapi_counter st) = 0 then Some st
        else count_range [Suc (unat (last_epoch (bit_tapi_counter st)))..<unat e] be avoid period st)
       (count_signals v e be avoid period)"
proof -
  let ?l = "last_epoch (bit_tapi_counter st)"
  have lt: "unat ?l < unat e" using assms by (simp add: word_less_nat_alt)
  have succ: "?l + 1 = of_nat (Suc (unat ?l))" by (simp add: add.commute)
  have usucc: "unat (?l + 1) = Suc (unat ?l)"
    using unat_add_nowrap [of ?l 1] lt unat_lt_size [of e] by simp
  have "update_gap (?l + 1) e be avoid period st =
      count_range [Suc (unat ?l)..<unat e] be avoid period st"
    using update_gap_flat [of "Suc (unat ?l)" "unat e" st be avoid period] lt unat_lt_size [of e]
    by (simp add: succ)
  moreover have "[Suc (unat ?l)..<unat e] = []" if "\<not> e > ?l + 1"
    using that usucc by (simp add: word_less_nat_alt)
  ultimately show ?thesis
    by (auto simp: update_bit_counter.simps Let_def)
qed

subsection \<open>A signaling window\<close>

text \<open>The counters have positive periods and count different improvements.\<close>

definition counters_ok :: "tapi_state \<Rightarrow> bool" where
  "counters_ok st \<longleftrightarrow>
     (let bs = bit_info (bit_tapi_counter st)
      in current_length (bit_tapi_counter st) \<le> length bs
         \<and> (\<forall>i < length bs. \<forall>b. bs ! i = Some b \<longrightarrow> vote_period b \<noteq> 0)
         \<and> (\<forall>i < length bs. \<forall>j < length bs. \<forall>b c. bs ! i = Some b \<and> bs ! j = Some c \<and> wip b = wip c \<longrightarrow> i = j))"

text \<open>What counting one bit does to that bit.\<close>

definition counted :: "u32 \<Rightarrow> nat \<Rightarrow> bit_votes_counter \<Rightarrow> u32" where
  "counted v n b = votes b + (if is_bit_n_activated v n then 1 else 0)"

definition window_closes :: "epoch \<Rightarrow> bit_votes_counter \<Rightarrow> bool" where
  "window_closes e b \<longleftrightarrow> (e - vote_init b) mod vote_period b = 0"

definition wip_passes :: "u32 \<Rightarrow> epoch \<Rightarrow> nat \<Rightarrow> bit_votes_counter \<Rightarrow> bool" where
  "wip_passes v e n b \<longleftrightarrow> window_closes e b \<and> counted v n b * 100 div vote_period b \<ge> 80"

definition after_count :: "u32 \<Rightarrow> epoch \<Rightarrow> nat \<Rightarrow> bit_votes_counter \<Rightarrow> bit_votes_counter" where
  "after_count v e n b = b\<lparr>votes := (if window_closes e b then 0 else counted v n b)\<rparr>"

definition put_bit :: "nat \<Rightarrow> bit_votes_counter \<Rightarrow> tapi_state \<Rightarrow> tapi_state" where
  "put_bit n b st = st\<lparr>bit_tapi_counter := (bit_tapi_counter st)\<lparr>bit_info :=
     (bit_info (bit_tapi_counter st))[n := Some b]\<rparr>\<rparr>"

definition activate_wip :: "string \<Rightarrow> epoch \<Rightarrow> u16 \<Rightarrow> tapi_state \<Rightarrow> tapi_state" where
  "activate_wip w e period st =
     (let st2 = st\<lparr>wip_activation := AList.update w e (wip_activation st)\<rparr>
      in if w = ''WIP0028'' then
           st2\<lparr>global_protocol := protocol_register (global_protocol st2) e V1_8 period,
               chain_protocol := protocol_register (chain_protocol st2) e V1_8 period\<rparr>
         else st2)"

definition bit_step :: "u32 \<Rightarrow> epoch \<Rightarrow> epoch \<Rightarrow> string list \<Rightarrow> u16 \<Rightarrow> nat \<Rightarrow> tapi_state \<Rightarrow> tapi_state" where
  "bit_step v e be avoid period n st =
     (case bit_get (bit_tapi_counter st) n e of
        None \<Rightarrow> st
      | Some b \<Rightarrow>
          if map_of (wip_activation st) (wip b) = None \<and> wip b \<notin> set avoid then
            put_bit n (after_count v e n b)
              (if wip_passes v e n b then activate_wip (wip b) (be + 21) period st else st)
          else st)"

lemma count_bit_eq:
  assumes "counters_ok st"
  shows "count_bit v e be avoid period n st = Some (bit_step v e be avoid period n st)"
proof (cases "bit_get (bit_tapi_counter st) n e")
  case (Some b)
  then have "vote_period b \<noteq> 0"
    using assms by (auto simp: counters_ok_def bit_get_def Let_def split: if_splits option.splits)
  then show ?thesis
    by (auto simp: count_bit_def bit_step_def Some Let_def put_bit_def after_count_def wip_passes_def
        window_closes_def counted_def activate_wip_def)
qed (simp add: count_bit_def bit_step_def)

lemma activate_wip_keeps [simp]:
  "bit_tapi_counter (activate_wip w e period st) = bit_tapi_counter st"
  "map_of (wip_activation (activate_wip w e period st)) w' =
     (if w' = w then Some e else map_of (wip_activation st) w')"
  "w \<noteq> ''WIP0028'' \<Longrightarrow> global_protocol (activate_wip w e period st) = global_protocol st"
  "w \<noteq> ''WIP0028'' \<Longrightarrow> chain_protocol (activate_wip w e period st) = chain_protocol st"
  by (simp_all add: activate_wip_def Let_def update_conv')

lemma put_bit_keeps [simp]:
  "wip_activation (put_bit n b st) = wip_activation st"
  "global_protocol (put_bit n b st) = global_protocol st"
  "chain_protocol (put_bit n b st) = chain_protocol st"
  "bit_info (bit_tapi_counter (put_bit n b st)) = (bit_info (bit_tapi_counter st))[n := Some b]"
  "current_length (bit_tapi_counter (put_bit n b st)) = current_length (bit_tapi_counter st)"
  "last_epoch (bit_tapi_counter (put_bit n b st)) = last_epoch (bit_tapi_counter st)"
  by (simp_all add: put_bit_def)

lemma after_count_keeps [simp]:
  "wip (after_count v e n b) = wip b" "vote_period (after_count v e n b) = vote_period b"
  by (simp_all add: after_count_def)

lemma bit_get_Some:
  "bit_get c n e = Some b \<longleftrightarrow>
     n < length (bit_info c) \<and> bit_info c ! n = Some b \<and> vote_init b \<le> e \<and> e < vote_end b"
  by (auto simp: bit_get_def split: option.split)

lemma counters_okD:
  assumes "counters_ok st" and "i < length (bit_info (bit_tapi_counter st))"
    and "j < length (bit_info (bit_tapi_counter st))"
    and "bit_info (bit_tapi_counter st) ! i = Some b" and "bit_info (bit_tapi_counter st) ! j = Some c"
    and "wip b = wip c"
  shows "i = j"
  using assms unfolding counters_ok_def Let_def by blast

lemma counters_ok_put:
  assumes "counters_ok st" and "bit_info (bit_tapi_counter st) ! n = Some b"
    and "wip b' = wip b" and "vote_period b' = vote_period b"
    and "bit_tapi_counter st' = bit_tapi_counter st"
  shows "counters_ok (put_bit n b' st')"
proof -
  let ?bs = "bit_info (bit_tapi_counter st)"
  have old: "\<exists>d. ?bs ! i = Some d \<and> wip d = wip c \<and> vote_period d = vote_period c"
    if "i < length ?bs" "?bs[n := Some b'] ! i = Some c" for i c
    using that assms(2-4) by (cases "i = n") auto
  have "vote_period c \<noteq> 0" if "i < length ?bs" "?bs[n := Some b'] ! i = Some c" for i c
    using old [OF that] that(1) assms(1) unfolding counters_ok_def Let_def by metis
  moreover have "i = j" if "i < length ?bs" "j < length ?bs" "?bs[n := Some b'] ! i = Some c"
    "?bs[n := Some b'] ! j = Some d" "wip c = wip d" for i j c d
    using old [OF that(1,3)] old [OF that(2,4)] counters_okD [OF assms(1) that(1,2)] that(5) by metis
  ultimately show ?thesis
    using assms(1,5) unfolding counters_ok_def Let_def by (simp del: nth_list_update)
qed

lemma bit_step_frame:
  assumes "counters_ok st"
  shows "counters_ok (bit_step v e be avoid period m st)"
    and "current_length (bit_tapi_counter (bit_step v e be avoid period m st)) = current_length (bit_tapi_counter st)"
    and "length (bit_info (bit_tapi_counter (bit_step v e be avoid period m st))) = length (bit_info (bit_tapi_counter st))"
    and "n \<noteq> m \<Longrightarrow> bit_info (bit_tapi_counter (bit_step v e be avoid period m st)) ! n = bit_info (bit_tapi_counter st) ! n"
    and "n \<noteq> m \<Longrightarrow> n < length (bit_info (bit_tapi_counter st)) \<Longrightarrow> bit_info (bit_tapi_counter st) ! n = Some b \<Longrightarrow>
      map_of (wip_activation (bit_step v e be avoid period m st)) (wip b) = map_of (wip_activation st) (wip b)
      \<and> (wip b = ''WIP0028'' \<longrightarrow>
           global_protocol (bit_step v e be avoid period m st) = global_protocol st
           \<and> chain_protocol (bit_step v e be avoid period m st) = chain_protocol st)"
proof -
  show "counters_ok (bit_step v e be avoid period m st)"
    using assms by (auto simp: bit_step_def bit_get_Some intro!: counters_ok_put split: option.split)
  show "current_length (bit_tapi_counter (bit_step v e be avoid period m st)) = current_length (bit_tapi_counter st)"
    "length (bit_info (bit_tapi_counter (bit_step v e be avoid period m st))) = length (bit_info (bit_tapi_counter st))"
    "n \<noteq> m \<Longrightarrow> bit_info (bit_tapi_counter (bit_step v e be avoid period m st)) ! n = bit_info (bit_tapi_counter st) ! n"
    by (auto simp: bit_step_def split: option.split)
  assume n: "n \<noteq> m" "n < length (bit_info (bit_tapi_counter st))" "bit_info (bit_tapi_counter st) ! n = Some b"
  have "wip c \<noteq> wip b" if "bit_get (bit_tapi_counter st) m e = Some c" for c
    using that n counters_okD [OF assms, of n m b c] by (auto simp: bit_get_Some)
  then show "map_of (wip_activation (bit_step v e be avoid period m st)) (wip b) = map_of (wip_activation st) (wip b)
      \<and> (wip b = ''WIP0028'' \<longrightarrow>
           global_protocol (bit_step v e be avoid period m st) = global_protocol st
           \<and> chain_protocol (bit_step v e be avoid period m st) = chain_protocol st)"
    by (auto simp: bit_step_def split: option.split)
qed

lemma count_bits_eq:
  "counters_ok st \<Longrightarrow>
     count_bits v e be avoid period ns st = Some (fold (bit_step v e be avoid period) ns st)
     \<and> counters_ok (fold (bit_step v e be avoid period) ns st)
     \<and> current_length (bit_tapi_counter (fold (bit_step v e be avoid period) ns st)) = current_length (bit_tapi_counter st)"
  by (induction ns arbitrary: st) (simp_all add: count_bit_eq bit_step_frame)

lemma bit_steps_frame:
  assumes "counters_ok st" and "n \<notin> set ns" and "n < length (bit_info (bit_tapi_counter st))"
    and "bit_info (bit_tapi_counter st) ! n = Some b"
  shows "bit_info (bit_tapi_counter (fold (bit_step v e be avoid period) ns st)) ! n = Some b
    \<and> n < length (bit_info (bit_tapi_counter (fold (bit_step v e be avoid period) ns st)))
    \<and> map_of (wip_activation (fold (bit_step v e be avoid period) ns st)) (wip b) = map_of (wip_activation st) (wip b)
    \<and> (wip b = ''WIP0028'' \<longrightarrow>
         global_protocol (fold (bit_step v e be avoid period) ns st) = global_protocol st
         \<and> chain_protocol (fold (bit_step v e be avoid period) ns st) = chain_protocol st)"
  using assms
proof (induction ns arbitrary: st)
  case (Cons m ns)
  then show ?case
    using bit_step_frame(1,3) [OF Cons.prems(1), where m = m and v = v and e = e and be = be
        and avoid = avoid and period = period]
      bit_step_frame(4,5) [OF Cons.prems(1), where n = n and m = m and v = v and e = e and be = be
        and avoid = avoid and period = period] by simp
qed simp

text \<open>One block, seen from one counter that is open for votes.\<close>

lemma count_signals_bit:
  assumes ok: "counters_ok st" and n: "n < current_length (bit_tapi_counter st)"
    and b: "bit_info (bit_tapi_counter st) ! n = Some b" "vote_init b \<le> e" "e < vote_end b"
    and inactive: "map_of (wip_activation st) (wip b) = None" "wip b \<notin> set avoid"
  obtains st' where "count_signals v e be avoid period st = Some st'" "counters_ok st'"
    "current_length (bit_tapi_counter st') = current_length (bit_tapi_counter st)"
    "last_epoch (bit_tapi_counter st') = e"
    "bit_info (bit_tapi_counter st') ! n = Some (after_count v e n b)"
    "map_of (wip_activation st') (wip b) = (if wip_passes v e n b then Some (be + 21) else None)"
    "wip b = ''WIP0028'' \<Longrightarrow> wip_passes v e n b \<Longrightarrow>
       chain_protocol st' = protocol_register (chain_protocol st) (be + 21) V1_8 period
       \<and> global_protocol st' = protocol_register (global_protocol st) (be + 21) V1_8 period"
    "wip b = ''WIP0028'' \<Longrightarrow> \<not> wip_passes v e n b \<Longrightarrow>
       chain_protocol st' = chain_protocol st \<and> global_protocol st' = global_protocol st"
proof -
  let ?step = "bit_step v e be avoid period"
  let ?len = "current_length (bit_tapi_counter st)"
  have nl: "n < length (bit_info (bit_tapi_counter st))"
    using ok n by (auto simp: counters_ok_def Let_def)
  define s1 where "s1 = fold ?step [0..<n] st"
  define s2 where "s2 = ?step n s1"
  define s3 where "s3 = fold ?step [Suc n..<?len] s2"
  have split: "[0..<?len] = [0..<n] @ n # [Suc n..<?len]"
    using n by (metis le0 less_imp_le_nat upt_add_eq_append upt_conv_Cons zero_less_diff le_add_diff_inverse)
  have s3: "fold ?step [0..<?len] st = s3"
    by (simp add: split s1_def s2_def s3_def)
  have f1: "bit_info (bit_tapi_counter s1) ! n = Some b" "n < length (bit_info (bit_tapi_counter s1))"
    "map_of (wip_activation s1) (wip b) = None" "counters_ok s1"
    "wip b = ''WIP0028'' \<Longrightarrow> global_protocol s1 = global_protocol st \<and> chain_protocol s1 = chain_protocol st"
    using bit_steps_frame [OF ok _ nl b(1), of "[0..<n]" v e be avoid period] inactive(1)
      count_bits_eq [OF ok, of v e be avoid period "[0..<n]"] by (simp_all add: s1_def)
  have get: "bit_get (bit_tapi_counter s1) n e = Some b"
    using f1(1,2) b(2,3) by (simp add: bit_get_Some)
  have s2: "s2 = put_bit n (after_count v e n b)
      (if wip_passes v e n b then activate_wip (wip b) (be + 21) period s1 else s1)"
    using f1(3) inactive(2) by (simp add: s2_def bit_step_def get)
  have f2: "counters_ok s2" "bit_info (bit_tapi_counter s2) ! n = Some (after_count v e n b)"
    "n < length (bit_info (bit_tapi_counter s2))"
    using bit_step_frame(1) [OF f1(4)] f1(2) by (simp add: s2_def) (use f1(2) in \<open>simp_all add: s2\<close>)
  note f3 = bit_steps_frame [OF f2(1) _ f2(3,2), of "[Suc n..<?len]" v e be avoid period, folded s3_def, simplified]
  have all: "count_bits v e be avoid period [0..<?len] st = Some s3" "counters_ok s3"
    "current_length (bit_tapi_counter s3) = ?len"
    using count_bits_eq [OF ok, of v e be avoid period "[0..<?len]"] by (simp_all add: s3)
  define st' where "st' = s3\<lparr>bit_tapi_counter := (bit_tapi_counter s3)\<lparr>last_epoch := e\<rparr>\<rparr>"
  show thesis
  proof (rule that [of st'])
    show "count_signals v e be avoid period st = Some st'"
      using all(1) by (simp add: count_signals_def bit_len_def st'_def)
    show "counters_ok st'" using all(2) by (simp add: counters_ok_def st'_def)
    show "map_of (wip_activation st') (wip b) = (if wip_passes v e n b then Some (be + 21) else None)"
      using f3 f1(3) by (simp add: st'_def s2)
    show "chain_protocol st' = protocol_register (chain_protocol st) (be + 21) V1_8 period
       \<and> global_protocol st' = protocol_register (global_protocol st) (be + 21) V1_8 period"
      if "wip b = ''WIP0028''" "wip_passes v e n b"
      using f3 f1(5) that by (simp add: st'_def s2 activate_wip_def Let_def)
    show "chain_protocol st' = chain_protocol st \<and> global_protocol st' = global_protocol st"
      if "wip b = ''WIP0028''" "\<not> wip_passes v e n b"
      using f3 f1(5) that by (simp add: st'_def s2)
  qed (use f3 all(3) in \<open>simp_all add: st'_def\<close>)
qed

text \<open>Blocks at consecutive epochs, one signal word each.\<close>

fun signal_run :: "nat \<Rightarrow> u32 list \<Rightarrow> string list \<Rightarrow> u16 \<Rightarrow> tapi_state \<Rightarrow> tapi_state option" where
  "signal_run a [] avoid period st = Some st"
| "signal_run a (v # vs) avoid period st =
     Option.bind (update_bit_counter v (of_nat a) (of_nat a) avoid period st)
       (signal_run (Suc a) vs avoid period)"

lemma signal_run_append:
  "signal_run a (us @ vs) avoid period st =
     Option.bind (signal_run a us avoid period st) (signal_run (a + length us) vs avoid period)"
proof (induction us arbitrary: a st)
  case (Cons v us)
  then show ?case by (cases "update_bit_counter v (of_nat a) (of_nat a) avoid period st") simp_all
qed simp

definition supporters :: "nat \<Rightarrow> u32 list \<Rightarrow> nat" where
  "supporters n vs = length (filter (\<lambda>v. is_bit_n_activated v n) vs)"

lemma supporters_simps [simp]:
  "supporters n [] = 0"
  "supporters n (v # vs) = (if is_bit_n_activated v n then 1 else 0) + supporters n vs"
  by (simp_all add: supporters_def)

lemma supporters_le: "supporters n vs \<le> length vs"
  by (simp add: supporters_def)

text \<open>The counter \<^term>\<open>b\<close> is at position \<^term>\<open>n\<close> with \<^term>\<open>k\<close> votes, still open, after epoch \<^term>\<open>a\<close>.\<close>

definition counting :: "nat \<Rightarrow> bit_votes_counter \<Rightarrow> string list \<Rightarrow> nat \<Rightarrow> nat \<Rightarrow> tapi_state \<Rightarrow> bool" where
  "counting n b avoid k a st \<longleftrightarrow>
     counters_ok st \<and> n < current_length (bit_tapi_counter st)
     \<and> bit_info (bit_tapi_counter st) ! n = Some (b\<lparr>votes := of_nat k\<rparr>)
     \<and> last_epoch (bit_tapi_counter st) = of_nat a
     \<and> map_of (wip_activation st) (wip b) = None \<and> wip b \<notin> set avoid"

lemma unat_epoch: "a < 2 ^ 32 \<Longrightarrow> unat (of_nat a :: epoch) = a"
  by (simp add: unsigned_of_nat take_bit_nat_eq_self)

lemma update_next_epoch:
  assumes "last_epoch (bit_tapi_counter st) = of_nat a"
  shows "update_bit_counter v (of_nat (Suc a)) be avoid period st = count_signals v (of_nat (Suc a)) be avoid period st"
  using assms by (simp add: update_bit_counter.simps Let_def add.commute)

lemma window_closes_iff:
  assumes "a < 2 ^ 32" and "unat (vote_init b) + q * unat (vote_period b) = s"
    and "s < a" and "a \<le> s + unat (vote_period b)"
  shows "window_closes (of_nat a) b \<longleftrightarrow> a = s + unat (vote_period b)"
proof -
  let ?P = "unat (vote_period b)"
  have "unat (of_nat a - vote_init b) = (a - s) + q * ?P"
    using assms by (subst unat_sub_nowrap) (simp_all add: unat_epoch word_le_nat_alt)
  then have "window_closes (of_nat a) b \<longleftrightarrow> (a - s) mod ?P = 0"
    by (simp add: window_closes_def unat_mod word_unat_eq_iff)
  also have "\<dots> \<longleftrightarrow> a = s + ?P"
    using assms(3,4) by (cases "a = s + ?P") (auto simp: mod_eq_0_iff_dvd dest: dvd_imp_le)
  finally show ?thesis .
qed

text \<open>Inside a window the votes add up.\<close>

lemma window_counts:
  assumes "counting n b avoid k a st" and "unat (vote_init b) + q * unat (vote_period b) = s"
    and "s \<le> a" and "a + length vs < s + unat (vote_period b)"
    and "a + length vs < unat (vote_end b)" and "k \<le> a - s"
  obtains st' where "signal_run (Suc a) vs avoid period st = Some st'"
    "counting n b avoid (k + supporters n vs) (a + length vs) st'"
    "wip b = ''WIP0028'' \<Longrightarrow> chain_protocol st' = chain_protocol st \<and> global_protocol st' = global_protocol st"
  using assms
proof (induction vs arbitrary: k a st thesis)
  case Nil
  then show ?case by simp
next
  case (Cons v vs)
  let ?b = "b\<lparr>votes := of_nat k\<rparr>"
  have lt: "Suc a < 2 ^ 32" using Cons.prems(6) unat_lt_size [of "vote_end b"] by simp
  note c = Cons.prems(2) [unfolded counting_def]
  have open_votes: "vote_init ?b \<le> of_nat (Suc a)" "of_nat (Suc a) < vote_end ?b"
    using Cons.prems(3,4,6) lt by (simp_all add: word_le_nat_alt word_less_nat_alt unat_epoch del: of_nat_Suc)
  have "\<not> window_closes (of_nat (Suc a)) ?b"
    using window_closes_iff [of "Suc a" ?b q s] Cons.prems(3-5) lt by (simp del: of_nat_Suc)
  then have nopass: "\<not> wip_passes v (of_nat (Suc a)) n ?b"
    and after: "after_count v (of_nat (Suc a)) n ?b = b\<lparr>votes := of_nat (k + supporters n [v])\<rparr>"
    by (auto simp: wip_passes_def after_count_def counted_def simp del: of_nat_Suc) (simp_all add: add.commute)
  obtain st1 where st1: "count_signals v (of_nat (Suc a)) (of_nat (Suc a)) avoid period st = Some st1"
    "counting n b avoid (k + supporters n [v]) (Suc a) st1"
    "wip b = ''WIP0028'' \<Longrightarrow> chain_protocol st1 = chain_protocol st \<and> global_protocol st1 = global_protocol st"
    by (rule count_signals_bit [of st n ?b "of_nat (Suc a)" avoid v "of_nat (Suc a)" period])
      (use c open_votes nopass after in \<open>auto simp: counting_def simp del: of_nat_Suc\<close>)
  have "update_bit_counter v (of_nat (Suc a)) (of_nat (Suc a)) avoid period st = Some st1"
    using st1(1) c by (simp add: update_next_epoch del: of_nat_Suc)
  moreover obtain st' where "signal_run (Suc (Suc a)) vs avoid period st1 = Some st'"
    "counting n b avoid (k + supporters n [v] + supporters n vs) (Suc a + length vs) st'"
    "wip b = ''WIP0028'' \<Longrightarrow> chain_protocol st' = chain_protocol st1 \<and> global_protocol st' = global_protocol st1"
    by (rule Cons.IH [OF _ st1(2)]) (use Cons.prems(3-7) in auto)
  ultimately show ?case
    using Cons.prems(1) [of st'] st1(3) by (simp del: of_nat_Suc add: add.assoc)
qed

lemma passes_iff:
  assumes "100 * unat (vote_period b) < 2 ^ 32" and "vote_period b \<noteq> 0"
    and "window_closes e (b\<lparr>votes := of_nat k\<rparr>)" and "k < unat (vote_period b)"
  shows "wip_passes v e n (b\<lparr>votes := of_nat k\<rparr>) \<longleftrightarrow>
           80 * unat (vote_period b) \<le> 100 * (k + supporters n [v])"
proof -
  let ?P = "unat (vote_period b)" and ?k = "k + supporters n [v]"
  have P: "0 < ?P" using assms(2) by (simp add: unat_gt_0)
  define m where "m = ?k"
  have small: "m * 100 < 2 ^ 32" using assms(1,4) by (simp add: m_def)
  have c: "counted v n (b\<lparr>votes := of_nat k\<rparr>) = of_nat m" by (simp add: counted_def m_def add.commute)
  have "unat (of_nat m * 100 :: u32) = m * 100"
    using small unat_mult_nowrap [of "of_nat m :: u32" 100] by (simp add: unat_epoch)
  then have "unat (counted v n (b\<lparr>votes := of_nat k\<rparr>) * 100 div vote_period b) = m * 100 div ?P"
    by (simp add: c unat_div)
  then have "wip_passes v e n (b\<lparr>votes := of_nat k\<rparr>) \<longleftrightarrow> 80 \<le> m * 100 div ?P"
    using assms(3) by (simp add: wip_passes_def word_le_nat_alt)
  also have "\<dots> \<longleftrightarrow> 80 * ?P \<le> 100 * m"
    using P by (simp add: less_eq_div_iff_mult_less_eq mult.commute)
  finally show ?thesis unfolding m_def .
qed

text \<open>The last block of a window decides.\<close>

lemma window_end:
  assumes "counting n b avoid k e st" and "s = unat (vote_init b) + q * unat (vote_period b)"
    and "Suc e = s + unat (vote_period b)" and "Suc e < unat (vote_end b)" and "k < unat (vote_period b)"
    and "votes b = 0" and "100 * unat (vote_period b) < 2 ^ 32"
    and "passed \<longleftrightarrow> 80 * unat (vote_period b) \<le> 100 * (k + supporters n [v])"
  obtains st' where "update_bit_counter v (of_nat (Suc e)) (of_nat (Suc e)) avoid period st = Some st'"
    "bit_info (bit_tapi_counter st') ! n = Some b"
    "map_of (wip_activation st') (wip b) = (if passed then Some (of_nat (Suc e) + 21) else None)"
    "wip b = ''WIP0028'' \<Longrightarrow>
       chain_protocol st' = (if passed then protocol_register (chain_protocol st) (of_nat (Suc e) + 21) V1_8 period
                             else chain_protocol st)
       \<and> global_protocol st' = (if passed then protocol_register (global_protocol st) (of_nat (Suc e) + 21) V1_8 period
                                else global_protocol st)"
proof -
  let ?b = "b\<lparr>votes := of_nat k\<rparr>" and ?e = "of_nat (Suc e) :: epoch"
  note c = assms(1) [unfolded counting_def]
  have lt: "Suc e < 2 ^ 32" using assms(4) unat_lt_size [of "vote_end b"] by simp
  have P: "vote_period b \<noteq> 0" "0 < unat (vote_period b)" using assms(5) by auto
  have le: "unat (vote_init b) \<le> Suc e" using assms(2,3) by simp
  have closes: "window_closes ?e ?b"
    using window_closes_iff [OF lt, of ?b q s] assms(2,3) P by (simp del: of_nat_Suc)
  have open_votes: "vote_init ?b \<le> ?e" "?e < vote_end ?b"
    using le assms(4) unat_epoch [OF lt] by (simp_all add: word_le_nat_alt word_less_nat_alt del: of_nat_Suc)
  have after: "after_count v ?e n ?b = b"
    using closes assms(6) by (simp add: after_count_def del: of_nat_Suc)
  have pass: "wip_passes v ?e n ?b \<longleftrightarrow> passed"
    using passes_iff [OF assms(7) P(1) closes assms(5), of v n] assms(8) by blast
  have upd: "update_bit_counter v ?e ?e avoid period st = count_signals v ?e ?e avoid period st"
    using c by (simp add: update_next_epoch del: of_nat_Suc)
  show thesis
    by (rule count_signals_bit [of st n ?b ?e avoid v ?e period])
      (use c open_votes in \<open>auto simp: after pass upd intro!: that simp del: of_nat_Suc\<close>)
qed

text \<open>Claim C12: an improvement is activated by a signaling window exactly when at least 80\% of
  the blocks of the window signal it. Starting at the end of a window with no votes, after the
  \<^verbatim>\<open>period\<close> blocks of the next window the counter is at zero votes again; if the supporters reach
  80\% of the period the improvement is scheduled for 21 epochs later, and WIP0028 also
  registers protocol version 1.8 at that epoch in both registries; otherwise nothing is scheduled.
  Other improvements voted at the same time do not interfere.\<close>

theorem signaling_window_decides_activation:
  assumes "counters_ok st" and "n < current_length (bit_tapi_counter st)"
    and "bit_info (bit_tapi_counter st) ! n = Some b" and "votes b = 0"
    and "map_of (wip_activation st) (wip b) = None" and "wip b \<notin> set avoid"
    and "s = unat (vote_init b) + q * unat (vote_period b)" and "last_epoch (bit_tapi_counter st) = of_nat s"
    and "length vs = unat (vote_period b)" and "s + length vs < unat (vote_end b)"
    and "100 * unat (vote_period b) < 2 ^ 32"
  shows "\<exists>st'. signal_run (Suc s) vs avoid period st = Some st'
     \<and> bit_info (bit_tapi_counter st') ! n = Some b
     \<and> (let passed = 80 * length vs \<le> 100 * supporters n vs; scheduled = of_nat (s + length vs) + 21
        in map_of (wip_activation st') (wip b) = (if passed then Some scheduled else None)
           \<and> (wip b = ''WIP0028'' \<longrightarrow>
                chain_protocol st' = (if passed then protocol_register (chain_protocol st) scheduled V1_8 period
                                      else chain_protocol st)
                \<and> global_protocol st' = (if passed then protocol_register (global_protocol st) scheduled V1_8 period
                                        else global_protocol st)))"
proof -
  let ?P = "unat (vote_period b)"
  have nl: "n < length (bit_info (bit_tapi_counter st))"
    using assms(1-3) by (simp add: counters_ok_def Let_def)
  then have P: "vote_period b \<noteq> 0"
    using assms(1,3) unfolding counters_ok_def Let_def by blast
  then have "vs \<noteq> []" using assms(9) by (auto simp: unat_eq_zero)
  then obtain us v where vs: "vs = us @ [v]" by (metis rev_exhaust)
  define e where "e = s + length us"
  have len: "Suc (length us) = ?P" and lt: "Suc e < 2 ^ 32"
    using assms(9,10) unat_lt_size [of "vote_end b"] by (simp_all add: vs e_def)
  have "b\<lparr>votes := 0\<rparr> = b" using assms(4) by simp
  then have start: "counting n b avoid 0 s st" using assms(1-8) by (simp add: counting_def)
  obtain st1 where st1: "signal_run (Suc s) us avoid period st = Some st1"
    "counting n b avoid (supporters n us) e st1"
    "wip b = ''WIP0028'' \<Longrightarrow> chain_protocol st1 = chain_protocol st \<and> global_protocol st1 = global_protocol st"
    by (rule window_counts [OF start assms(7) [symmetric], where vs = us and period = period])
      (use len assms(10) in \<open>auto simp: vs e_def\<close>)
  define passed where "passed \<longleftrightarrow> 80 * length vs \<le> 100 * supporters n vs"
  have few: "supporters n us < ?P" using supporters_le [of n us] len by linarith
  have passed: "passed \<longleftrightarrow> 80 * ?P \<le> 100 * (supporters n us + supporters n [v])"
    unfolding passed_def assms(9) by (simp add: supporters_def vs)
  have e: "Suc e = s + ?P" "Suc e < unat (vote_end b)"
    using len assms(10) by (simp_all add: e_def vs)
  obtain st' where st': "update_bit_counter v (of_nat (Suc e)) (of_nat (Suc e)) avoid period st1 = Some st'"
    "bit_info (bit_tapi_counter st') ! n = Some b"
    "map_of (wip_activation st') (wip b) = (if passed then Some (of_nat (Suc e) + 21) else None)"
    "wip b = ''WIP0028'' \<Longrightarrow>
       chain_protocol st' = (if passed then protocol_register (chain_protocol st1) (of_nat (Suc e) + 21) V1_8 period
                             else chain_protocol st1)
       \<and> global_protocol st' = (if passed then protocol_register (global_protocol st1) (of_nat (Suc e) + 21) V1_8 period
                                else global_protocol st1)"
    by (rule window_end [OF st1(2) assms(7) e few assms(4,11) passed, where period = period], rule that; assumption)
  have "signal_run (Suc s) vs avoid period st = Some st'"
    using st1(1) st'(1) by (simp add: vs signal_run_append e_def del: of_nat_Suc)
  moreover have "s + length vs = Suc e" by (simp add: vs e_def)
  ultimately show ?thesis
    using st'(2-) st1(3) by (auto simp: Let_def simp flip: passed_def simp del: of_nat_Suc)
qed

text \<open>The engine of a development network, as initialized, after a first block at epoch 80.\<close>

definition sample_tapi :: tapi_state where
  "sample_tapi =
     (let st = snd (initialize_wip_information Development
                 \<lparr>bit_tapi_counter = default_bit_tapi_counter, wip_activation = [],
                  global_protocol = default_protocol_info, chain_protocol = default_protocol_info\<rparr>)
      in st\<lparr>bit_tapi_counter := (bit_tapi_counter st)\<lparr>last_epoch := 80\<rparr>\<rparr>)"

definition sample_counter :: bit_votes_counter where
  "sample_counter = \<lparr>votes = 0, vote_period = 80, wip = ''WIP0028'', vote_init = 0, vote_end = - 1, bit_pos = 9\<rparr>"

lemma sample_tapi_counter:
  "bit_info (bit_tapi_counter sample_tapi) = (replicate 32 None)[9 := Some sample_counter]"
  "last_epoch (bit_tapi_counter sample_tapi) = 80" "current_length (bit_tapi_counter sample_tapi) = 10"
  "map_of (wip_activation sample_tapi) ''WIP0028'' = None"
  by code_simp+

lemma sample_tapi_ok: "counters_ok sample_tapi"
proof -
  have "i = 9" if "i < 32" "(replicate 32 None)[9 := Some sample_counter] ! i = Some c" for i c
    using that by (cases "i = 9") auto
  moreover have "c = sample_counter" if "i < 32" "(replicate 32 None)[9 := Some sample_counter] ! i = Some c" for i c
    using that by (cases "i = 9") auto
  ultimately show ?thesis
    unfolding counters_ok_def Let_def sample_tapi_counter by (fastforce simp: sample_counter_def)
qed

theorem missed_epochs_count_as_silent_witness:
  "update_bit_counter 512 83 83 [] 45 sample_tapi =
     Option.bind (count_range [81, 82] 83 [] 45 sample_tapi) (count_signals 512 83 83 [] 45)"
  using missed_epochs_count_as_silent [of sample_tapi 83 512 83 "[]" 45]
  by (simp add: sample_tapi_counter upt_rec_numeral)

theorem signaling_window_decides_activation_witness:
  "\<exists>st'. signal_run 81 (replicate 64 512 @ replicate 16 0) [] 45 sample_tapi = Some st'
     \<and> map_of (wip_activation st') ''WIP0028'' = Some 181"
proof -
  have sup: "supporters 9 (replicate 64 512 @ replicate 16 0) = 64" by code_simp
  show ?thesis
    using signaling_window_decides_activation [OF sample_tapi_ok, of 9 sample_counter "[]" 80 1
        "replicate 64 512 @ replicate 16 0" 45] sup
    by (auto simp: sample_tapi_counter sample_counter_def Let_def unat_minus_one_word_max)
qed

end
