(* ===== verification/Tallying.thy ===== *)
theory Tallying
  imports Data_Request Tapi
begin

text \<open>
  Resolving a data request (data_request.rs): the rewards of the witnesses, the change of the
  requester, and the tally transaction. Counts are 64-bit words that wrap around like the code's
  \<^verbatim>\<open>usize\<close>. Of the report of the tally script only what the code reads is an argument: the marks of
  liars and errors (absent outside the tally stage) and the encoded result.
\<close>

section \<open>Definitions\<close>

definition calculate_tally_change :: "u64 \<Rightarrow> u64 \<Rightarrow> u64 \<Rightarrow> data_request_output \<Rightarrow> u64" where
  "calculate_tally_change commits_count reveals_count honests_count d =
     (let w = ucast (witnesses d)
      in witness_reward d * (w - honests_count)
         + commit_and_reveal_fee d * (w - reveals_count)
         + commit_and_reveal_fee d * (w - commits_count))"

text \<open>The reward of a witness and the remainder; \<^const>\<open>None\<close> is a division by zero.\<close>

definition calculate_witness_reward_before_second_hard_fork ::
  "u64 \<Rightarrow> u64 \<Rightarrow> u64 \<Rightarrow> u64 \<Rightarrow> u64 \<Rightarrow> u64 \<Rightarrow> (u64 \<times> u64) option"
where
  "calculate_witness_reward_before_second_hard_fork commits_count reveals_count liars_count errors_count reward coll =
     (if commits_count = 0 then Some (0, 0)
      else if reveals_count = 0 then Some (coll, 0)
      else
        let honests_count = commits_count - liars_count - errors_count
        in if honests_count = 0 then None
           else Some (reward + coll + coll * liars_count div honests_count, coll * liars_count mod honests_count))"

definition calculate_witness_reward :: "u64 \<Rightarrow> u64 \<Rightarrow> u64 \<Rightarrow> u64 \<Rightarrow> u64 \<Rightarrow> bool \<Rightarrow> u64 \<times> u64" where
  "calculate_witness_reward commits_count liars_count errors_count reward coll wip0023_active =
     (let honests_count = commits_count - liars_count - errors_count
      in if commits_count = 0 then (0, 0)
         else if honests_count = 0 then (coll, 0)
         else
           let slashed_collateral_reward = coll * liars_count div honests_count;
               slashed_collateral_remainder = coll * liars_count mod honests_count
           in if wip0023_active then (reward + coll, 0)
              else (reward + coll + slashed_collateral_reward, slashed_collateral_remainder))"

definition saturating_div_ceil :: "u64 \<Rightarrow> u64 \<Rightarrow> u64" where
  "saturating_div_ceil lhs rhs =
     (if rhs = 0 then - 1
      else let d = lhs div rhs; r = lhs mod rhs in if r > 0 then d + 1 else d)"

definition calculate_reward_collateral_ratio :: "u64 \<Rightarrow> u64 \<Rightarrow> u64 \<Rightarrow> u64" where
  "calculate_reward_collateral_ratio coll collateral_minimum reward =
     (let dr_collateral = (if coll = 0 then collateral_minimum else coll)
      in saturating_div_ceil dr_collateral reward)"

fun calculate_errors_and_liars_count_from :: "u64 \<times> u64 \<Rightarrow> (bool \<times> bool) list \<Rightarrow> u64 \<times> u64" where
  "calculate_errors_and_liars_count_from acc [] = acc"
| "calculate_errors_and_liars_count_from (l_count, e_count) (x # xs) =
     calculate_errors_and_liars_count_from
       (case x of
          (True, True) \<Rightarrow> (l_count, e_count + 1)
        | (True, False) \<Rightarrow> (l_count + 1, e_count)
        | _ \<Rightarrow> (l_count, e_count)) xs"

definition calculate_errors_and_liars_count :: "bool list \<Rightarrow> bool list \<Rightarrow> u64 \<times> u64" where
  "calculate_errors_and_liars_count errors liars =
     calculate_errors_and_liars_count_from (0, 0) (zip liars errors)"

definition pay :: "pkh \<Rightarrow> u64 \<Rightarrow> value_transfer_output" where
  "pay k v = \<lparr>vto_pkh = k, vto_value = v, vto_time_lock = 0\<rparr>"

text \<open>The loop over the revealers before protocol 2.0: the outputs, who stays out of consensus, and
  who committed an error.\<close>

fun tally_outputs_loop ::
  "u64 \<Rightarrow> u64 \<Rightarrow> (pkh \<times> bool \<times> bool) list \<Rightarrow> pkh list \<Rightarrow> pkh list \<Rightarrow>
   value_transfer_output list \<times> pkh list \<times> pkh list"
where
  "tally_outputs_loop coll reward [] ooc errs = ([], ooc, errs)"
| "tally_outputs_loop coll reward ((revealer, liar, err) # xs) ooc errs =
     (case (liar, err) of
        (True, True) \<Rightarrow>
          let (os, r) = tally_outputs_loop coll reward xs ooc (errs @ [revealer])
          in (pay revealer coll # os, r)
      | (True, False) \<Rightarrow> tally_outputs_loop coll reward xs ooc errs
      | (False, True) \<Rightarrow>
          let (os, r) = tally_outputs_loop coll reward xs (removeAll revealer ooc) (errs @ [revealer])
          in (pay revealer reward # os, r)
      | (False, False) \<Rightarrow>
          let (os, r) = tally_outputs_loop coll reward xs (removeAll revealer ooc) errs
          in (pay revealer reward # os, r))"

text \<open>The same loop from protocol 2.0 on, without outputs.\<close>

fun tally_marks_loop ::
  "(pkh \<times> bool \<times> bool) list \<Rightarrow> pkh list \<Rightarrow> pkh list \<Rightarrow> pkh list \<times> pkh list"
where
  "tally_marks_loop [] ooc errs = (ooc, errs)"
| "tally_marks_loop ((revealer, liar, err) # xs) ooc errs =
     (if liar \<and> err then tally_marks_loop xs ooc (errs @ [revealer])
      else if liar \<and> \<not> err then tally_marks_loop xs ooc errs
      else if \<not> liar \<and> err then tally_marks_loop xs (removeAll revealer ooc) (errs @ [revealer])
      else tally_marks_loop xs (removeAll revealer ooc) errs)"

definition create_tally ::
  "hash \<Rightarrow> data_request_output \<Rightarrow> pkh \<Rightarrow> (bool list \<times> bool list) option \<Rightarrow> u8 list option \<Rightarrow>
   pkh list \<Rightarrow> pkh list \<Rightarrow> u64 \<Rightarrow> u8 list \<Rightarrow> active_wips \<Rightarrow> protocol_version \<Rightarrow>
   tally_transaction option"
where
  "create_tally dr_pointer d pkh tally_metadata encoded revealers committers collateral_minimum
     tally_bytes_on_encode_error wips version =
     (case tally_metadata of
        None \<Rightarrow> None
      | Some (liars, errors) \<Rightarrow>
          if length revealers \<noteq> length liars \<or> length revealers \<noteq> length errors then None
          else
            let commits_count = of_nat (length committers);
                reveals_count = of_nat (length revealers);
                (liars_count, errors_count) = calculate_errors_and_liars_count errors liars;
                coll = (if collateral d = 0 then collateral_minimum else collateral d);
                non_reveals_count = commits_count - reveals_count;
                is_after_second_hard_fork = wips_0009_0011_0012 wips
            in (case (if is_after_second_hard_fork
                      then Some (calculate_witness_reward commits_count (liars_count + non_reveals_count)
                                   errors_count (witness_reward d) coll (wip0023 wips))
                      else calculate_witness_reward_before_second_hard_fork commits_count reveals_count
                             (liars_count + non_reveals_count) errors_count (witness_reward d) coll) of
                  None \<Rightarrow> None
                | Some (reward, rest) \<Rightarrow>
                    let any_honest_revealers =
                          (if is_after_second_hard_fork
                           then commits_count - liars_count - errors_count - non_reveals_count > 0
                           else reveals_count > 0);
                        marks = zip revealers (zip liars errors);
                        (outputs, out_of_consensus, error_committers) =
                          (if version < V2_0 then
                             if any_honest_revealers then tally_outputs_loop coll reward marks committers []
                             else (map (\<lambda>committer. pay committer coll) committers, committers,
                                   if is_after_second_hard_fork then revealers else [])
                           else if any_honest_revealers then ([], tally_marks_loop marks committers [])
                           else ([], committers, if is_after_second_hard_fork then revealers else []));
                        honests_count = reveals_count - liars_count - errors_count;
                        tally_change = calculate_tally_change commits_count reveals_count honests_count d;
                        outputs' = (if tally_change > 0 then outputs @ [pay pkh tally_change] else outputs);
                        tally_bytes = (case encoded of Some bs \<Rightarrow> bs | None \<Rightarrow> tally_bytes_on_encode_error)
                    in Some \<lparr>tally_dr_pointer = dr_pointer, tally_bytes = tally_bytes, tally_outputs = outputs',
                             out_of_consensus = out_of_consensus, error_committers = error_committers\<rparr>))"

section \<open>Properties\<close>

subsection \<open>Marks of the witnesses\<close>

definition liars_of :: "(bool \<times> bool) list \<Rightarrow> nat" where
  "liars_of ms = length (filter (\<lambda>(liar, err). liar \<and> \<not> err) ms)"

definition errors_of :: "(bool \<times> bool) list \<Rightarrow> nat" where
  "errors_of ms = length (filter (\<lambda>(liar, err). liar \<and> err) ms)"

definition honest_of :: "(bool \<times> bool) list \<Rightarrow> nat" where
  "honest_of ms = length (filter (\<lambda>(liar, err). \<not> liar) ms)"

lemma marks_partition: "liars_of ms + errors_of ms + honest_of ms = length ms"
  by (induction ms) (auto simp: liars_of_def errors_of_def honest_of_def)

lemma count_from:
  "calculate_errors_and_liars_count_from (l, e) ms = (l + of_nat (liars_of ms), e + of_nat (errors_of ms))"
  by (induction ms arbitrary: l e)
    (auto simp: liars_of_def errors_of_def split: bool.split prod.split)

lemma count_marks:
  "calculate_errors_and_liars_count errors liars =
     (of_nat (liars_of (zip liars errors)), of_nat (errors_of (zip liars errors)))"
  by (simp add: calculate_errors_and_liars_count_def count_from)

text \<open>The two loops agree on the marks; the older one also pays.\<close>

lemma tally_outputs_loop_marks:
  "snd (tally_outputs_loop coll reward xs ooc errs) = tally_marks_loop xs ooc errs"
  by (induction coll reward xs ooc errs rule: tally_outputs_loop.induct)
    (auto simp: split_def Let_def split: bool.split)

lemma tally_outputs_loop_sum:
  "(\<Sum>out \<leftarrow> fst (tally_outputs_loop coll reward xs ooc errs). unat (vto_value out)) =
     errors_of (map snd xs) * unat coll + honest_of (map snd xs) * unat reward"
  by (induction coll reward xs ooc errs rule: tally_outputs_loop.induct)
    (auto simp: split_def Let_def pay_def errors_of_def honest_of_def split: bool.split)

lemma tally_marks_loop_eq:
  "tally_marks_loop xs ooc errs =
     (filter (\<lambda>k. k \<notin> set (map fst (filter (\<lambda>x. \<not> fst (snd x)) xs))) ooc,
      errs @ map fst (filter (\<lambda>x. snd (snd x)) xs))"
  by (induction xs ooc errs rule: tally_marks_loop.induct)
    (auto simp: removeAll_filter_not_eq intro!: filter_cong)

subsection \<open>Conservation of value\<close>

lemma unat_count: "n < 65536 \<Longrightarrow> unat (of_nat n :: u64) = n"
  by (simp add: unsigned_of_nat take_bit_nat_eq_self)

lemma unat_word_mult: "unat a * unat b < 2 ^ 64 \<Longrightarrow> unat (a * b) = unat a * unat (b :: u64)"
  by (simp add: unat_mult_nowrap)

lemma unat_witnesses: "unat (ucast (witnesses d) :: u64) = unat (witnesses d)" "unat (witnesses d) < 65536"
  using unat_lt_size [of "witnesses d"] by (simp_all add: unat_cast_mod)

lemma unat_tally_change:
  assumes "c \<le> unat (witnesses d)" and "r \<le> c" and "h \<le> r"
    and "(unat (witness_reward d) + 2 * unat (commit_and_reveal_fee d)) * unat (witnesses d) < 2 ^ 64"
  shows "unat (calculate_tally_change (of_nat c) (of_nat r) (of_nat h) d) =
     unat (witness_reward d) * (unat (witnesses d) - h)
     + unat (commit_and_reveal_fee d) * (unat (witnesses d) - r)
     + unat (commit_and_reveal_fee d) * (unat (witnesses d) - c)"
proof -
  let ?R = "unat (witness_reward d)" and ?F = "unat (commit_and_reveal_fee d)" and ?W = "unat (witnesses d)"
  have sub: "unat (ucast (witnesses d) - of_nat n :: u64) = ?W - n" if "n \<le> ?W" for n
    using that unat_witnesses [of d]
    by (subst unat_sub_nowrap) (simp_all add: word_le_nat_alt unat_count)
  have "?R * (?W - h) + ?F * (?W - r) + ?F * (?W - c) \<le> ?R * ?W + ?F * ?W + ?F * ?W"
    by (intro add_mono mult_le_mono2) simp_all
  also have "\<dots> < 2 ^ 64" using assms(4) by (simp add: algebra_simps)
  finally have bound: "?R * (?W - h) + ?F * (?W - r) + ?F * (?W - c) < 2 ^ 64" .
  show ?thesis
    unfolding calculate_tally_change_def Let_def
    using bound assms(1-3)
    by (simp add: unat_add_nowrap unat_word_mult sub)
qed

lemma checked_total_value_Ok:
  assumes "0 < unat (witnesses d)"
    and "(unat (witness_reward d) + 2 * unat (commit_and_reveal_fee d)) * unat (witnesses d) < 2 ^ 64"
  shows "\<exists>t. checked_total_value d = Ok t
     \<and> unat t = (unat (witness_reward d) + 2 * unat (commit_and_reveal_fee d)) * unat (witnesses d)"
proof -
  let ?R = "unat (witness_reward d)" and ?F = "unat (commit_and_reveal_fee d)" and ?W = "unat (witnesses d)"
  have "(?R + 2 * ?F) * 1 \<le> (?R + 2 * ?F) * ?W" using assms(1) by (intro mult_le_mono2) simp
  then have small: "?R + 2 * ?F < 2 ^ 64" using assms(2) by (simp only: mult_1_right le_less_trans)
  define a where "a = witness_reward d + commit_and_reveal_fee d"
  have one: "checked_add (witness_reward d) (commit_and_reveal_fee d) = Some a" and u1: "unat a = ?R + ?F"
    using small by (simp_all add: a_def checked_add_def unat_add_nowrap)
  have two: "checked_add a (commit_and_reveal_fee d) = Some (a + commit_and_reveal_fee d)"
    and u2: "unat (a + commit_and_reveal_fee d) = ?R + 2 * ?F"
    using small u1 by (simp_all add: checked_add_def unat_add_nowrap)
  show ?thesis
    using assms(2) u2
    by (simp add: checked_total_value_def one two checked_mul_def unat_witnesses(1) unat_word_mult)
qed

lemma locked_in_tally:
  assumes "stage st = TALLY" and "dr_request st = d"
    and "length (commits (info st)) = c" and "length (reveals (info st)) = r"
    and "coll = (if collateral d = 0 then cm else collateral d)"
    and "(unat (witness_reward d) + 2 * unat (commit_and_reveal_fee d)) * unat (witnesses d) + unat coll * c < 2 ^ 64"
    and "0 < unat (witnesses d)" and "c \<le> unat (witnesses d)" and "r \<le> c"
  shows "\<exists>w. locked_by_request cm st = Some w
     \<and> unat w + unat (commit_and_reveal_fee d) * c + unat (commit_and_reveal_fee d) * r
         = (unat (witness_reward d) + 2 * unat (commit_and_reveal_fee d)) * unat (witnesses d) + unat coll * c"
proof -
  let ?R = "unat (witness_reward d)" and ?F = "unat (commit_and_reveal_fee d)" and ?W = "unat (witnesses d)"
  have c: "unat (of_nat c :: u64) = c" and r: "unat (of_nat r :: u64) = r"
    using assms(8,9) unat_witnesses(2) [of d] by (simp_all add: unat_count)
  have "?F * c + ?F * r \<le> ?F * ?W + ?F * ?W"
    using assms(8,9) by (intro add_mono mult_le_mono2) simp_all
  also have "\<dots> \<le> (?R + 2 * ?F) * ?W" by (simp add: algebra_simps)
  finally have fees: "?F * c + ?F * r \<le> (?R + 2 * ?F) * ?W" .
  obtain t where t: "checked_total_value d = Ok t" "unat t = (?R + 2 * ?F) * ?W"
    using checked_total_value_Ok [of d] assms(6,7) by auto
  define w where "w = saturating_sub (saturating_sub (saturating_add t (saturating_mul (of_nat c) coll))
      (saturating_mul (of_nat c) (commit_and_reveal_fee d))) (saturating_mul (of_nat r) (commit_and_reveal_fee d))"
  have "unat w = (?R + 2 * ?F) * ?W + unat coll * c - ?F * c - ?F * r"
    unfolding w_def using fees assms(6)
    by (simp add: unat_simps c r t(2) mult.commute)
  moreover have "locked_by_request cm st = Some w"
    using assms(1-5) t(1) by (simp add: locked_by_request_def Let_def w_def)
  ultimately show ?thesis using fees by simp
qed

text \<open>Of \<^term>\<open>c = l + x + h + n\<close> committers, \<^term>\<open>l\<close> lied, \<^term>\<open>x\<close> reported errors out of consensus,
  \<^term>\<open>h\<close> were honest and \<^term>\<open>n\<close> did not reveal.\<close>

lemma unat_count0: "c < 65536 \<Longrightarrow> (of_nat c :: u64) = 0 \<longleftrightarrow> c = 0"
  using unat_count [of c] by (simp add: word_unat_eq_iff)

lemma witness_reward_honest:
  assumes "h \<noteq> 0" and "l + x + h + n < 65536"
    and "unat R + unat K * (l + x + h + n) < 2 ^ 64"
  shows "unat (fst (calculate_witness_reward (of_nat (l + x + h + n)) (of_nat (l + n)) (of_nat x) R K w23)) =
     unat R + unat K + (if w23 then 0 else unat K * (l + n) div h)"
proof -
  have h: "(of_nat (l + x + h + n) :: u64) - of_nat (l + n) - of_nat x = of_nat h" by simp
  have uh: "unat (of_nat h :: u64) = h" and un: "unat (of_nat (l + n) :: u64) = l + n"
    using assms(2) by (simp_all only: unat_count)
  have "unat K * (l + n + 1) \<le> unat K * (l + x + h + n)" using assms(1) by (intro mult_le_mono2) simp
  then have sum: "unat K * (l + n) + unat K + unat R < 2 ^ 64" using assms(3) by simp
  then have q: "unat (K * of_nat (l + n) div of_nat h) = unat K * (l + n) div h"
    by (subst unat_div) (simp add: unat_word_mult un uh del: of_nat_add)
  have dl: "unat K * (l + n) div h \<le> unat K * (l + n)" by simp
  then have small: "unat R + unat K + unat K * (l + n) div h < 2 ^ 64" using sum by linarith
  have "unat (R + K) = unat R + unat K" using sum by (simp add: unat_add_nowrap)
  then have "unat (R + K + K * of_nat (l + n) div of_nat h) = unat R + unat K + unat K * (l + n) div h"
    using small by (subst unat_add_nowrap) (simp_all add: q del: of_nat_add)
  moreover have "(of_nat (l + x + h + n) :: u64) \<noteq> 0" "(of_nat h :: u64) \<noteq> 0"
    using assms(1,2) by (simp_all add: unat_count0 del: of_nat_add)
  ultimately show ?thesis
    using \<open>unat (R + K) = unat R + unat K\<close>
    by (simp add: calculate_witness_reward_def h Let_def del: of_nat_add)
qed

lemma sum_pay_all: "(\<Sum>out \<leftarrow> map (\<lambda>k. pay k v) ks. unat (vto_value out)) = length ks * unat v"
  by (induction ks) (simp_all add: pay_def)

lemma sum_with_change:
  "(\<Sum>out \<leftarrow> (if v > 0 then os @ [pay k v] else os). unat (vto_value out)) =
     (\<Sum>out \<leftarrow> os. unat (vto_value out)) + unat v"
  by (auto simp: pay_def word_gt_0)

lemma create_tally_payout:
  assumes "version < V2_0" and "wips_0009_0011_0012 wips"
    and "length liars = length revealers" and "length errors = length revealers"
    and "ms = zip liars errors" and "l = liars_of ms" and "x = errors_of ms" and "h = honest_of ms"
    and "length committers = l + x + h + n" and "l + x + h + n < 65536"
    and "coll = (if collateral d = 0 then cm else collateral d)"
  shows "\<exists>tx. create_tally p d k (Some (liars, errors)) enc revealers committers cm bytes wips version = Some tx
     \<and> (\<Sum>out \<leftarrow> tally_outputs tx. unat (vto_value out)) =
         (if h = 0 then length committers * unat coll
          else x * unat coll + h * unat (fst (calculate_witness_reward (of_nat (l + x + h + n)) (of_nat (l + n))
                 (of_nat x) (witness_reward d) coll (wip0023 wips))))
         + unat (calculate_tally_change (of_nat (l + x + h + n)) (of_nat (l + x + h)) (of_nat h) d)"
proof -
  have r: "length revealers = l + x + h"
    using marks_partition [of ms] assms(3-8) by simp
  have nonreveal: "(of_nat (l + x + h + n) :: u64) - of_nat (l + x + h) = of_nat n" by simp
  have liars: "(of_nat l :: u64) + of_nat n = of_nat (l + n)" by simp
  have honest: "(of_nat (l + x + h) :: u64) - of_nat l - of_nat x = of_nat h" by simp
  have any: "(of_nat (l + x + h + n) :: u64) - of_nat l - of_nat x - of_nat n > 0 \<longleftrightarrow> h \<noteq> 0"
    using assms(10) unat_count0 [of h] by (simp add: word_gt_0)
  have marks: "map snd (zip revealers ms) = ms" using assms(3-5) by simp
  define rr where "rr = calculate_witness_reward (of_nat (l + x + h + n)) (of_nat (l + n)) (of_nat x)
      (witness_reward d) coll (wip0023 wips)"
  define loop where "loop = tally_outputs_loop coll (fst rr) (zip revealers ms) committers []"
  define ch where "ch = calculate_tally_change (of_nat (l + x + h + n)) (of_nat (l + x + h)) (of_nat h) d"
  define os where "os = (if h = 0 then map (\<lambda>c. pay c coll) committers else fst loop)"
  have "\<exists>ooc errs b. create_tally p d k (Some (liars, errors)) enc revealers committers cm bytes wips version =
      Some \<lparr>tally_dr_pointer = p, tally_bytes = b, tally_outputs = (if ch > 0 then os @ [pay k ch] else os),
            out_of_consensus = ooc, error_committers = errs\<rparr>"
    unfolding create_tally_def
    using assms(1-4)
    by (simp add: count_marks r assms(9) Let_def split_def nonreveal liars honest any
        flip: assms(5-8,11) rr_def ch_def loop_def del: of_nat_add) (simp add: os_def)
  moreover have "(\<Sum>out \<leftarrow> os. unat (vto_value out)) =
      (if h = 0 then length committers * unat coll else x * unat coll + h * unat (fst rr))"
    by (simp add: os_def sum_pay_all loop_def tally_outputs_loop_sum marks assms(7,8) del: map_map)
  ultimately show ?thesis
    using sum_with_change [of ch os k] by (auto simp: rr_def ch_def simp del: of_nat_add)
qed

text \<open>The change completes what the witnesses and the miners earn to the value of the request.\<close>

lemma change_balance:
  assumes "c \<le> unat (witnesses d)" and "r \<le> c" and "h \<le> r"
    and "(unat (witness_reward d) + 2 * unat (commit_and_reveal_fee d)) * unat (witnesses d) < 2 ^ 64"
  shows "unat (calculate_tally_change (of_nat c) (of_nat r) (of_nat h) d) + unat (witness_reward d) * h
      + unat (commit_and_reveal_fee d) * r + unat (commit_and_reveal_fee d) * c
      = (unat (witness_reward d) + 2 * unat (commit_and_reveal_fee d)) * unat (witnesses d)"
proof -
  have split: "a * (unat (witnesses d) - m) + a * m = a * unat (witnesses d)" if "m \<le> unat (witnesses d)" for a m
    using that by (simp flip: add_mult_distrib2)
  show ?thesis
    using unat_tally_change [OF assms] assms(1-3) split [of h "unat (witness_reward d)"]
      split [of r "unat (commit_and_reveal_fee d)"] split [of c "unat (commit_and_reveal_fee d)"]
    by (simp add: add_mult_distrib)
qed

text \<open>What the outputs and the slashed collateral add up to when some revealer is honest.\<close>

lemma honest_balance:
  fixes R K h l x n :: nat
  assumes "h \<noteq> 0"
  shows "x * K + h * (R + K + (if w23 then 0 else K * (l + n) div h))
      + (if w23 then K * (l + n) else K * (l + n) mod h) = R * h + K * (l + x + h + n)"
proof (cases w23)
  case False
  have "h * (K * (l + n) div h) + K * (l + n) mod h = K * (l + n)" by simp
  then show ?thesis using False by (simp add: algebra_simps del: mult_div_mod_eq)
qed (simp add: algebra_simps)

text \<open>Claim C6: resolving a data request conserves value. For a request in the tally stage, the
  tally transaction created after the second hard fork and before protocol 2.0 pays out exactly
  the wits the pool counts as locked by the request: the change of the requester, the refunds of
  the error reports and the rewards of the honest witnesses add up to it, except for the collateral
  of the liars and of those who did not reveal, which is shared among the honest up to the remainder
  of the division, or, once WIP0023 is active, burnt.\<close>

theorem tally_conserves_value:
  assumes "version < V2_0" and "wips_0009_0011_0012 wips"
    and "stage st = TALLY" and "dr_request st = d"
    and "length committers = length (commits (info st))" and "length revealers = length (reveals (info st))"
    and "length revealers \<le> length committers" and "length committers \<le> unat (witnesses d)"
    and "0 < unat (witnesses d)"
    and "length liars = length revealers" and "length errors = length revealers"
    and "coll = (if collateral d = 0 then cm else collateral d)"
    and "(unat (witness_reward d) + 2 * unat (commit_and_reveal_fee d)) * unat (witnesses d)
           + unat coll * length committers < 2 ^ 64"
  shows "\<exists>tx locked. create_tally p d k (Some (liars, errors)) enc revealers committers cm bytes wips version = Some tx
     \<and> locked_by_request cm st = Some locked
     \<and> (let honest = honest_of (zip liars errors);
            slashed = unat coll * (length committers - errors_of (zip liars errors) - honest)
        in unat locked = (\<Sum>out \<leftarrow> tally_outputs tx. unat (vto_value out))
             + (if honest = 0 then 0 else if wip0023 wips then slashed else slashed mod honest))"
proof -
  define ms where "ms = zip liars errors"
  define l x h where "l = liars_of ms" and "x = errors_of ms" and "h = honest_of ms"
  define n where "n = length committers - length revealers"
  let ?R = "unat (witness_reward d)" and ?F = "unat (commit_and_reveal_fee d)" and ?W = "unat (witnesses d)"
  have r: "length revealers = l + x + h"
    using marks_partition [of ms] assms(10,11) by (simp add: ms_def l_def x_def h_def)
  have c: "length committers = l + x + h + n" using assms(7) r by (simp add: n_def)
  have small: "l + x + h + n < 65536" using assms(8) c unat_witnesses(2) [of d] by simp
  obtain tx where tx: "create_tally p d k (Some (liars, errors)) enc revealers committers cm bytes wips version = Some tx"
    "(\<Sum>out \<leftarrow> tally_outputs tx. unat (vto_value out)) =
         (if h = 0 then length committers * unat coll
          else x * unat coll + h * unat (fst (calculate_witness_reward (of_nat (l + x + h + n)) (of_nat (l + n))
                 (of_nat x) (witness_reward d) coll (wip0023 wips))))
         + unat (calculate_tally_change (of_nat (l + x + h + n)) (of_nat (l + x + h)) (of_nat h) d)"
    using create_tally_payout [OF assms(1,2,10,11) ms_def l_def x_def h_def c small assms(12)] by blast
  have "?R * 1 \<le> ?R * ?W" using assms(9) by (intro mult_le_mono2) simp
  then have bound: "?R + unat coll * (l + x + h + n) < 2 ^ 64" "(?R + 2 * ?F) * ?W < 2 ^ 64"
    using assms(13) unfolding c add_mult_distrib mult_1_right by linarith+
  obtain locked where locked: "locked_by_request cm st = Some locked"
    "unat locked + ?F * (l + x + h + n) + ?F * (l + x + h) = (?R + 2 * ?F) * ?W + unat coll * (l + x + h + n)"
    using locked_in_tally [OF assms(3,4) _ _ assms(12), of "l + x + h + n" "l + x + h"] assms(5-9,13) r c by auto
  note change = change_balance [of "l + x + h + n" d "l + x + h" h, OF _ _ _ bound(2)]
  have le: "l + x + h + n \<le> ?W" using assms(8) c by simp
  have slashed: "length committers - x - h = l + n" using c by simp
  show ?thesis
  proof (cases "h = 0")
    case True
    then show ?thesis
      using tx locked change le c by (simp add: mult.commute flip: ms_def h_def)
  next
    case False
    note reward = witness_reward_honest [OF False small bound(1)]
    have "unat locked = (\<Sum>out \<leftarrow> tally_outputs tx. unat (vto_value out))
             + (if wip0023 wips then unat coll * (l + n) else unat coll * (l + n) mod h)"
      using tx(2) locked(2) change le False
        honest_balance [OF False, of x "unat coll" ?R "wip0023 wips" l n]
      unfolding reward by (simp del: of_nat_add)
    then show ?thesis
      using tx(1) locked(1) False slashed by (simp flip: ms_def h_def x_def)
  qed
qed

text \<open>One honest witness and one liar, before WIP0023.\<close>

definition sample_wips :: active_wips where
  "sample_wips = \<lparr>known_wips = [(''WIP0009-0011-0012'', 0)], block_epoch = 500\<rparr>"

definition sample_reveal :: reveal_transaction where
  "sample_reveal = \<lparr>reveal_dr_pointer = [9], reveal_bytes = [], reveal_pkh = [7],
     reveal_signatures = [\<lparr>ks_signature = [], ks_public_key = [7]\<rparr>]\<rparr>"

definition sample_tally_state :: dr_state where
  "sample_tally_state = (new_dr_state sample_request [1] 5 None)
     \<lparr>stage := TALLY,
      info := default_dr_info\<lparr>commits := [([7], sample_commit), ([8], sample_commit)],
                              reveals := [([7], sample_reveal), ([8], sample_reveal)]\<rparr>\<rparr>"

theorem tally_conserves_value_witness:
  "\<exists>tx locked. create_tally [9] sample_request [1] (Some ([False, True], [False, False])) (Some [5]) [[7], [8]]
        [[7], [8]] 0 [] sample_wips V1_8 = Some tx
     \<and> locked_by_request 0 sample_tally_state = Some locked
     \<and> unat locked = (\<Sum>out \<leftarrow> tally_outputs tx. unat (vto_value out))"
proof -
  have "V1_8 < V2_0" "wips_0009_0011_0012 sample_wips" "\<not> wip0023 sample_wips"
    by (simp_all add: less_protocol_version_def wips_0009_0011_0012_def wip0023_def wip_active_def sample_wips_def)
  moreover have "stage sample_tally_state = TALLY" "dr_request sample_tally_state = sample_request"
    "length (commits (info sample_tally_state)) = 2" "length (reveals (info sample_tally_state)) = 2"
    by (simp_all add: sample_tally_state_def new_dr_state_def default_dr_info_def)
  moreover have "witnesses sample_request = 2" "collateral sample_request = 100" "witness_reward sample_request = 10"
    "commit_and_reveal_fee sample_request = 3"
    by (simp_all add: sample_request_def)
  ultimately show ?thesis
    using tally_conserves_value [of V1_8 sample_wips sample_tally_state sample_request "[[7], [8]]" "[[7], [8]]"
        "[False, True]" "[False, False]" 100 0 "[9]" "[1]" "Some [5]" "[]"]
    by (simp add: honest_of_def errors_of_def Let_def)
qed

lemma zip_marks:
  assumes "length rs = length ls" and "length ls = length es"
  shows "map fst (filter (\<lambda>x. \<not> fst (snd x)) (zip rs (zip ls es))) =
      map fst (filter (\<lambda>(r, liar). \<not> liar) (zip rs ls))"
    and "map fst (filter (\<lambda>x. snd (snd x)) (zip rs (zip ls es))) = map fst (filter (\<lambda>(r, err). err) (zip rs es))"
    and "honest_of (zip ls es) \<noteq> 0 \<longleftrightarrow> map fst (filter (\<lambda>(r, liar). \<not> liar) (zip rs ls)) \<noteq> []"
  using assms
  by (induction rs ls es rule: list_induct3) (auto simp: honest_of_def)

text \<open>Claim C27: the verdict of a tally does not depend on the protocol version. After the second
  hard fork, when some revealer is in consensus, exactly the committers without a reveal in
  consensus are out of consensus, and exactly the revealers of errors are listed as error
  committers; when none is, every committer is out of consensus and every revealer counts as an
  error, so that nobody is penalized. From protocol 2.0 on the only possible output is the change
  of the requester.\<close>

theorem tally_verdict:
  assumes "wips_0009_0011_0012 wips"
    and "length liars = length revealers" and "length errors = length revealers"
    and "length revealers \<le> length committers" and "length committers < 65536"
    and "in_consensus = map fst (filter (\<lambda>(r, liar). \<not> liar) (zip revealers liars))"
    and "in_error = map fst (filter (\<lambda>(r, err). err) (zip revealers errors))"
  shows "\<exists>tx. create_tally p d k (Some (liars, errors)) enc revealers committers cm bytes wips version = Some tx
     \<and> (if in_consensus \<noteq> []
        then out_of_consensus tx = filter (\<lambda>c. c \<notin> set in_consensus) committers \<and> error_committers tx = in_error
        else out_of_consensus tx = committers \<and> error_committers tx = revealers)
     \<and> (version = V2_0 \<longrightarrow> length (tally_outputs tx) \<le> 1 \<and> (\<forall>out \<in> set (tally_outputs tx). vto_pkh out = k))"
proof -
  define ms where "ms = zip liars errors"
  have r: "length revealers = liars_of ms + errors_of ms + honest_of ms"
    using marks_partition [of ms] assms(2,3) by (simp add: ms_def)
  have any: "(of_nat (length revealers) :: u64) - of_nat (errors_of ms) - of_nat (liars_of ms) > 0
      \<longleftrightarrow> honest_of ms \<noteq> 0"
    using assms(4,5) r unat_count0 [of "honest_of ms"] by (simp add: word_gt_0)
  note zips = zip_marks [OF assms(2) [symmetric], of errors, folded ms_def assms(6,7)]
  have cons: "map fst (filter (\<lambda>x. \<not> fst (snd x)) (zip revealers ms)) = in_consensus"
    and errs: "map fst (filter (\<lambda>x. snd (snd x)) (zip revealers ms)) = in_error"
    and honest: "honest_of ms \<noteq> 0 \<longleftrightarrow> in_consensus \<noteq> []"
    using zips assms(2,3) by simp_all
  have marks: "tally_marks_loop (zip revealers ms) committers [] =
      (filter (\<lambda>c. c \<notin> set in_consensus) committers, in_error)"
    unfolding tally_marks_loop_eq cons errs by simp
  show ?thesis
    unfolding create_tally_def
    using assms(1-3) honest
    by (cases version; cases "in_consensus = []")
      (auto simp: count_marks Let_def split_def any marks tally_outputs_loop_marks less_protocol_version_def pay_def
        simp flip: ms_def)
qed

theorem tally_verdict_witness:
  "\<exists>tx. create_tally [9] sample_request [1] (Some ([False, True], [False, False])) (Some [5]) [[7], [8]]
        [[7], [8], [6]] 0 [] sample_wips V2_0 = Some tx
     \<and> out_of_consensus tx = [[8], [6]] \<and> error_committers tx = []"
  using tally_verdict [of sample_wips "[False, True]" "[[7], [8]]" "[False, False]" "[[7], [8], [6]]" "[[7]]" "[]"
      "[9]" sample_request "[1]" "Some [5]" 0 "[]" V2_0]
  by (auto simp: wips_0009_0011_0012_def wip_active_def sample_wips_def)

end
