(* ===== verification/Merkle.thy ===== *)
theory Merkle
  imports Transactions
begin

text \<open>
  Merkle trees (crypto/src/merkle.rs): the root of a slice, the progressive tree, the full tree with
  its inclusion proofs, and the inclusion proofs of transactions (transaction.rs). The function that
  hashes two nodes is an argument, as in the code; SHA-256 itself is an argument of the instances.
  Indexes are natural numbers: a tree of fewer than \<^verbatim>\<open>2^63\<close> leaves has at most 64 layers, so no
  shift leaves the 64 bits of the code.
\<close>

unbundle bit_operations_syntax

section \<open>Definitions\<close>

subsection \<open>The root of a slice\<close>

function next_power_from :: "nat \<Rightarrow> nat \<Rightarrow> nat" where
  "next_power_from p n = (if p = 0 \<or> n \<le> p then p else next_power_from (2 * p) n)"
  by pat_completeness auto
termination
  by (relation "measure (\<lambda>(p, n). n - p)") auto

declare next_power_from.simps [simp del]

text \<open>\<^verbatim>\<open>usize::next_power_of_two\<close>\<close>

definition next_power_of_two :: "nat \<Rightarrow> nat" where
  "next_power_of_two n = next_power_from 1 n"

lemma next_power_from_props:
  assumes "p = 2 ^ k" and "n \<noteq> 0"
  shows "\<exists>j \<ge> k. next_power_from p n = 2 ^ j \<and> n \<le> 2 ^ j \<and> (j > k \<longrightarrow> 2 ^ (j - 1) < n)"
  using assms
proof (induction p n arbitrary: k rule: next_power_from.induct)
  case (1 p n)
  show ?case
  proof (cases "n \<le> p")
    case True
    then show ?thesis using "1.prems" by (subst next_power_from.simps) auto
  next
    case False
    then have "2 * p = 2 ^ Suc k" and "p \<noteq> 0" using "1.prems"(1) by simp_all
    then obtain j where "j \<ge> Suc k" "next_power_from (2 * p) n = 2 ^ j" "n \<le> 2 ^ j"
      "j > Suc k \<longrightarrow> 2 ^ (j - 1) < n"
      using "1.IH" False "1.prems"(2) by blast
    then show ?thesis
      using False \<open>p \<noteq> 0\<close> "1.prems"(1)
      by (subst next_power_from.simps) (auto intro!: exI [of _ j] dest: le_neq_implies_less)
  qed
qed

lemma next_power_of_two_props:
  "n \<noteq> 0 \<Longrightarrow> \<exists>j. next_power_of_two n = 2 ^ j \<and> n \<le> 2 ^ j \<and> (j > 0 \<longrightarrow> 2 ^ (j - 1) < n)"
  using next_power_from_props [of 1 0 n] by (auto simp: next_power_of_two_def)

lemma next_power_of_two_bounds:
  assumes "n \<noteq> 0"
  shows "n \<le> next_power_of_two n" and "next_power_of_two n < 2 * n" and "0 < next_power_of_two n"
proof -
  obtain j where j: "next_power_of_two n = 2 ^ j" "n \<le> 2 ^ j" "j > 0 \<longrightarrow> 2 ^ (j - 1) < n"
    using next_power_of_two_props [OF assms] by blast
  show "n \<le> next_power_of_two n" "0 < next_power_of_two n" using j by simp_all
  show "next_power_of_two n < 2 * n" using j assms by (cases j) auto
qed

text \<open>The position at which a slice of \<^term>\<open>n\<close> hashes is split.\<close>

definition split_point :: "nat \<Rightarrow> nat" where
  "split_point n = next_power_of_two ((n + 1) div 2)"

lemma split_point_less:
  assumes "3 \<le> n"
  shows "split_point n < n" and "0 < split_point n"
proof -
  obtain j where j: "split_point n = 2 ^ j" "(n + 1) div 2 \<le> 2 ^ j" "j > 0 \<longrightarrow> 2 ^ (j - 1) < (n + 1) div 2"
    using next_power_of_two_props [of "(n + 1) div 2"] assms by (auto simp: split_point_def)
  show "0 < split_point n" using j(1) by simp
  have "j > 0" using j(2) assms by (cases j) auto
  then have "2 * 2 ^ (j - 1) < n" using j(3) by linarith
  moreover have "2 * 2 ^ (j - 1) = (2 :: nat) ^ j" using \<open>j > 0\<close> by (cases j) simp_all
  ultimately show "split_point n < n" using j(1) by simp
qed

text \<open>\<^const>\<open>None\<close> stands for the panic on an empty slice.\<close>

function merkle_tree_root_with_hashing_function :: "('a \<Rightarrow> 'a \<Rightarrow> 'a) \<Rightarrow> 'a list \<Rightarrow> 'a option" where
  "merkle_tree_root_with_hashing_function hash_concat hashes =
     (case hashes of
        [] \<Rightarrow> None
      | [x] \<Rightarrow> Some x
      | [x, y] \<Rightarrow> Some (hash_concat x y)
      | _ \<Rightarrow>
          let p = split_point (length hashes)
          in (case merkle_tree_root_with_hashing_function hash_concat (take p hashes) of
                None \<Rightarrow> None
              | Some left_hash \<Rightarrow>
                  (case merkle_tree_root_with_hashing_function hash_concat (drop p hashes) of
                     None \<Rightarrow> None
                   | Some right_hash \<Rightarrow> Some (hash_concat left_hash right_hash))))"
  by pat_completeness auto
termination
  by (relation "measure (\<lambda>(_, xs). length xs)") (use split_point_less in auto)

declare merkle_tree_root_with_hashing_function.simps [simp del]

definition sha256_concat :: "(u8 list \<Rightarrow> hash) \<Rightarrow> hash \<Rightarrow> hash \<Rightarrow> hash" where
  "sha256_concat sha256 a b = sha256 (a @ b)"

definition merkle_tree_root :: "(u8 list \<Rightarrow> hash) \<Rightarrow> hash \<Rightarrow> hash list \<Rightarrow> hash option" where
  "merkle_tree_root sha256 EMPTY_SHA256 hashes =
     (if hashes = [] then Some EMPTY_SHA256
      else merkle_tree_root_with_hashing_function (sha256_concat sha256) hashes)"

subsection \<open>The progressive tree\<close>

record 'a progressive_merkle_tree =
  leaves :: "'a option list"
  p_hash_concat :: "'a \<Rightarrow> 'a \<Rightarrow> 'a"
  p_empty_hash :: 'a

definition progressive_sha256 :: "(u8 list \<Rightarrow> hash) \<Rightarrow> hash \<Rightarrow> hash progressive_merkle_tree" where
  "progressive_sha256 sha256 EMPTY_SHA256 =
     \<lparr>leaves = [], p_hash_concat = sha256_concat sha256, p_empty_hash = EMPTY_SHA256\<rparr>"

text \<open>The \<^verbatim>\<open>try_fold\<close> of push, over the slots from the last to the first: the hash that is left over
  when no slot is empty, and the slots.\<close>

fun push_slots :: "('a \<Rightarrow> 'a \<Rightarrow> 'a) \<Rightarrow> 'a \<Rightarrow> 'a option list \<Rightarrow> 'a option \<times> 'a option list" where
  "push_slots hash_concat h1 [] = (Some h1, [])"
| "push_slots hash_concat h1 (None # ms) = (None, Some h1 # ms)"
| "push_slots hash_concat h1 (Some h0 # ms) =
     (let (left, ms') = push_slots hash_concat (hash_concat h0 h1) ms in (left, None # ms'))"

definition progressive_push :: "'a \<Rightarrow> 'a progressive_merkle_tree \<Rightarrow> 'a progressive_merkle_tree" where
  "progressive_push x t =
     (let (left, ms) = push_slots (p_hash_concat t) x (rev (leaves t))
      in case left of
           Some h1 \<Rightarrow> t\<lparr>leaves := (rev ms @ [None])[0 := Some h1]\<rparr>
         | None \<Rightarrow> t\<lparr>leaves := rev ms\<rparr>)"

fun root_fold :: "('a \<Rightarrow> 'a \<Rightarrow> 'a) \<Rightarrow> 'a option \<Rightarrow> 'a option list \<Rightarrow> 'a option" where
  "root_fold hash_concat h1 [] = h1"
| "root_fold hash_concat h1 (h0 # ms) =
     root_fold hash_concat
       (case h1 of
          None \<Rightarrow> h0
        | Some y \<Rightarrow> (case h0 of None \<Rightarrow> h1 | Some x \<Rightarrow> Some (hash_concat x y))) ms"

definition progressive_root :: "'a progressive_merkle_tree \<Rightarrow> 'a" where
  "progressive_root t =
     (case root_fold (p_hash_concat t) None (rev (leaves t)) of Some h \<Rightarrow> h | None \<Rightarrow> p_empty_hash t)"

subsection \<open>The full tree\<close>

record 'a full_merkle_tree =
  nodes :: "'a list list"
  f_hash_concat :: "'a \<Rightarrow> 'a \<Rightarrow> 'a"
  f_empty_hash :: 'a

fun next_layer :: "('a \<Rightarrow> 'a \<Rightarrow> 'a) \<Rightarrow> 'a list \<Rightarrow> 'a list" where
  "next_layer hash_concat [] = []"
| "next_layer hash_concat [hash] = [hash]"
| "next_layer hash_concat (left # right # hs) = hash_concat left right # next_layer hash_concat hs"

lemma length_next_layer: "length (next_layer hc xs) = (length xs + 1) div 2"
  by (induction hc xs rule: next_layer.induct) simp_all

function build_layers :: "('a \<Rightarrow> 'a \<Rightarrow> 'a) \<Rightarrow> 'a list \<Rightarrow> 'a list list" where
  "build_layers hash_concat layer =
     (if length layer > 1 then layer # build_layers hash_concat (next_layer hash_concat layer) else [layer])"
  by pat_completeness auto
termination
  by (relation "measure (\<lambda>(_, xs). length xs)") (auto simp: length_next_layer)

declare build_layers.simps [simp del]

definition full_build :: "'a list \<Rightarrow> ('a \<Rightarrow> 'a \<Rightarrow> 'a) \<Rightarrow> 'a list list" where
  "full_build ls hash_concat = (if ls = [] then [] else build_layers hash_concat ls)"

definition full_new :: "'a list \<Rightarrow> ('a \<Rightarrow> 'a \<Rightarrow> 'a) \<Rightarrow> 'a \<Rightarrow> 'a full_merkle_tree" where
  "full_new ls hash_concat empty_hash =
     \<lparr>nodes = full_build ls hash_concat, f_hash_concat = hash_concat, f_empty_hash = empty_hash\<rparr>"

definition full_sha256 :: "(u8 list \<Rightarrow> hash) \<Rightarrow> hash \<Rightarrow> hash list \<Rightarrow> hash full_merkle_tree" where
  "full_sha256 sha256 EMPTY_SHA256 ls = full_new ls (sha256_concat sha256) EMPTY_SHA256"

definition full_root :: "'a full_merkle_tree \<Rightarrow> 'a" where
  "full_root t = (if nodes t = [] then f_empty_hash t else hd (last (nodes t)))"

subsection \<open>Inclusion proofs\<close>

record 'a inclusion_proof =
  proof_index :: nat
  proof_lemma :: "'a list"
  i_hash_concat :: "'a \<Rightarrow> 'a \<Rightarrow> 'a"

fun proof_loop :: "nat \<Rightarrow> 'a list list \<Rightarrow> 'a list \<Rightarrow> nat \<Rightarrow> nat \<times> 'a list" where
  "proof_loop i [] v pidx = (pidx, v)"
| "proof_loop i (layer # layers) v pidx =
     (let (v', pidx') =
            (if i XOR 1 < length layer
             then (v @ [layer ! (i XOR 1)], pidx OR push_bit (length v) (i AND 1))
             else (v, pidx))
      in proof_loop (drop_bit 1 i) layers v' pidx')"

definition inclusion_proof :: "'a full_merkle_tree \<Rightarrow> nat \<Rightarrow> 'a inclusion_proof option" where
  "inclusion_proof t index =
     (if nodes t = [] \<or> index \<ge> length (hd (nodes t)) then None
      else
        let (pidx, v) = proof_loop index (nodes t) [] 0
        in Some \<lparr>proof_index = pidx, proof_lemma = v, i_hash_concat = f_hash_concat t\<rparr>)"

fun proof_root_from :: "('a \<Rightarrow> 'a \<Rightarrow> 'a) \<Rightarrow> nat \<Rightarrow> nat \<Rightarrow> 'a list \<Rightarrow> 'a \<Rightarrow> 'a" where
  "proof_root_from hash_concat index level [] elem = elem"
| "proof_root_from hash_concat index level (h # hs) elem =
     proof_root_from hash_concat index (Suc level) hs
       (if drop_bit level index AND 1 = 1 then hash_concat h elem else hash_concat elem h)"

definition proof_root :: "'a inclusion_proof \<Rightarrow> 'a \<Rightarrow> 'a" where
  "proof_root p element = proof_root_from (i_hash_concat p) (proof_index p) 0 (proof_lemma p) element"

definition proof_verify :: "'a inclusion_proof \<Rightarrow> 'a \<Rightarrow> 'a \<Rightarrow> bool" where
  "proof_verify p element root \<longleftrightarrow> proof_root p element = root"

subsection \<open>Inclusion of transactions\<close>

record tx_inclusion_proof =
  tx_index :: nat
  tx_lemma :: "hash list"

text \<open>\<^const>\<open>None\<close> stands for the panic on an index out of bounds.\<close>

definition new_with_hashes ::
  "(u8 list \<Rightarrow> hash) \<Rightarrow> hash \<Rightarrow> nat \<Rightarrow> hash list \<Rightarrow> tx_inclusion_proof option"
where
  "new_with_hashes sha256 EMPTY_SHA256 index ls =
     map_option (\<lambda>p. \<lparr>tx_index = proof_index p, tx_lemma = proof_lemma p\<rparr>)
       (inclusion_proof (full_sha256 sha256 EMPTY_SHA256 ls) index)"

definition add_leave :: "hash \<Rightarrow> tx_inclusion_proof \<Rightarrow> tx_inclusion_proof" where
  "add_leave leave p = \<lparr>tx_index = push_bit 1 (tx_index p), tx_lemma = leave # tx_lemma p\<rparr>"

definition concat_proofs :: "tx_inclusion_proof \<Rightarrow> tx_inclusion_proof \<Rightarrow> tx_inclusion_proof" where
  "concat_proofs p second_poi =
     \<lparr>tx_index = tx_index p OR push_bit (length (tx_lemma p)) (tx_index second_poi),
      tx_lemma = tx_lemma p @ tx_lemma second_poi\<rparr>"

text \<open>The proof that a data request or a tally is in a block, given the transactions of that kind in
  the block; the outer option says whether it is there.\<close>

definition proof_of_inclusion ::
  "(u8 list \<Rightarrow> hash) \<Rightarrow> hash \<Rightarrow> ('t \<Rightarrow> hash) \<Rightarrow> 't list \<Rightarrow> 't \<Rightarrow> tx_inclusion_proof option option"
where
  "proof_of_inclusion sha256 EMPTY_SHA256 tx_hash txs tx =
     map_option (\<lambda>i. new_with_hashes sha256 EMPTY_SHA256 i (map tx_hash txs)) (position (\<lambda>x. x = tx) txs)"

definition data_proof_of_inclusion ::
  "(u8 list \<Rightarrow> hash) \<Rightarrow> hash \<Rightarrow> ('t \<Rightarrow> hash) \<Rightarrow> ('t \<Rightarrow> hash) \<Rightarrow> 't list \<Rightarrow> 't \<Rightarrow> tx_inclusion_proof option option"
where
  "data_proof_of_inclusion sha256 EMPTY_SHA256 tx_hash rest_poi_hash txs tx =
     map_option (map_option (add_leave (rest_poi_hash tx)))
       (proof_of_inclusion sha256 EMPTY_SHA256 tx_hash txs tx)"

section \<open>Properties\<close>

subsection \<open>The three trees have the same root\<close>

text \<open>The root of a non-empty list of hashes.\<close>

definition mroot :: "('a \<Rightarrow> 'a \<Rightarrow> 'a) \<Rightarrow> 'a list \<Rightarrow> 'a" where
  "mroot hc xs = the (merkle_tree_root_with_hashing_function hc xs)"

lemma split_point_2: "split_point (Suc (Suc 0)) = Suc 0"
  by (simp add: split_point_def next_power_of_two_def next_power_from.simps)

lemma merkle_some: "xs \<noteq> [] \<Longrightarrow> merkle_tree_root_with_hashing_function hc xs = Some (mroot hc xs)"
proof (induction hc xs rule: merkle_tree_root_with_hashing_function.induct)
  case (1 hc xs)
  show ?case
  proof (cases "3 \<le> length xs")
    case True
    then obtain x y z ws where xs: "xs = x # y # z # ws"
      by (metis (no_types, opaque_lifting) One_nat_def Suc_le_length_iff numeral_3_eq_3)
    have "take (split_point (length xs)) xs \<noteq> []" "drop (split_point (length xs)) xs \<noteq> []"
      using split_point_less [OF True] True by auto
    then have "merkle_tree_root_with_hashing_function hc xs \<noteq> None"
      using "1.IH" xs by (subst merkle_tree_root_with_hashing_function.simps) (simp add: Let_def)
    then show ?thesis by (simp add: mroot_def)
  next
    case False
    moreover have "length xs \<noteq> 0" using "1.prems" by simp
    ultimately consider "length xs = 1" | "length xs = 2" by linarith
    then show ?thesis
      by cases (auto simp: mroot_def merkle_tree_root_with_hashing_function.simps length_Suc_conv numeral_2_eq_2)
  qed
qed

lemma mroot_single [simp]: "mroot hc [x] = x"
  by (simp add: mroot_def merkle_tree_root_with_hashing_function.simps)

lemma mroot_pair [simp]: "mroot hc [x, y] = hc x y"
  by (simp add: mroot_def merkle_tree_root_with_hashing_function.simps)

lemma mroot_split:
  assumes "2 \<le> length xs"
  shows "mroot hc xs =
     hc (mroot hc (take (split_point (length xs)) xs)) (mroot hc (drop (split_point (length xs)) xs))"
proof (cases "length xs = 2")
  case True
  then obtain x y where "xs = [x, y]" by (auto simp: length_Suc_conv numeral_2_eq_2)
  then show ?thesis
    by (simp add: split_point_2)
next
  case False
  then have three: "3 \<le> length xs" using assms by simp
  then obtain x y z ws where xs: "xs = x # y # z # ws"
    by (metis (no_types, opaque_lifting) One_nat_def Suc_le_length_iff numeral_3_eq_3)
  let ?p = "split_point (length xs)"
  have ne: "take ?p xs \<noteq> []" "drop ?p xs \<noteq> []" using split_point_less [OF three] three by auto
  have "merkle_tree_root_with_hashing_function hc xs =
      Some (hc (mroot hc (take ?p xs)) (mroot hc (drop ?p xs)))"
    using merkle_some [OF ne(1), of hc] merkle_some [OF ne(2), of hc] xs
    by (subst merkle_tree_root_with_hashing_function.simps) (simp add: Let_def)
  then show ?thesis by (simp add: mroot_def)
qed

lemma power_of_two_unique:
  assumes "n \<noteq> 0" and "n \<le> 2 ^ j" and "j > 0 \<longrightarrow> 2 ^ (j - 1) < n"
  shows "next_power_of_two n = 2 ^ j"
proof -
  obtain i where i: "next_power_of_two n = 2 ^ i" "n \<le> 2 ^ i" "i > 0 \<longrightarrow> 2 ^ (i - 1) < n"
    using next_power_of_two_props [OF assms(1)] by blast
  have "\<not> i < j"
  proof
    assume "i < j"
    then have "(2 :: nat) ^ i \<le> 2 ^ (j - 1)" by (intro power_increasing) simp_all
    moreover have "2 ^ (j - 1) < n" using assms(3) \<open>i < j\<close> by simp
    ultimately show False using i(2) by linarith
  qed
  moreover have "\<not> j < i"
  proof
    assume "j < i"
    then have "(2 :: nat) ^ j \<le> 2 ^ (i - 1)" by (intro power_increasing) simp_all
    moreover have "2 ^ (i - 1) < n" using i(3) \<open>j < i\<close> by simp
    ultimately show False using assms(2) by linarith
  qed
  ultimately show ?thesis using i(1) by simp
qed

text \<open>A full left half and a shorter right part.\<close>

lemma mroot_append:
  assumes "length xs = 2 ^ k" and "ys \<noteq> []" and "length ys \<le> 2 ^ k"
  shows "mroot hc (xs @ ys) = hc (mroot hc xs) (mroot hc ys)"
proof -
  let ?n = "length (xs @ ys)"
  have n: "2 \<le> ?n" "?n \<le> 2 * 2 ^ k" "2 ^ k < ?n" using assms by (cases ys, simp, simp)+
  have "split_point ?n = 2 ^ k"
    unfolding split_point_def
  proof (rule power_of_two_unique)
    show "(?n + 1) div 2 \<noteq> 0" "(?n + 1) div 2 \<le> 2 ^ k" using n by simp_all
    show "k > 0 \<longrightarrow> 2 ^ (k - 1) < (?n + 1) div 2" using n(3) by (cases k) auto
  qed
  then show ?thesis using mroot_split [OF n(1)] assms(1) by simp
qed

text \<open>The slots of the progressive tree, from the last: slot \<^term>\<open>k\<close> holds the root of \<^term>\<open>2 ^ k\<close> leaves.\<close>

fun slots_repr :: "('a \<Rightarrow> 'a \<Rightarrow> 'a) \<Rightarrow> nat \<Rightarrow> 'a option list \<Rightarrow> 'a list \<Rightarrow> bool" where
  "slots_repr hc k [] xs \<longleftrightarrow> xs = []"
| "slots_repr hc k (None # ms) xs \<longleftrightarrow> slots_repr hc (Suc k) ms xs"
| "slots_repr hc k (Some h # ms) xs \<longleftrightarrow>
     (\<exists>ys zs. xs = ys @ zs \<and> length zs = 2 ^ k \<and> h = mroot hc zs \<and> slots_repr hc (Suc k) ms ys)"

lemma slots_repr_empty: "slots_repr hc k (replicate n None) []"
  by (induction n arbitrary: k) simp_all

lemma push_slots_repr:
  assumes "slots_repr hc k ms xs" and "length zs = 2 ^ k"
    and "push_slots hc (mroot hc zs) ms = (left, ms')"
  shows "case left of
      None \<Rightarrow> slots_repr hc k ms' (xs @ zs)
    | Some r \<Rightarrow> r = mroot hc (xs @ zs) \<and> ms' = replicate (length ms) None \<and> length (xs @ zs) = 2 ^ (k + length ms)"
  using assms
proof (induction ms arbitrary: k xs zs left ms')
  case Nil
  then show ?case by auto
next
  case (Cons m ms)
  show ?case
  proof (cases m)
    case None
    then have "left = None" "ms' = Some (mroot hc zs) # ms" using Cons.prems(3) by auto
    moreover have "slots_repr hc k (Some (mroot hc zs) # ms) (xs @ zs)"
      using Cons.prems(1,2) None unfolding slots_repr.simps by (intro exI [of _ xs] exI [of _ zs]) simp
    ultimately show ?thesis by simp
  next
    case (Some h)
    then obtain ys ws where xs: "xs = ys @ ws" "length ws = 2 ^ k" "h = mroot hc ws" "slots_repr hc (Suc k) ms ys"
      using Cons.prems(1) by auto
    have "zs \<noteq> []" using Cons.prems(2) by auto
    then have root: "hc h (mroot hc zs) = mroot hc (ws @ zs)"
      using mroot_append [of ws k zs hc] xs(2,3) Cons.prems(2) by simp
    obtain l' where l': "push_slots hc (mroot hc (ws @ zs)) ms = (left, l')" "ms' = None # l'"
      using Cons.prems(3) Some root by (auto split: prod.splits)
    have "length (ws @ zs) = 2 ^ Suc k" using xs(2) Cons.prems(2) by simp
    from Cons.IH [OF xs(4) this l'(1)] show ?thesis
      by (auto simp: xs(1) l'(2) split: option.splits)
  qed
qed

lemma root_fold_repr:
  assumes "slots_repr hc k ms xs" and "length ws < 2 ^ k"
    and "acc = (if ws = [] then None else Some (mroot hc ws))"
  shows "root_fold hc acc ms = (if xs @ ws = [] then None else Some (mroot hc (xs @ ws)))"
  using assms
proof (induction ms arbitrary: k xs ws acc)
  case Nil
  then show ?case by simp
next
  case (Cons m ms)
  show ?case
  proof (cases m)
    case None
    then have "root_fold hc acc ms = (if xs @ ws = [] then None else Some (mroot hc (xs @ ws)))"
      using Cons.prems by (intro Cons.IH [of "Suc k"]) auto
    then show ?thesis using None Cons.prems(3) by (auto split: option.split)
  next
    case (Some h)
    then obtain ys zs where xs: "xs = ys @ zs" "length zs = 2 ^ k" "h = mroot hc zs" "slots_repr hc (Suc k) ms ys"
      using Cons.prems(1) by auto
    have ne: "zs \<noteq> []" using xs(2) by auto
    have "ws \<noteq> [] \<Longrightarrow> hc h (mroot hc ws) = mroot hc (zs @ ws)"
      using mroot_append [of zs k ws hc] xs(2,3) Cons.prems(2) by simp
    then have "root_fold hc acc (m # ms) = root_fold hc (Some (mroot hc (zs @ ws))) ms"
      using Some xs(3) Cons.prems(3) by simp
    also have "\<dots> = Some (mroot hc (ys @ zs @ ws))"
      using Cons.IH [OF xs(4), of "zs @ ws" "Some (mroot hc (zs @ ws))"] xs(2) Cons.prems(2) ne by simp
    finally show ?thesis using ne by (simp add: xs(1))
  qed
qed

lemma progressive_push_repr:
  assumes "slots_repr (p_hash_concat t) 0 (rev (leaves t)) xs"
  shows "slots_repr (p_hash_concat (progressive_push x t)) 0 (rev (leaves (progressive_push x t))) (xs @ [x])"
    and "p_hash_concat (progressive_push x t) = p_hash_concat t"
    and "p_empty_hash (progressive_push x t) = p_empty_hash t"
proof -
  obtain left ms where run: "push_slots (p_hash_concat t) x (rev (leaves t)) = (left, ms)" by fastforce
  note push = push_slots_repr [OF assms, of "[x]" left ms, simplified, OF run]
  have full: "slots_repr hc k (replicate n None @ [Some r]) zs"
    if "r = mroot hc zs" "length zs = 2 ^ (k + n)" for hc :: "'a \<Rightarrow> 'a \<Rightarrow> 'a" and k n r zs
    using that by (induction n arbitrary: k) (auto intro: exI [of _ "[]"])
  show "p_hash_concat (progressive_push x t) = p_hash_concat t"
    "p_empty_hash (progressive_push x t) = p_empty_hash t"
    using run by (simp_all add: progressive_push_def split: option.split)
  show "slots_repr (p_hash_concat (progressive_push x t)) 0 (rev (leaves (progressive_push x t))) (xs @ [x])"
  proof (cases left)
    case None
    then show ?thesis using push run by (simp add: progressive_push_def)
  next
    case (Some r)
    have upd: "rev ((replicate n None @ [None])[0 := Some h]) = replicate n None @ [Some h]" for n and h :: 'a
      by (simp add: replicate_append_same)
    show ?thesis
      using push run Some full [of r "p_hash_concat t" "xs @ [x]" 0 "length (leaves t)"]
      by (simp add: progressive_push_def upd)
  qed
qed

lemma progressive_fold_repr:
  fixes sha256 EMPTY_SHA256 xs
  defines "t \<equiv> fold progressive_push xs (progressive_sha256 sha256 EMPTY_SHA256)"
  shows "slots_repr (sha256_concat sha256) 0 (rev (leaves t)) xs \<and> p_hash_concat t = sha256_concat sha256
     \<and> p_empty_hash t = EMPTY_SHA256"
  unfolding t_def
proof (induction xs rule: rev_induct)
  case Nil
  then show ?case by (simp add: progressive_sha256_def)
next
  case (snoc x xs)
  let ?t = "fold progressive_push xs (progressive_sha256 sha256 EMPTY_SHA256)"
  show ?case using snoc progressive_push_repr [of ?t xs x] by simp
qed

lemma even_next_layer_append:
  "even (length xs) \<Longrightarrow> next_layer hc (xs @ ys) = next_layer hc xs @ next_layer hc ys"
  by (induction hc xs rule: next_layer.induct) simp_all

lemma next_power_of_two_half:
  assumes "2 \<le> m"
  shows "next_power_of_two m = 2 * next_power_of_two ((m + 1) div 2)"
proof -
  obtain j where j: "next_power_of_two m = 2 ^ j" "m \<le> 2 ^ j" "j > 0 \<longrightarrow> 2 ^ (j - 1) < m"
    using next_power_of_two_props [of m] assms by auto
  obtain i where i: "j = Suc i" using j(2) assms by (cases j) auto
  have "next_power_of_two ((m + 1) div 2) = 2 ^ i"
  proof (rule power_of_two_unique)
    show "(m + 1) div 2 \<noteq> 0" "(m + 1) div 2 \<le> 2 ^ i" using assms j(2) by (simp_all add: i)
    show "i > 0 \<longrightarrow> 2 ^ (i - 1) < (m + 1) div 2" using j(3) by (cases i) (simp_all add: i)
  qed
  then show ?thesis using j(1) i by simp
qed

text \<open>Hashing a layer in pairs keeps the root.\<close>

lemma mroot_next_layer: "2 \<le> length xs \<Longrightarrow> mroot hc (next_layer hc xs) = mroot hc xs"
proof (induction "length xs" arbitrary: xs rule: less_induct)
  case less
  show ?case
  proof (cases "length xs = 2")
    case True
    then obtain x y where "xs = [x, y]" by (auto simp: length_Suc_conv numeral_2_eq_2)
    then show ?thesis by simp
  next
    case False
    then have three: "3 \<le> length xs" using less.prems by simp
    define p where "p = split_point (length xs)"
    define q where "q = split_point (length (next_layer hc xs))"
    have m: "2 \<le> (length xs + 1) div 2" using three by simp
    have pq: "p = 2 * q"
      using next_power_of_two_half [OF m] by (simp add: p_def q_def split_point_def length_next_layer)
    have p: "p < length xs" "0 < p" using split_point_less [OF three] by (simp_all add: p_def)
    define l r where "l = take p xs" and "r = drop p xs"
    have len: "length l = p" "r \<noteq> []" "length l < length xs" "length r < length xs" "2 \<le> length l"
      using p pq by (auto simp: l_def r_def)
    have nl: "next_layer hc xs = next_layer hc l @ next_layer hc r"
      using even_next_layer_append [of l hc r] len(1) pq by (simp add: l_def r_def)
    have "length (next_layer hc l) = q" by (simp add: length_next_layer len(1) pq)
    then have halves: "take q (next_layer hc xs) = next_layer hc l" "drop q (next_layer hc xs) = next_layer hc r"
      by (simp_all add: nl)
    have "mroot hc (next_layer hc xs) = hc (mroot hc (next_layer hc l)) (mroot hc (next_layer hc r))"
      using mroot_split [of "next_layer hc xs" hc, folded q_def, unfolded halves] m by (simp add: length_next_layer)
    also have "mroot hc (next_layer hc l) = mroot hc l"
      using less.hyps [OF len(3,5)] .
    also have "mroot hc (next_layer hc r) = mroot hc r"
    proof (cases "2 \<le> length r")
      case True
      then show ?thesis using less.hyps [OF len(4)] by simp
    next
      case False
      then obtain x where "r = [x]" using len(2) by (cases r) (auto simp: Suc_le_eq)
      then show ?thesis by simp
    qed
    finally show ?thesis
      using mroot_split [of xs hc] three by (simp add: l_def r_def p_def)
  qed
qed

lemma build_layers_last: "xs \<noteq> [] \<Longrightarrow> last (build_layers hc xs) = [mroot hc xs] \<and> build_layers hc xs \<noteq> []"
proof (induction hc xs rule: build_layers.induct)
  case (1 hc xs)
  show ?case
  proof (cases "length xs > 1")
    case True
    then have "next_layer hc xs \<noteq> []" using length_next_layer [of hc xs] by auto
    then show ?thesis
      using "1.IH" [OF True] True mroot_next_layer [of xs hc] by (subst (1 2) build_layers.simps) simp
  next
    case False
    then obtain x where "xs = [x]" using "1.prems" by (cases xs) auto
    then show ?thesis by (simp add: build_layers.simps)
  qed
qed

text \<open>Claim C7: the three implementations of the Merkle root agree. For every list of hashes and
  every hash function, the root that a miner computes over the slice of transactions, the root of
  the progressive tree that validation fills one transaction at a time, and the root of the full
  tree that inclusion proofs are taken from are the same, also for the empty list.\<close>

theorem merkle_roots_agree:
  "merkle_tree_root sha256 EMPTY_SHA256 xs = Some (full_root (full_sha256 sha256 EMPTY_SHA256 xs))
   \<and> progressive_root (fold progressive_push xs (progressive_sha256 sha256 EMPTY_SHA256))
       = full_root (full_sha256 sha256 EMPTY_SHA256 xs)"
proof -
  let ?hc = "sha256_concat sha256"
  have full: "full_root (full_sha256 sha256 EMPTY_SHA256 xs) = (if xs = [] then EMPTY_SHA256 else mroot ?hc xs)"
    using build_layers_last [of xs ?hc]
    by (simp add: full_root_def full_sha256_def full_new_def full_build_def)
  have "progressive_root (fold progressive_push xs (progressive_sha256 sha256 EMPTY_SHA256)) =
      (if xs = [] then EMPTY_SHA256 else mroot ?hc xs)"
    using root_fold_repr [of ?hc 0 _ xs "[]" None] progressive_fold_repr [of sha256 xs EMPTY_SHA256]
    by (auto simp: progressive_root_def progressive_sha256_def)
  then show ?thesis by (simp add: full merkle_tree_root_def merkle_some)
qed

subsection \<open>Inclusion proofs\<close>

text \<open>The proof of a leaf, layer by layer.\<close>

fun proof_rec :: "nat \<Rightarrow> 'a list list \<Rightarrow> nat \<times> 'a list" where
  "proof_rec i [] = (0, [])"
| "proof_rec i (layer # layers) =
     (let (idx, lem) = proof_rec (i div 2) layers
      in if i XOR 1 < length layer then (i mod 2 + 2 * idx, layer ! (i XOR 1) # lem) else (idx, lem))"

lemma or_shifted:
  fixes a b :: nat
  assumes "a < 2 ^ n"
  shows "a OR push_bit n b = a + 2 ^ n * b"
proof -
  have "\<not> bit a m" if "n \<le> m" for m
  proof -
    have "a < 2 ^ m" using assms that by (meson less_le_trans one_le_numeral power_increasing)
    then show ?thesis by (simp add: bit_iff_odd)
  qed
  then have "a AND push_bit n b = 0"
    by (intro bit_eqI) (auto simp: bit_and_iff bit_push_bit_iff)
  then show ?thesis by (simp add: push_bit_eq_mult flip: disjunctive_add_eq_or)
qed

lemma proof_loop_rec:
  assumes "pidx < 2 ^ length v" and "proof_rec i layers = (idx, lem)"
  shows "proof_loop i layers v pidx = (pidx + 2 ^ length v * idx, v @ lem)"
  using assms
proof (induction layers arbitrary: i v pidx idx lem)
  case (Cons layer layers)
  obtain idx' lem' where rest: "proof_rec (i div 2) layers = (idx', lem')" by fastforce
  show ?case
  proof (cases "i XOR 1 < length layer")
    case True
    have "pidx OR push_bit (length v) (i AND 1) = pidx + 2 ^ length v * (i mod 2)"
      using or_shifted [OF Cons.prems(1)] by (simp add: and_one_eq)
    moreover have "pidx + 2 ^ length v * (i mod 2) < 2 ^ length (v @ [x])" for x
      using Cons.prems(1) by (cases "even i") (auto simp: mod_2_eq_odd)
    ultimately show ?thesis
      using Cons.IH [of "pidx + 2 ^ length v * (i mod 2)" "v @ [layer ! (i XOR 1)]", OF _ rest] True Cons.prems(2) rest
      by (auto simp: drop_bit_Suc algebra_simps)
  next
    case False
    then show ?thesis
      using Cons.IH [OF Cons.prems(1) rest] Cons.prems(2) rest by (simp add: drop_bit_Suc)
  qed
qed simp

lemma proof_root_shift:
  "proof_root_from hc idx (Suc level) hs e = proof_root_from hc (idx div 2) level hs e"
  by (induction hs arbitrary: level e) (simp_all add: drop_bit_Suc)

lemma proof_root_Cons:
  assumes "b < 2"
  shows "proof_root_from hc (b + 2 * idx) 0 (h # hs) e =
     proof_root_from hc idx 0 hs (if b = 1 then hc h e else hc e h)"
  using assms by (cases "b = 0") (auto simp: proof_root_shift and_one_eq)

lemma xor_one: "i XOR Suc 0 = (if even i then Suc i else i - 1)" for i :: nat
  by (simp add: xor_Suc_0_eq)

text \<open>The element of the next layer above a node.\<close>

lemma next_layer_nth:
  "i < length xs \<Longrightarrow> next_layer hc xs ! (i div 2) =
     (if i XOR 1 < length xs
      then (if odd i then hc (xs ! (i XOR 1)) (xs ! i) else hc (xs ! i) (xs ! (i XOR 1)))
      else xs ! i)"
proof (induction hc xs arbitrary: i rule: next_layer.induct)
  case (3 hc l r hs)
  consider "i = 0" | "i = 1" | j where "i = Suc (Suc j)" by (metis One_nat_def not0_implies_Suc)
  then show ?case
  proof cases
    case (3 j)
    have "Suc (Suc j) XOR Suc 0 = Suc (Suc (j XOR Suc 0))" by (auto simp: xor_one elim!: oddE)
    then show ?thesis using "3.IH" [of j] "3.prems" 3 by simp
  qed (simp_all add: xor_one)
qed (auto simp: xor_one)

lemma proof_rec_root:
  "i < length xs \<Longrightarrow> proof_rec i (build_layers hc xs) = (idx, lem) \<Longrightarrow>
     proof_root_from hc idx 0 lem (xs ! i) = mroot hc xs \<and> idx < 2 ^ length lem"
proof (induction hc xs arbitrary: i idx lem rule: build_layers.induct)
  case (1 hc xs)
  show ?case
  proof (cases "length xs > 1")
    case True
    let ?ys = "next_layer hc xs"
    obtain idx' lem' where rest: "proof_rec (i div 2) (build_layers hc ?ys) = (idx', lem')" by fastforce
    have "i div 2 < length ?ys" using "1.prems"(1) by (simp add: length_next_layer)
    then have up: "proof_root_from hc idx' 0 lem' (?ys ! (i div 2)) = mroot hc xs" "idx' < 2 ^ length lem'"
      using "1.IH" [OF True _ rest] mroot_next_layer [of xs hc] True by simp_all
    have layers: "build_layers hc xs = xs # build_layers hc ?ys" using True by (simp add: build_layers.simps)
    show ?thesis
    proof (cases "i XOR 1 < length xs")
      case sib: True
      then have "idx = i mod 2 + 2 * idx'" "lem = xs ! (i XOR 1) # lem'"
        using "1.prems"(2) rest by (auto simp: layers)
      then show ?thesis
        using up next_layer_nth [OF "1.prems"(1), of hc] sib
        by (auto simp: proof_root_shift mod_2_eq_odd)
    next
      case False
      then show ?thesis
        using up "1.prems"(2) rest next_layer_nth [OF "1.prems"(1), of hc] by (simp add: layers)
    qed
  next
    case False
    then obtain x where "xs = [x]" "i = 0" using "1.prems"(1) by (cases xs) auto
    then show ?thesis using "1.prems"(2) by (simp add: build_layers.simps)
  qed
qed

lemma inclusion_proof_Some:
  assumes "i < length xs"
  obtains p where "inclusion_proof (full_new xs hc eh) i = Some p" "i_hash_concat p = hc"
    "proof_root p (xs ! i) = mroot hc xs" "proof_index p < 2 ^ length (proof_lemma p)"
proof -
  obtain idx lem where rec: "proof_rec i (build_layers hc xs) = (idx, lem)" by fastforce
  have ne: "xs \<noteq> []" using assms by auto
  have "hd (build_layers hc xs) = xs" by (simp add: build_layers.simps)
  then have "inclusion_proof (full_new xs hc eh) i =
      Some \<lparr>proof_index = idx, proof_lemma = lem, i_hash_concat = hc\<rparr>"
    using assms ne proof_loop_rec [of 0 "[]", OF _ rec] build_layers_last [OF ne, of hc]
    by (simp add: inclusion_proof_def full_new_def full_build_def)
  then show thesis using that proof_rec_root [OF assms rec] by (simp add: proof_root_def)
qed

lemma full_root_mroot: "xs \<noteq> [] \<Longrightarrow> full_root (full_new xs hc eh) = mroot hc xs"
  using build_layers_last [of xs hc] by (simp add: full_root_def full_new_def full_build_def)

lemma proof_root_binding:
  assumes "\<And>a b c d. hc a b = hc c d \<Longrightarrow> a = c \<and> b = d" and "length hs = length hs'"
    and "proof_root_from hc idx level hs e = proof_root_from hc idx level hs' e'"
  shows "e = e' \<and> hs = hs'"
  using assms(2,3)
proof (induction hs hs' arbitrary: level e e' rule: list_induct2)
  case (Cons h hs h' hs')
  let ?left = "drop_bit level idx AND 1 = 1"
  have "(if ?left then hc h e else hc e h) = (if ?left then hc h' e' else hc e' h') \<and> hs = hs'"
    using Cons.prems by (intro Cons.IH) simp
  then show ?case using assms(1) [of h e h' e'] assms(1) [of e h e' h'] by (cases ?left) auto
qed simp

text \<open>Claim C8: an inclusion proof exists for every leaf, verifies against the root of the tree, and,
  when the function that hashes two nodes has no collisions, is binding: no other element and no
  other path of the same shape verifies against that root. Indexes out of bounds have no proof.\<close>

theorem inclusion_proof_correct:
  assumes "tree = full_new xs hc eh"
  shows "(i < length xs \<longrightarrow> (\<exists>p. inclusion_proof tree i = Some p \<and> proof_verify p (xs ! i) (full_root tree)
      \<and> ((\<forall>a b c d. hc a b = hc c d \<longrightarrow> a = c \<and> b = d) \<longrightarrow>
           (\<forall>e path. length path = length (proof_lemma p)
              \<and> proof_verify (p\<lparr>proof_lemma := path\<rparr>) e (full_root tree)
              \<longrightarrow> e = xs ! i \<and> path = proof_lemma p))))
    \<and> (length xs \<le> i \<longrightarrow> inclusion_proof tree i = None)"
proof (intro conjI impI)
  assume i: "i < length xs"
  obtain p where p: "inclusion_proof (full_new xs hc eh) i = Some p" "i_hash_concat p = hc"
    "proof_root p (xs ! i) = mroot hc xs" "proof_index p < 2 ^ length (proof_lemma p)"
    by (rule inclusion_proof_Some [OF i])
  have root: "full_root tree = mroot hc xs" using i full_root_mroot [of xs hc eh] by (cases xs) (auto simp: assms)
  show "\<exists>p. inclusion_proof tree i = Some p \<and> proof_verify p (xs ! i) (full_root tree)
      \<and> ((\<forall>a b c d. hc a b = hc c d \<longrightarrow> a = c \<and> b = d) \<longrightarrow>
           (\<forall>e path. length path = length (proof_lemma p)
              \<and> proof_verify (p\<lparr>proof_lemma := path\<rparr>) e (full_root tree)
              \<longrightarrow> e = xs ! i \<and> path = proof_lemma p))"
  proof (intro exI [of _ p] conjI [OF _ conjI] impI allI)
    show "inclusion_proof tree i = Some p" by (simp add: assms p(1))
    show "proof_verify p (xs ! i) (full_root tree)" using p(3) root by (simp add: proof_verify_def)
  next
    fix e path
    assume inj: "\<forall>a b c d. hc a b = hc c d \<longrightarrow> a = c \<and> b = d"
      and path: "length path = length (proof_lemma p) \<and> proof_verify (p\<lparr>proof_lemma := path\<rparr>) e (full_root tree)"
    show "e = xs ! i \<and> path = proof_lemma p"
    proof (rule proof_root_binding)
      show "proof_root_from hc (proof_index p) 0 path e = proof_root_from hc (proof_index p) 0 (proof_lemma p) (xs ! i)"
        using path p(2,3) root by (simp add: proof_verify_def proof_root_def)
    qed (use inj path in blast)+
  qed
next
  assume "length xs \<le> i"
  moreover have "hd (build_layers hc xs) = xs" by (simp add: build_layers.simps)
  ultimately show "inclusion_proof tree i = None"
    by (simp add: assms inclusion_proof_def full_new_def full_build_def)
qed

text \<open>A collision-free function on lists: the length of the first argument separates the two.\<close>

theorem inclusion_proof_correct_witness:
  "\<exists>p. inclusion_proof (full_new [[1], [2], [3 :: nat]] (\<lambda>a b. length a # a @ b) []) 2 = Some p
     \<and> proof_verify p [3] (full_root (full_new [[1], [2], [3]] (\<lambda>a b. length a # a @ b) []))
     \<and> \<not> proof_verify p [4] (full_root (full_new [[1], [2], [3]] (\<lambda>a b. length a # a @ b) []))"
proof -
  define hc :: "nat list \<Rightarrow> nat list \<Rightarrow> nat list" where "hc = (\<lambda>a b. length a # a @ b)"
  define tree where "tree = full_new [[1], [2], [3]] hc []"
  have inj: "\<forall>a b c d. hc a b = hc c d \<longrightarrow> a = c \<and> b = d" by (auto simp: hc_def)
  have "2 < length [[1], [2], [3 :: nat]]" by simp
  then obtain p where p: "inclusion_proof tree 2 = Some p" "proof_verify p ([[1], [2], [3]] ! 2) (full_root tree)"
    and bind: "\<forall>e path. length path = length (proof_lemma p) \<and> proof_verify (p\<lparr>proof_lemma := path\<rparr>) e (full_root tree)
              \<longrightarrow> e = [[1], [2], [3]] ! 2 \<and> path = proof_lemma p"
    using inclusion_proof_correct [OF tree_def, of 2] inj by blast
  have "\<not> proof_verify p [4] (full_root tree)"
    using bind [rule_format, of "proof_lemma p" "[4]"] by auto
  then show ?thesis using p unfolding tree_def hc_def by auto
qed

subsection \<open>Transactions in a block\<close>

lemma tx_proof_root_concat:
  assumes "tx_index p < 2 ^ length (tx_lemma p)"
  shows "proof_root_from hc (tx_index (concat_proofs p q)) 0 (tx_lemma (concat_proofs p q)) e =
     proof_root_from hc (tx_index q) 0 (tx_lemma q) (proof_root_from hc (tx_index p) 0 (tx_lemma p) e)"
proof -
  have "proof_root_from hc (i + 2 ^ length hs * j) 0 (hs @ hs') e =
      proof_root_from hc j 0 hs' (proof_root_from hc i 0 hs e)" if "i < 2 ^ length hs" for i j hs hs' e
    using that
  proof (induction hs arbitrary: i e)
    case (Cons h hs)
    define b i' where "b = i mod 2" and "i' = i div 2"
    have b: "b < 2" and i: "i = b + 2 * i'" by (simp_all add: b_def i'_def)
    have shifted: "i + 2 ^ length (h # hs) * j = b + 2 * (i' + 2 ^ length hs * j)" by (simp add: i)
    have "proof_root_from hc (i + 2 ^ length (h # hs) * j) 0 ((h # hs) @ hs') e =
        proof_root_from hc (i' + 2 ^ length hs * j) 0 (hs @ hs') (if b = 1 then hc h e else hc e h)"
      unfolding shifted append_Cons by (rule proof_root_Cons [OF b])
    also have "\<dots> = proof_root_from hc j 0 hs' (proof_root_from hc i' 0 hs (if b = 1 then hc h e else hc e h))"
      using Cons.prems i by (intro Cons.IH) simp
    also have "proof_root_from hc i' 0 hs (if b = 1 then hc h e else hc e h) = proof_root_from hc i 0 (h # hs) e"
      unfolding i by (rule proof_root_Cons [OF b, symmetric])
    finally show ?case .
  qed simp
  then show ?thesis
    using assms or_shifted [OF assms, of "tx_index q"] by (simp add: concat_proofs_def)
qed

text \<open>For a transaction of the block whose hash is the hash of its data part and its rest, the data
  proof of inclusion verifies the data part against the Merkle root of the block; extended with a
  proof for this root, it verifies the data part against what that proof verifies the root.\<close>

lemma data_proof_verifies:
  assumes "tx \<in> set txs" and "tx_hash tx = sha256_concat sha256 (data_poi_hash tx) (rest_poi_hash tx)"
  shows "\<exists>poi root. data_proof_of_inclusion sha256 EMPTY_SHA256 tx_hash rest_poi_hash txs tx = Some (Some poi)
     \<and> merkle_tree_root sha256 EMPTY_SHA256 (map tx_hash txs) = Some root
     \<and> proof_root \<lparr>proof_index = tx_index poi, proof_lemma = tx_lemma poi, i_hash_concat = sha256_concat sha256\<rparr>
         (data_poi_hash tx) = root
     \<and> (\<forall>block_poi. proof_root \<lparr>proof_index = tx_index (concat_proofs poi block_poi),
              proof_lemma = tx_lemma (concat_proofs poi block_poi), i_hash_concat = sha256_concat sha256\<rparr>
            (data_poi_hash tx)
          = proof_root \<lparr>proof_index = tx_index block_poi, proof_lemma = tx_lemma block_poi,
              i_hash_concat = sha256_concat sha256\<rparr> root)"
proof -
  let ?hc = "sha256_concat sha256" and ?hs = "map tx_hash txs"
  obtain i where i: "position (\<lambda>x. x = tx) txs = Some i"
    using position_None [of "\<lambda>x. x = tx" txs] assms(1) by (cases "position (\<lambda>x. x = tx) txs") auto
  then have it: "i < length ?hs" "txs ! i = tx" using position_Some by fastforce+
  obtain p where p: "inclusion_proof (full_new ?hs ?hc EMPTY_SHA256) i = Some p" "i_hash_concat p = ?hc"
    "proof_root p (?hs ! i) = mroot ?hc ?hs" "proof_index p < 2 ^ length (proof_lemma p)"
    by (rule inclusion_proof_Some [OF it(1)])
  define poi where "poi = add_leave (rest_poi_hash tx) \<lparr>tx_index = proof_index p, tx_lemma = proof_lemma p\<rparr>"
  have poi: "tx_index poi = 0 + 2 * proof_index p" "tx_lemma poi = rest_poi_hash tx # proof_lemma p"
    by (simp_all add: poi_def add_leave_def push_bit_Suc)
  have "data_proof_of_inclusion sha256 EMPTY_SHA256 tx_hash rest_poi_hash txs tx = Some (Some poi)"
    by (simp add: data_proof_of_inclusion_def proof_of_inclusion_def i new_with_hashes_def full_sha256_def p(1) poi_def)
  moreover have "merkle_tree_root sha256 EMPTY_SHA256 ?hs = Some (mroot ?hc ?hs)"
    using it(1) merkle_some [of ?hs ?hc] by (auto simp: merkle_tree_root_def)
  moreover have root: "proof_root_from ?hc (tx_index poi) 0 (tx_lemma poi) (data_poi_hash tx) = mroot ?hc ?hs"
    using p(2,3) it assms(2) unfolding poi by (subst proof_root_Cons) (simp_all add: proof_root_def)
  moreover have "tx_index poi < 2 ^ length (tx_lemma poi)" using p(4) by (simp add: poi)
  ultimately show ?thesis
    using tx_proof_root_concat [of poi ?hc _ "data_poi_hash tx"] by (simp add: proof_root_def)
qed

end
