(* ===== verification/Block.thy ===== *)
theory Block
  imports Merkle Data_Request
begin

text \<open>
  Blocks (data_structures/src/chain/mod.rs): headers, the lists of transactions by kind, the Merkle
  roots of the header, weights, and the pointers under which the transactions of a block are stored
  in the database, and the hashes of transactions (transaction.rs, proto/versioning.rs). The protobuf
  encoders are generated code; they are the fields of the argument \<open>pb\<close>.
\<close>

section \<open>Data\<close>

record checkpoint_beacon =
  checkpoint :: epoch
  hash_prev_block :: hash

record block_merkle_roots =
  mint_hash :: hash
  vt_hash_merkle_root :: hash
  dr_hash_merkle_root :: hash
  commit_hash_merkle_root :: hash
  reveal_hash_merkle_root :: hash
  tally_hash_merkle_root :: hash
  stake_hash_merkle_root :: hash
  unstake_hash_merkle_root :: hash

text \<open>The claim of eligibility is kept as its VRF proof and public key.\<close>

record eligibility_claim =
  vrf_proof :: "u8 list"
  vrf_public_key :: "u8 list"

record block_header =
  signals :: u32
  beacon :: checkpoint_beacon
  merkle_roots :: block_merkle_roots
  eligibility :: eligibility_claim
  bn256_public_key :: "u8 list option"

record block_transactions =
  mint :: mint_transaction
  value_transfer_txns :: "vt_transaction list"
  data_request_txns :: "dr_transaction list"
  commit_txns :: "commit_transaction list"
  reveal_txns :: "reveal_transaction list"
  tally_txns :: "tally_transaction list"
  stake_txns :: "stake_tx list"
  unstake_txns :: "unstake_tx list"

record block =
  header :: block_header
  block_sig :: keyed_signature
  txns :: block_transactions

datatype transaction_pointer =
    PValueTransfer u32
  | PDataRequest u32
  | PCommit u32
  | PReveal u32
  | PTally u32
  | PMint
  | PStake u32
  | PUnstake u32

record pointer_to_block =
  block_hash :: hash
  transaction_index :: transaction_pointer

section \<open>Hashes of transactions\<close>

text \<open>The encoders of the bodies are applied to the transaction without its signatures.\<close>

record pb_codec =
  pb_vt_body :: "vt_transaction \<Rightarrow> u8 list"
  pb_dr_output :: "data_request_output \<Rightarrow> u8 list"
  pb_dr_body :: "dr_transaction \<Rightarrow> u8 list"
  pb_commit_body :: "commit_transaction \<Rightarrow> u8 list"
  pb_reveal_body :: "reveal_transaction \<Rightarrow> u8 list"
  pb_tally :: "tally_transaction \<Rightarrow> u8 list"
  pb_mint :: "mint_transaction \<Rightarrow> u8 list"
  pb_stake_body :: "stake_tx \<Rightarrow> u8 list"
  pb_unstake_body :: "unstake_tx \<Rightarrow> u8 list"
  pb_header :: "protocol_version \<Rightarrow> block_header \<Rightarrow> u8 list"

definition dr_data_poi_hash :: "(u8 list \<Rightarrow> hash) \<Rightarrow> pb_codec \<Rightarrow> dr_transaction \<Rightarrow> hash" where
  "dr_data_poi_hash sha256 pb t = sha256 (pb_dr_output pb (dr_output t))"

definition dr_rest_poi_hash :: "(u8 list \<Rightarrow> hash) \<Rightarrow> pb_codec \<Rightarrow> dr_transaction \<Rightarrow> hash" where
  "dr_rest_poi_hash sha256 pb t = sha256 (pb_dr_body pb (t\<lparr>dr_signatures := []\<rparr>))"

definition tally_data_poi_hash :: "(u8 list \<Rightarrow> hash) \<Rightarrow> tally_transaction \<Rightarrow> hash" where
  "tally_data_poi_hash sha256 t = sha256 (tally_dr_pointer t @ tally_bytes t)"

definition tally_rest_poi_hash :: "(u8 list \<Rightarrow> hash) \<Rightarrow> pb_codec \<Rightarrow> tally_transaction \<Rightarrow> hash" where
  "tally_rest_poi_hash sha256 pb t = sha256 (pb_tally pb t)"

fun hashable_bytes :: "(u8 list \<Rightarrow> hash) \<Rightarrow> pb_codec \<Rightarrow> transaction \<Rightarrow> u8 list" where
  "hashable_bytes sha256 pb (ValueTransfer t) = pb_vt_body pb (t\<lparr>vt_signatures := []\<rparr>)"
| "hashable_bytes sha256 pb (DataRequest t) = dr_data_poi_hash sha256 pb t @ dr_rest_poi_hash sha256 pb t"
| "hashable_bytes sha256 pb (Commit t) = pb_commit_body pb (t\<lparr>commit_signatures := []\<rparr>)"
| "hashable_bytes sha256 pb (Reveal t) = pb_reveal_body pb (t\<lparr>reveal_signatures := []\<rparr>)"
| "hashable_bytes sha256 pb (Tally t) = tally_data_poi_hash sha256 t @ tally_rest_poi_hash sha256 pb t"
| "hashable_bytes sha256 pb (Mint t) = pb_mint pb t"
| "hashable_bytes sha256 pb (Stake t) = pb_stake_body pb (t\<lparr>st_signatures := []\<rparr>)"
| "hashable_bytes sha256 pb (Unstake t) =
     pb_unstake_body pb (t\<lparr>ut_signature := \<lparr>ks_signature = [], ks_public_key = []\<rparr>\<rparr>)"

definition tx_hash :: "(u8 list \<Rightarrow> hash) \<Rightarrow> pb_codec \<Rightarrow> transaction \<Rightarrow> hash" where
  "tx_hash sha256 pb t = sha256 (hashable_bytes sha256 pb t)"

text \<open>The versioned hash. No kind of transaction overrides the encoder of a version
  (\<^verbatim>\<open>to_versioned_pb\<close>), so the version plays no role in it.\<close>

fun versioned_hash :: "(u8 list \<Rightarrow> hash) \<Rightarrow> pb_codec \<Rightarrow> protocol_version \<Rightarrow> transaction \<Rightarrow> hash" where
  "versioned_hash sha256 pb v (ValueTransfer t) = sha256 (pb_vt_body pb (t\<lparr>vt_signatures := []\<rparr>))"
| "versioned_hash sha256 pb v (DataRequest t) =
     sha256 (dr_data_poi_hash sha256 pb t @ dr_rest_poi_hash sha256 pb t)"
| "versioned_hash sha256 pb v (Commit t) = sha256 (pb_commit_body pb (t\<lparr>commit_signatures := []\<rparr>))"
| "versioned_hash sha256 pb v (Reveal t) = sha256 (pb_reveal_body pb (t\<lparr>reveal_signatures := []\<rparr>))"
| "versioned_hash sha256 pb v (Tally t) =
     sha256 (tally_data_poi_hash sha256 t @ tally_rest_poi_hash sha256 pb t)"
| "versioned_hash sha256 pb v (Mint t) = sha256 (pb_mint pb t)"
| "versioned_hash sha256 pb v (Stake t) = sha256 (pb_stake_body pb (t\<lparr>st_signatures := []\<rparr>))"
| "versioned_hash sha256 pb v (Unstake t) =
     sha256 (pb_unstake_body pb (t\<lparr>ut_signature := \<lparr>ks_signature = [], ks_public_key = []\<rparr>\<rparr>))"

definition header_versioned_hash :: "(u8 list \<Rightarrow> hash) \<Rightarrow> pb_codec \<Rightarrow> protocol_version \<Rightarrow> block_header \<Rightarrow> hash" where
  "header_versioned_hash sha256 pb v h = sha256 (pb_header pb v h)"

lemma versioned_hash_tx_hash: "versioned_hash sha256 pb v t = tx_hash sha256 pb t"
  by (cases t) (simp_all add: tx_hash_def)

section \<open>Merkle roots\<close>

definition EMPTY_SHA256 :: hash where
  "EMPTY_SHA256 =
     [227, 176, 196, 66, 152, 252, 28, 20, 154, 251, 244, 200, 153, 111, 185, 36, 39, 174, 65, 228,
      100, 155, 147, 76, 164, 149, 153, 27, 120, 82, 184, 85]"

definition default_hash :: hash where
  "default_hash = replicate 32 0"

text \<open>The root of a list of hashes. The computation never panics (\<open>merkle_tree_root_total\<close>).\<close>

definition hash_merkle_tree_root :: "(u8 list \<Rightarrow> hash) \<Rightarrow> hash list \<Rightarrow> hash" where
  "hash_merkle_tree_root sha256 hashes =
     (case merkle_tree_root sha256 EMPTY_SHA256 hashes of Some r \<Rightarrow> r | None \<Rightarrow> [])"

lemma merkle_tree_root_total:
  "merkle_tree_root sha256 EMPTY_SHA256 hs =
     Some (if hs = [] then EMPTY_SHA256 else mroot (sha256_concat sha256) hs)"
  using merkle_some [of hs "sha256_concat sha256"] by (simp add: merkle_tree_root_def)

definition txs_merkle_tree_root ::
  "(u8 list \<Rightarrow> hash) \<Rightarrow> (transaction \<Rightarrow> hash) \<Rightarrow> transaction list \<Rightarrow> hash"
where
  "txs_merkle_tree_root sha256 hash_of txs = hash_merkle_tree_root sha256 (map hash_of txs)"

definition from_transactions ::
  "(u8 list \<Rightarrow> hash) \<Rightarrow> pb_codec \<Rightarrow> block_transactions \<Rightarrow> protocol_version \<Rightarrow> block_merkle_roots"
where
  "from_transactions sha256 pb t v =
     (let root = txs_merkle_tree_root sha256 (versioned_hash sha256 pb v)
      in \<lparr>mint_hash = versioned_hash sha256 pb v (Mint (mint t)),
          vt_hash_merkle_root = root (map ValueTransfer (value_transfer_txns t)),
          dr_hash_merkle_root = root (map DataRequest (data_request_txns t)),
          commit_hash_merkle_root = root (map Commit (commit_txns t)),
          reveal_hash_merkle_root = root (map Reveal (reveal_txns t)),
          tally_hash_merkle_root = root (map Tally (tally_txns t)),
          stake_hash_merkle_root = (if v < V1_8 then default_hash else root (map Stake (stake_txns t))),
          unstake_hash_merkle_root = (if v < V2_0 then default_hash else root (map Unstake (unstake_txns t)))\<rparr>)"

text \<open>The genesis block creates the value of its outputs.\<close>

definition genesis ::
  "(u8 list \<Rightarrow> hash) \<Rightarrow> pb_codec \<Rightarrow> hash \<Rightarrow> vt_transaction list \<Rightarrow> block"
where
  "genesis sha256 pb bootstrap_hash vts =
     (let t = \<lparr>mint = \<lparr>mint_epoch = 0, mint_outputs = []\<rparr>, value_transfer_txns = vts,
               data_request_txns = [], commit_txns = [], reveal_txns = [], tally_txns = [],
               stake_txns = [], unstake_txns = []\<rparr>;
          root = txs_merkle_tree_root sha256 (tx_hash sha256 pb)
      in \<lparr>header =
            \<lparr>signals = 1,
             beacon = \<lparr>checkpoint = 0, hash_prev_block = bootstrap_hash\<rparr>,
             merkle_roots =
               \<lparr>mint_hash = tx_hash sha256 pb (Mint (mint t)),
                vt_hash_merkle_root = root (map ValueTransfer (value_transfer_txns t)),
                dr_hash_merkle_root = root (map DataRequest (data_request_txns t)),
                commit_hash_merkle_root = root (map Commit (commit_txns t)),
                reveal_hash_merkle_root = root (map Reveal (reveal_txns t)),
                tally_hash_merkle_root = root (map Tally (tally_txns t)),
                stake_hash_merkle_root = default_hash,
                unstake_hash_merkle_root = default_hash\<rparr>,
             eligibility = \<lparr>vrf_proof = [], vrf_public_key = []\<rparr>,
             bn256_public_key = None\<rparr>,
          block_sig = \<lparr>ks_signature = [], ks_public_key = []\<rparr>,
          txns = t\<rparr>)"

section \<open>Weights and sizes\<close>

text \<open>The weights of a block add up with \<open>+\<close>, which wraps around, unlike those of a transaction.\<close>

definition block_dr_weight :: "block \<Rightarrow> u32" where
  "block_dr_weight b = foldl (\<lambda>w t. w + dr_weight t) 0 (data_request_txns (txns b))"

definition block_vt_weight :: "block \<Rightarrow> u32" where
  "block_vt_weight b = foldl (\<lambda>w t. w + vt_weight t) 0 (value_transfer_txns (txns b))"

definition block_st_weight :: "block \<Rightarrow> u32" where
  "block_st_weight b = foldl (\<lambda>w t. w + st_weight t) 0 (stake_txns (txns b))"

definition block_ut_weight :: "block \<Rightarrow> u32" where
  "block_ut_weight b = foldl (\<lambda>w t. w + ut_weight t) 0 (unstake_txns (txns b))"

definition block_weight :: "block \<Rightarrow> u32" where
  "block_weight b = block_dr_weight b + block_vt_weight b + block_st_weight b + block_ut_weight b"

text \<open>The hash of a block is that of its header, in the version in force.\<close>

definition hash_block :: "(u8 list \<Rightarrow> hash) \<Rightarrow> pb_codec \<Rightarrow> protocol_info \<Rightarrow> block \<Rightarrow> hash" where
  "hash_block sha256 pb pi b = sha256 (pb_header pb (get_protocol_version pi None) (header b))"

definition is_genesis :: "(u8 list \<Rightarrow> hash) \<Rightarrow> pb_codec \<Rightarrow> protocol_info \<Rightarrow> block \<Rightarrow> hash \<Rightarrow> bool" where
  "is_genesis sha256 pb pi b genesis_hash \<longleftrightarrow> hash_block sha256 pb pi b = genesis_hash"

definition txns_len :: "block_transactions \<Rightarrow> nat" where
  "txns_len t = 1 + length (value_transfer_txns t) + length (data_request_txns t) + length (commit_txns t)
     + length (reveal_txns t) + length (tally_txns t) + length (stake_txns t) + length (unstake_txns t)"

definition txns_is_empty :: "block_transactions \<Rightarrow> bool" where
  "txns_is_empty t \<longleftrightarrow> False \<and> value_transfer_txns t = [] \<and> data_request_txns t = [] \<and> commit_txns t = []
     \<and> reveal_txns t = [] \<and> tally_txns t = [] \<and> stake_txns t = [] \<and> unstake_txns t = []"

section \<open>Pointers\<close>

definition vec_get :: "'a list \<Rightarrow> u32 \<Rightarrow> 'a option" where
  "vec_get xs i = (if unat i < length xs then Some (xs ! unat i) else None)"

fun txns_get :: "block_transactions \<Rightarrow> transaction_pointer \<Rightarrow> transaction option" where
  "txns_get t PMint = Some (Mint (mint t))"
| "txns_get t (PValueTransfer i) = map_option ValueTransfer (vec_get (value_transfer_txns t) i)"
| "txns_get t (PDataRequest i) = map_option DataRequest (vec_get (data_request_txns t) i)"
| "txns_get t (PCommit i) = map_option Commit (vec_get (commit_txns t) i)"
| "txns_get t (PReveal i) = map_option Reveal (vec_get (reveal_txns t) i)"
| "txns_get t (PTally i) = map_option Tally (vec_get (tally_txns t) i)"
| "txns_get t (PStake i) = map_option Stake (vec_get (stake_txns t) i)"
| "txns_get t (PUnstake i) = map_option Unstake (vec_get (unstake_txns t) i)"

text \<open>One of the loops over the transactions of a kind; \<^const>\<open>None\<close> is the panic of
  \<^verbatim>\<open>u32::try_from(i).unwrap()\<close>.\<close>

definition kind_pointers ::
  "(transaction \<Rightarrow> hash) \<Rightarrow> hash \<Rightarrow> (u32 \<Rightarrow> transaction_pointer) \<Rightarrow> transaction list
   \<Rightarrow> (hash \<times> pointer_to_block) list option"
where
  "kind_pointers hash_of bh c ts =
     (if length ts \<le> 2 ^ 32
      then Some (map (\<lambda>(i, t). (hash_of t, \<lparr>block_hash = bh, transaction_index = c (of_nat i)\<rparr>)) (enumerate 0 ts))
      else None)"

fun append_all :: "'a list option list \<Rightarrow> 'a list option" where
  "append_all [] = Some []"
| "append_all (x # xs) = Option.bind x (\<lambda>ys. map_option (\<lambda>zs. ys @ zs) (append_all xs))"

definition create_pointers_to_transactions ::
  "(transaction \<Rightarrow> hash) \<Rightarrow> block_transactions \<Rightarrow> hash \<Rightarrow> (hash \<times> pointer_to_block) list option"
where
  "create_pointers_to_transactions hash_of t bh =
     append_all
       [Some [(hash_of (Mint (mint t)), \<lparr>block_hash = bh, transaction_index = PMint\<rparr>)],
        kind_pointers hash_of bh PValueTransfer (map ValueTransfer (value_transfer_txns t)),
        kind_pointers hash_of bh PDataRequest (map DataRequest (data_request_txns t)),
        kind_pointers hash_of bh PCommit (map Commit (commit_txns t)),
        kind_pointers hash_of bh PReveal (map Reveal (reveal_txns t)),
        kind_pointers hash_of bh PTally (map Tally (tally_txns t)),
        kind_pointers hash_of bh PStake (map Stake (stake_txns t)),
        kind_pointers hash_of bh PUnstake (map Unstake (unstake_txns t))]"

section \<open>Properties\<close>

definition all_txs :: "block_transactions \<Rightarrow> transaction list" where
  "all_txs t = Mint (mint t) # map ValueTransfer (value_transfer_txns t) @ map DataRequest (data_request_txns t)
     @ map Commit (commit_txns t) @ map Reveal (reveal_txns t) @ map Tally (tally_txns t)
     @ map Stake (stake_txns t) @ map Unstake (unstake_txns t)"

text \<open>A list of pointers describes a list of transactions of a block.\<close>

definition describes ::
  "(transaction \<Rightarrow> hash) \<Rightarrow> block_transactions \<Rightarrow> hash \<Rightarrow> (hash \<times> pointer_to_block) list \<Rightarrow> transaction list \<Rightarrow> bool"
where
  "describes hash_of t bh items txs \<longleftrightarrow>
     map (\<lambda>(h, p). txns_get t (transaction_index p)) items = map Some txs
     \<and> map fst items = map hash_of txs \<and> (\<forall>(h, p) \<in> set items. block_hash p = bh)"

lemma describes_kind:
  assumes "length xs \<le> 2 ^ 32" and "\<And>i. txns_get t (c i) = map_option k (vec_get xs i)"
  shows "\<exists>items. kind_pointers hash_of bh c (map k xs) = Some items \<and> describes hash_of t bh items (map k xs)"
proof -
  let ?items = "map (\<lambda>(i, x). (hash_of x, \<lparr>block_hash = bh, transaction_index = c (of_nat i)\<rparr>)) (enumerate 0 (map k xs))"
  have "map (\<lambda>(h, p). txns_get t (transaction_index p)) ?items = map Some (map k xs)"
  proof (rule nth_equalityI)
    fix i
    assume "i < length (map (\<lambda>(h, p). txns_get t (transaction_index p)) ?items)"
    then have i: "i < length xs" by simp
    then have "unat (of_nat i :: u32) = i"
      using assms(1) by (simp add: unsigned_of_nat take_bit_nat_eq_self)
    with i show "map (\<lambda>(h, p). txns_get t (transaction_index p)) ?items ! i = map Some (map k xs) ! i"
      by (simp add: nth_enumerate_eq assms(2) vec_get_def)
  qed simp
  moreover have "map fst ?items = map hash_of (map k xs)"
    by (rule nth_equalityI) (simp_all add: nth_enumerate_eq)
  ultimately have "describes hash_of t bh ?items (map k xs)"
    unfolding describes_def by auto
  then show ?thesis
    using assms(1) by (simp add: kind_pointers_def)
qed

lemma describes_append_all:
  "list_all2 (\<lambda>r txs. \<exists>items. r = Some items \<and> describes hash_of t bh items txs) rs txss \<Longrightarrow>
   \<exists>items. append_all rs = Some items \<and> describes hash_of t bh items (concat txss)"
proof (induction rs txss rule: list_all2_induct)
  case Nil
  show ?case by (simp add: describes_def)
next
  case (Cons r rs txs txss)
  then obtain items items' where "r = Some items" "describes hash_of t bh items txs"
    "append_all rs = Some items'" "describes hash_of t bh items' (concat txss)"
    by blast
  then show ?case
    by (auto simp: describes_def)
qed

lemma txns_len_all_txs: "txns_len t = length (all_txs t)"
  by (simp add: txns_len_def all_txs_def)

text \<open>Claim C33: the pointers stored for the transactions of a block lead back to them. Unless a list
  holds more than 2^32 transactions the pointers are created; there is one for each transaction, in
  order, under its hash and with the hash of the block, and reading the block at the pointer returns
  that transaction. The declared length of the block is the number of pointers.\<close>

theorem pointers_lead_back:
  assumes "\<forall>n \<in> {length (value_transfer_txns t), length (data_request_txns t), length (commit_txns t),
     length (reveal_txns t), length (tally_txns t), length (stake_txns t), length (unstake_txns t)}. n \<le> 2 ^ 32"
  shows "\<exists>items. create_pointers_to_transactions hash_of t bh = Some items
     \<and> map (\<lambda>(h, p). txns_get t (transaction_index p)) items = map Some (all_txs t)
     \<and> map fst items = map hash_of (all_txs t)
     \<and> (\<forall>(h, p) \<in> set items. block_hash p = bh)
     \<and> length items = txns_len t"
proof -
  have "\<exists>items. create_pointers_to_transactions hash_of t bh = Some items
      \<and> describes hash_of t bh items (concat [[Mint (mint t)], map ValueTransfer (value_transfer_txns t),
          map DataRequest (data_request_txns t), map Commit (commit_txns t), map Reveal (reveal_txns t),
          map Tally (tally_txns t), map Stake (stake_txns t), map Unstake (unstake_txns t)])"
    unfolding create_pointers_to_transactions_def
    by (rule describes_append_all, intro list_all2_Cons [THEN iffD2] conjI list_all2_Nil [THEN iffD2] TrueI describes_kind)
      (use assms in \<open>simp_all add: describes_def\<close>)
  then obtain items where items: "create_pointers_to_transactions hash_of t bh = Some items"
      "describes hash_of t bh items (all_txs t)"
    by (auto simp: all_txs_def)
  then have "length items = txns_len t"
    unfolding describes_def txns_len_all_txs by (metis length_map)
  with items show ?thesis
    unfolding describes_def by blast
qed

definition sample_txns :: block_transactions where
  "sample_txns = \<lparr>mint = \<lparr>mint_epoch = 7, mint_outputs = []\<rparr>,
     value_transfer_txns = [\<lparr>vt_inputs = [], vt_outputs = [], vt_signatures = []\<rparr>],
     data_request_txns = [], commit_txns = [],
     reveal_txns = [\<lparr>reveal_dr_pointer = [1], reveal_bytes = [], reveal_pkh = [2], reveal_signatures = []\<rparr>],
     tally_txns = [], stake_txns = [], unstake_txns = []\<rparr>"

theorem pointers_lead_back_witness:
  "\<exists>items. create_pointers_to_transactions (\<lambda>_. [5]) sample_txns [9] = Some items
     \<and> map (\<lambda>(h, p). txns_get sample_txns (transaction_index p)) items = map Some (all_txs sample_txns)
     \<and> length items = 3"
  using pointers_lead_back [of sample_txns "\<lambda>_. [5]" "[9]"] by (auto simp: sample_txns_def txns_len_def)

end
