(* ===== verification/Superblock.thy ===== *)
theory Superblock
  imports Block Tapi Reputation_Engine
begin

text \<open>
  Superblocks (data_structures/src/superblock.rs and the \<^verbatim>\<open>SuperBlock\<close>, \<^verbatim>\<open>SuperBlockVote\<close> and
  \<^verbatim>\<open>AltKeys\<close> types of chain/mod.rs): the mempool of votes, the verdict on consensus, the choice of
  the signing committee, the construction of a superblock and the proofs of inclusion that it
  supports. A \<^verbatim>\<open>HashSet\<close> is a list without repetitions, and its order, like that of a \<^verbatim>\<open>HashMap\<close>,
  stands for the iteration order. \<^verbatim>\<open>usize\<close> is a 64-bit word where the code subtracts.
  \<^const>\<open>None\<close> as the result of an operation that returns a state is a panic.
\<close>

section \<open>Votes\<close>

record superblock_vote =
  bn256_signature :: "u8 list"
  secp256k1_signature :: keyed_signature
  superblock_hash :: hash
  superblock_index :: u32

definition new_unsigned :: "hash \<Rightarrow> u32 \<Rightarrow> superblock_vote" where
  "new_unsigned h i =
     \<lparr>bn256_signature = [], secp256k1_signature = \<lparr>ks_signature = [], ks_public_key = []\<rparr>,
      superblock_hash = h, superblock_index = i\<rparr>"

definition bn256_signature_message :: "superblock_vote \<Rightarrow> u8 list" where
  "bn256_signature_message v = to_be_bytes (superblock_index v) @ superblock_hash v"

definition secp256k1_signature_message :: "superblock_vote \<Rightarrow> u8 list" where
  "secp256k1_signature_message v = to_be_bytes (superblock_index v) @ superblock_hash v @ bn256_signature v"

definition voter :: "(u8 list \<Rightarrow> pkh) \<Rightarrow> superblock_vote \<Rightarrow> pkh" where
  "voter pkh_of v = pkh_of (ks_public_key (secp256k1_signature v))"

datatype add_superblock_vote =
    AlreadySeen
  | DoubleVote
  | InvalidIndex
  | MaybeValid
  | NotInSigningCommittee
  | ValidButDifferentHash
  | ValidWithSameHash

datatype superblock_consensus =
    SameAsLocal
  | Different hash
  | NoConsensus
  | UnknownConsensus

section \<open>Identities\<close>

record ars_identities =
  identities :: "pkh list"
  ordered_identities :: "pkh list"

definition new_ars_identities :: "pkh list \<Rightarrow> ars_identities" where
  "new_ars_identities ks = \<lparr>identities = remdups ks, ordered_identities = ks\<rparr>"

definition ars_len :: "ars_identities \<Rightarrow> nat" where
  "ars_len a = length (identities a)"

definition ars_is_empty :: "ars_identities \<Rightarrow> bool" where
  "ars_is_empty a \<longleftrightarrow> identities a = []"

text \<open>Alternative keys: the BN256 key of each identity.\<close>

type_synonym alt_keys = "(pkh \<times> u8 list) list"

definition get_bn256 :: "alt_keys \<Rightarrow> pkh \<Rightarrow> u8 list option" where
  "get_bn256 a k = map_of a k"

definition insert_bn256 :: "(u8 list \<Rightarrow> bool) \<Rightarrow> pkh \<Rightarrow> u8 list \<Rightarrow> alt_keys \<Rightarrow> u8 list option \<times> alt_keys" where
  "insert_bn256 is_valid_key k v a = (if is_valid_key v then (map_of a k, AList.update k v a) else (None, a))"

definition retain_keys :: "(pkh \<Rightarrow> bool) \<Rightarrow> alt_keys \<Rightarrow> alt_keys" where
  "retain_keys f a = filter (\<lambda>(k, _). f k) a"

definition insert_keys_from_block ::
  "(u8 list \<Rightarrow> pkh) \<Rightarrow> (commit_transaction \<Rightarrow> u8 list) \<Rightarrow> (u8 list \<Rightarrow> bool) \<Rightarrow> block \<Rightarrow> alt_keys \<Rightarrow> alt_keys"
where
  "insert_keys_from_block pkh_of commit_proof_key is_valid_key b a =
     foldl (\<lambda>acc c. case commit_bn256_public_key c of
              Some v \<Rightarrow> snd (insert_bn256 is_valid_key (pkh_of (commit_proof_key c)) v acc)
            | None \<Rightarrow> acc)
       (case bn256_public_key (header b) of
          Some v \<Rightarrow> snd (insert_bn256 is_valid_key (pkh_of (vrf_public_key (eligibility (header b)))) v a)
        | None \<Rightarrow> a)
       (commit_txns (txns b))"

definition get_rep_ordered_bn256_list :: "ars_identities \<Rightarrow> alt_keys \<Rightarrow> u8 list list" where
  "get_rep_ordered_bn256_list a keys = List.map_filter (get_bn256 keys) (ordered_identities a)"

section \<open>The mempool of votes\<close>

record votes_mempool =
  penalized_identities :: "pkh list"
  received_votes :: "superblock_vote list"
  votes_of_each_identity :: "(pkh \<times> superblock_vote) list"
  votes_on_each_superblock :: "(hash \<times> superblock_vote list) list"

definition empty_mempool :: votes_mempool where
  "empty_mempool = \<lparr>penalized_identities = [], received_votes = [], votes_of_each_identity = [],
     votes_on_each_superblock = []\<rparr>"

definition mempool_contains :: "superblock_vote \<Rightarrow> votes_mempool \<Rightarrow> bool" where
  "mempool_contains v m \<longleftrightarrow> v \<in> set (received_votes m)"

definition mempool_insert :: "superblock_vote \<Rightarrow> votes_mempool \<Rightarrow> votes_mempool" where
  "mempool_insert v m = m\<lparr>received_votes := List.insert v (received_votes m)\<rparr>"

definition check_double_vote :: "pkh \<Rightarrow> hash \<Rightarrow> votes_mempool \<Rightarrow> bool" where
  "check_double_vote k h m =
     (if k \<in> set (penalized_identities m) then True
      else case map_of (votes_of_each_identity m) k of
             Some vote \<Rightarrow> h \<noteq> superblock_hash vote
           | None \<Rightarrow> False)"

text \<open>\<^verbatim>\<open>Vec::swap_remove\<close>: the last element takes the place of the removed one.\<close>

definition swap_remove :: "nat \<Rightarrow> 'a list \<Rightarrow> 'a list" where
  "swap_remove i xs = butlast (xs[i := last xs])"

definition override_vote :: "pkh \<Rightarrow> votes_mempool \<Rightarrow> votes_mempool option" where
  "override_vote k m =
     map_option (\<lambda>m'. m'\<lparr>penalized_identities := List.insert k (penalized_identities m')\<rparr>)
       (case map_of (votes_of_each_identity m) k of
          None \<Rightarrow> Some m
        | Some old \<Rightarrow>
            let m1 = m\<lparr>votes_of_each_identity := AList.delete k (votes_of_each_identity m)\<rparr>;
                h = superblock_hash old
            in case map_of (votes_on_each_superblock m1) h of
                 None \<Rightarrow> None
               | Some v \<Rightarrow>
                   (case position (\<lambda>x. x = old) v of
                      None \<Rightarrow> None
                    | Some pos \<Rightarrow>
                        let v' = swap_remove pos v
                        in Some (m1\<lparr>votes_on_each_superblock :=
                             (if v' = [] then AList.delete h (votes_on_each_superblock m1)
                              else AList.update h v' (votes_on_each_superblock m1))\<rparr>)))"

definition mempool_insert_vote :: "(u8 list \<Rightarrow> pkh) \<Rightarrow> superblock_vote \<Rightarrow> votes_mempool \<Rightarrow> votes_mempool" where
  "mempool_insert_vote pkh_of v m =
     (let k = voter pkh_of v;
          m1 = m\<lparr>votes_of_each_identity := AList.update k v (votes_of_each_identity m)\<rparr>
      in if map_of (votes_of_each_identity m) k = None
         then m1\<lparr>votes_on_each_superblock :=
                AList.update (superblock_hash v)
                  ((case map_of (votes_on_each_superblock m1) (superblock_hash v) of Some vs \<Rightarrow> vs | None \<Rightarrow> []) @ [v])
                  (votes_on_each_superblock m1)\<rparr>
         else m1)"

definition get_valid_votes :: "votes_mempool \<Rightarrow> (hash \<times> superblock_vote list) list" where
  "get_valid_votes m = votes_on_each_superblock m"

definition clear_and_remove_votes :: "votes_mempool \<Rightarrow> superblock_vote list \<times> votes_mempool" where
  "clear_and_remove_votes m = (received_votes m, empty_mempool)"

text \<open>\<^verbatim>\<open>Iterator::max_by_key\<close> returns the last of the largest elements.\<close>

definition max_by_key :: "('a \<Rightarrow> 'b::linorder) \<Rightarrow> 'a list \<Rightarrow> 'a option" where
  "max_by_key key xs =
     foldl (\<lambda>best x. case best of None \<Rightarrow> Some x | Some y \<Rightarrow> if key y \<le> key x then Some x else Some y) None xs"

definition most_voted_superblock :: "votes_mempool \<Rightarrow> (hash \<times> u64) option" where
  "most_voted_superblock m =
     max_by_key snd (map (\<lambda>(h, vs). (h, of_nat (length vs))) (votes_on_each_superblock m))"

definition valid_votes_counter :: "votes_mempool \<Rightarrow> u64" where
  "valid_votes_counter m = of_nat (length (votes_of_each_identity m))"

definition invalid_votes_counter :: "votes_mempool \<Rightarrow> u64" where
  "invalid_votes_counter m = of_nat (length (penalized_identities m))"

definition votes_counter_from_superblock :: "hash \<Rightarrow> votes_mempool \<Rightarrow> u64" where
  "votes_counter_from_superblock h m =
     of_nat (length (case map_of (votes_on_each_superblock m) h of Some vs \<Rightarrow> vs | None \<Rightarrow> []))"

section \<open>Superblocks\<close>

record superblock =
  signing_committee_length :: u32
  ars_root :: hash
  data_request_root :: hash
  sb_index :: u32
  last_block :: hash
  last_block_in_previous_superblock :: hash
  tally_root :: hash

definition serialize_as_bytes :: "superblock \<Rightarrow> u8 list" where
  "serialize_as_bytes s =
     concat [to_be_bytes (signing_committee_length s), ars_root s, data_request_root s,
       to_be_bytes (sb_index s), last_block s, last_block_in_previous_superblock s, tally_root s]"

definition hash_superblock :: "(u8 list \<Rightarrow> hash) \<Rightarrow> superblock \<Rightarrow> hash" where
  "hash_superblock sha256 s = sha256 (serialize_as_bytes s)"

definition mining_build_superblock ::
  "(u8 list \<Rightarrow> hash) \<Rightarrow> pb_codec \<Rightarrow> block_header list \<Rightarrow> hash list \<Rightarrow> u32 \<Rightarrow> hash \<Rightarrow> u32 \<Rightarrow> protocol_version \<Rightarrow> superblock"
where
  "mining_build_superblock sha256 pb block_headers ars_ordered_hash_leaves index last_block_in_previous len v =
     (if block_headers = [] then
        \<lparr>signing_committee_length = len,
         ars_root = hash_merkle_tree_root sha256 ars_ordered_hash_leaves,
         data_request_root = default_hash,
         sb_index = index,
         last_block = last_block_in_previous,
         last_block_in_previous_superblock = last_block_in_previous,
         tally_root = default_hash\<rparr>
      else
        \<lparr>signing_committee_length = len,
         ars_root = hash_merkle_tree_root sha256 ars_ordered_hash_leaves,
         data_request_root = hash_merkle_tree_root sha256 (map (dr_hash_merkle_root \<circ> merkle_roots) block_headers),
         sb_index = index,
         last_block = header_versioned_hash sha256 pb v (last block_headers),
         last_block_in_previous_superblock = last_block_in_previous,
         tally_root = hash_merkle_tree_root sha256 (map (tally_hash_merkle_root \<circ> merkle_roots) block_headers)\<rparr>)"

text \<open>The hash of a BN256 key is that of its uncompressed form, which the BN256 library computes.\<close>

definition hash_key_leaves :: "(u8 list \<Rightarrow> hash) \<Rightarrow> (u8 list \<Rightarrow> u8 list) \<Rightarrow> u8 list list \<Rightarrow> hash list" where
  "hash_key_leaves sha256 to_uncompressed keys = map (\<lambda>k. sha256 (to_uncompressed k)) keys"

section \<open>The signing committee\<close>

fun partition_loop :: "'a list \<Rightarrow> nat \<Rightarrow> nat \<Rightarrow> nat \<Rightarrow> 'a list" where
  "partition_loop v each a 0 = []"
| "partition_loop v each a (Suc n) = v ! a # partition_loop v each ((a + each) mod length v) n"

text \<open>The loop runs until the subset has \<open>size\<close> elements; it starts with one.\<close>

definition magic_partition :: "'a list \<Rightarrow> nat \<Rightarrow> nat \<Rightarrow> 'a list option" where
  "magic_partition v first size_n =
     (if first \<ge> length v then Some []
      else if size_n = 0 then None
      else let each = length v div size_n
           in Some (v ! first # partition_loop v each ((first + each) mod length v) (size_n - 1)))"

definition magic_partition_2 :: "'a list \<Rightarrow> nat \<Rightarrow> nat \<Rightarrow> u8 list \<Rightarrow> 'a list option" where
  "magic_partition_2 v first size_n rand_distribution =
     (if first \<ge> length v then Some []
      else if \<not> size_n \<le> length v \<or> size_n = 0 \<or> rand_distribution = [] then None
      else let each = length v div size_n
           in Some (map (\<lambda>i. v ! ((first + i * each
                      + unat (rand_distribution ! (i mod length rand_distribution)) mod each) mod length v)) [0..<size_n]))"

text \<open>A hash as a 256-bit big-endian number.\<close>

definition big_endian :: "u8 list \<Rightarrow> nat" where
  "big_endian bs = foldl (\<lambda>n b. 256 * n + unat b) 0 bs"

definition hash_mod :: "hash \<Rightarrow> u64 \<Rightarrow> u64 option" where
  "hash_mod h n = (if n = 0 then None else Some (of_nat (big_endian h mod unat n)))"

definition calculate_superblock_signing_committee ::
  "(u8 list \<Rightarrow> hash) \<Rightarrow> environment \<Rightarrow> ars_identities \<Rightarrow> u32 \<Rightarrow> u32 \<Rightarrow> hash \<Rightarrow> epoch \<Rightarrow> pkh list option"
where
  "calculate_superblock_signing_committee sha256 env a committee_size index sb_hash e =
     (if ars_len a < unat committee_size then Some (identities a)
      else if after_second_hard_fork e env then
        let hashed = sha256 (sb_hash @ to_be_bytes index)
        in case hash_mod hashed (of_nat (ars_len a)) of
             None \<Rightarrow> None
           | Some first \<Rightarrow>
               map_option remdups
                 (magic_partition_2 (ordered_identities a) (unat first) (unat committee_size) hashed)
      else
        let index_hash = sha256 (to_be_bytes index)
        in case (sb_hash, index_hash) of
             (b # _, c # _) \<Rightarrow>
               let n = of_nat (ars_len a) :: u32
               in if n = 0 then None
                  else map_option remdups
                         (magic_partition (ordered_identities a) (unat ((ucast b + ucast c :: u32) mod n)) (unat committee_size))
           | _ \<Rightarrow> None)"

section \<open>The state\<close>

record superblock_state =
  ars_current_identities :: ars_identities
  ars_previous_identities :: ars_identities
  current_superblock :: "superblock option"
  current_superblock_beacon :: checkpoint_beacon
  signing_committee :: "pkh list"
  mempool :: votes_mempool

definition new_superblock_state :: "hash \<Rightarrow> pkh list \<Rightarrow> superblock_state" where
  "new_superblock_state genesis_hash bootstrap_committee =
     \<lparr>ars_current_identities = new_ars_identities bootstrap_committee,
      ars_previous_identities = new_ars_identities bootstrap_committee,
      current_superblock = None,
      current_superblock_beacon = \<lparr>checkpoint = 0, hash_prev_block = genesis_hash\<rparr>,
      signing_committee = remdups bootstrap_committee,
      mempool = empty_mempool\<rparr>"

definition insert_vote ::
  "(u8 list \<Rightarrow> pkh) \<Rightarrow> superblock_vote \<Rightarrow> superblock_state \<Rightarrow> (add_superblock_vote \<times> superblock_state) option"
where
  "insert_vote pkh_of v st =
     (if check_double_vote (voter pkh_of v) (superblock_hash v) (mempool st)
      then map_option (\<lambda>m. (DoubleVote, st\<lparr>mempool := m\<rparr>)) (override_vote (voter pkh_of v) (mempool st))
      else Some (if superblock_hash v = hash_prev_block (current_superblock_beacon st)
                 then ValidWithSameHash else ValidButDifferentHash,
                 st\<lparr>mempool := mempool_insert_vote pkh_of v (mempool st)\<rparr>))"

definition is_valid :: "(u8 list \<Rightarrow> pkh) \<Rightarrow> superblock_vote \<Rightarrow> u32 \<Rightarrow> superblock_state \<Rightarrow> bool option" where
  "is_valid pkh_of v current_index st =
     (if current_index = superblock_index v then Some (voter pkh_of v \<in> set (signing_committee st))
      else if superblock_index v = saturating_add current_index 1 then None
      else Some False)"

definition add_vote ::
  "(u8 list \<Rightarrow> pkh) \<Rightarrow> superblock_vote \<Rightarrow> u32 \<Rightarrow> superblock_state \<Rightarrow> (add_superblock_vote \<times> superblock_state) option"
where
  "add_vote pkh_of v current_index st =
     (if mempool_contains v (mempool st) then Some (AlreadySeen, st)
      else
        let st1 = st\<lparr>mempool := mempool_insert v (mempool st)\<rparr>
        in case is_valid pkh_of v current_index st1 of
             Some True \<Rightarrow> insert_vote pkh_of v st1
           | Some False \<Rightarrow>
               Some (if superblock_index v = current_index \<or> ars_is_empty (ars_previous_identities st1)
                     then NotInSigningCommittee else InvalidIndex, st1)
           | None \<Rightarrow> Some (MaybeValid, st1))"

definition two_thirds_consensus :: "u64 \<Rightarrow> u64 \<Rightarrow> bool" where
  "two_thirds_consensus num_votes ids = (let required_votes = ids * 2 div 3 in num_votes \<ge> required_votes)"

definition has_consensus :: "superblock_state \<Rightarrow> superblock_consensus" where
  "has_consensus st =
     (if signing_committee st = [] then SameAsLocal
      else
        let n = of_nat (length (signing_committee st)) :: u64
        in case most_voted_superblock (mempool st) of
             None \<Rightarrow> UnknownConsensus
           | Some (h, num_votes) \<Rightarrow>
               if two_thirds_consensus num_votes n
               then if h = hash_prev_block (current_superblock_beacon st) then SameAsLocal else Different h
               else
                 let missing = n - valid_votes_counter (mempool st) - invalid_votes_counter (mempool st)
                 in if two_thirds_consensus (num_votes + missing) n then UnknownConsensus else NoConsensus)"

definition update_ars_identities :: "ars_identities \<Rightarrow> superblock_state \<Rightarrow> superblock_state" where
  "update_ars_identities new_ids st =
     st\<lparr>ars_previous_identities := ars_current_identities st, ars_current_identities := new_ids\<rparr>"

definition WIT2_BOOTSTRAP_COMMITTEE :: "string list" where
  "WIT2_BOOTSTRAP_COMMITTEE = []"

definition WIT2_BOOTSTRAP_COMMITTEE_TEST :: "string list" where
  "WIT2_BOOTSTRAP_COMMITTEE_TEST =
     [''twit1f0am8c97q2ygkz3q6jyd2x29s8zaxqlxcqltxx'',
      ''twit1pc8jzqph4t0md02e6fgwgsw26yll20p98c3pgh'',
      ''twit1mseplfttj5vvm8r7d5pn5je9dd02el4hw4w4cp'',
      ''twit1najvm34rta4vnkpfax8kk0vhpntg5lgdz8wc33'']"

text \<open>The committee after the overrides of the emergency periods and of the bootstrapping of wit/2.\<close>

definition override_committee ::
  "(string \<Rightarrow> pkh option) \<Rightarrow> environment \<Rightarrow> u32 \<Rightarrow> pkh list \<Rightarrow> pkh list option"
where
  "override_committee parse_address env index committee =
     (case (case in_emergency_period parse_address index env of
              Some ids \<Rightarrow> map_option remdups ids
            | None \<Rightarrow> Some committee) of
        None \<Rightarrow> None
      | Some emergency_committee \<Rightarrow>
          (case env of
             Mainnet \<Rightarrow>
               if 292224 \<le> index \<and> index < 299712
               then map_option remdups (parse_committee parse_address WIT2_BOOTSTRAP_COMMITTEE)
               else Some emergency_committee
           | Testnet \<Rightarrow> map_option remdups (parse_committee parse_address WIT2_BOOTSTRAP_COMMITTEE_TEST)
           | _ \<Rightarrow> Some emergency_committee))"

text \<open>Votes received before the superblock was built are counted for it where they are valid now.\<close>

fun reinsert_votes ::
  "(u8 list \<Rightarrow> pkh) \<Rightarrow> u32 \<Rightarrow> superblock_vote list \<Rightarrow> superblock_state \<Rightarrow> superblock_state option"
where
  "reinsert_votes pkh_of index [] st = Some st"
| "reinsert_votes pkh_of index (v # vs) st =
     (if is_valid pkh_of v index st = Some True
      then (case insert_vote pkh_of v st of
              None \<Rightarrow> None
            | Some (_, st') \<Rightarrow> reinsert_votes pkh_of index vs st')
      else reinsert_votes pkh_of index vs st)"

text \<open>What the code takes from its surroundings: hashing, encoders, the address parser, the BN256
  library, the environment and the registry of protocol versions.\<close>

record sb_context =
  c_sha256 :: "u8 list \<Rightarrow> hash"
  c_pb :: pb_codec
  c_pkh_of :: "u8 list \<Rightarrow> pkh"
  c_to_uncompressed :: "u8 list \<Rightarrow> u8 list"
  c_parse_address :: "string \<Rightarrow> pkh option"
  c_env :: environment
  c_protocol :: protocol_info

definition build_superblock ::
  "sb_context \<Rightarrow> block_header list \<Rightarrow> ars_identities \<Rightarrow> u32 \<Rightarrow> u32 \<Rightarrow> hash \<Rightarrow> alt_keys \<Rightarrow> superblock option \<Rightarrow> epoch
   \<Rightarrow> superblock_state \<Rightarrow> (superblock \<times> superblock_state) option"
where
  "build_superblock c block_headers ids committee_size index last_block_in_previous keys sync_superblock e st =
     (let v = get_protocol_version (c_protocol c) (Some e);
          key_leaves = hash_key_leaves (c_sha256 c) (c_to_uncompressed c) (get_rep_ordered_bn256_list ids keys);
          st1 = update_ars_identities ids st
      in case calculate_superblock_signing_committee (c_sha256 c) (c_env c) (ars_previous_identities st1)
                (case sync_superblock of Some sb \<Rightarrow> signing_committee_length sb | None \<Rightarrow> committee_size)
                index (hash_prev_block (current_superblock_beacon st1)) e of
           None \<Rightarrow> None
         | Some committee \<Rightarrow>
             (case override_committee (c_parse_address c) (c_env c) index committee of
                None \<Rightarrow> None
              | Some final_committee \<Rightarrow>
                  let st2 = st1\<lparr>signing_committee := final_committee\<rparr>;
                      sb = (case sync_superblock of
                              Some sb \<Rightarrow> sb
                            | None \<Rightarrow> mining_build_superblock (c_sha256 c) (c_pb c) block_headers key_leaves index
                                last_block_in_previous (of_nat (length final_committee)) v);
                      (old_votes, m) = clear_and_remove_votes (mempool st2);
                      st3 = st2\<lparr>current_superblock_beacon :=
                                  \<lparr>checkpoint = index, hash_prev_block = hash_superblock (c_sha256 c) sb\<rparr>,
                                mempool := m\<rparr>
                  in map_option (Pair sb) (reinsert_votes (c_pkh_of c) index old_votes st3)))"

definition get_current_superblock_votes :: "superblock_state \<Rightarrow> superblock_vote list" where
  "get_current_superblock_votes st = remdups (concat (map snd (get_valid_votes (mempool st))))"

definition get_committee_length :: "superblock_state \<Rightarrow> u32" where
  "get_committee_length st = of_nat (length (signing_committee st))"

definition set_current_superblock :: "superblock \<Rightarrow> superblock_state \<Rightarrow> superblock option \<times> superblock_state" where
  "set_current_superblock new st = (current_superblock st, st\<lparr>current_superblock := Some new\<rparr>)"

section \<open>Proofs of inclusion in a superblock\<close>

text \<open>The first block that has the transaction gives the proof; the outer option says whether one has.\<close>

fun find_map_enum :: "(nat \<Rightarrow> 'a \<Rightarrow> 'b option) \<Rightarrow> nat \<Rightarrow> 'a list \<Rightarrow> 'b option" where
  "find_map_enum f i [] = None"
| "find_map_enum f i (x # xs) = (case f i x of Some y \<Rightarrow> Some y | None \<Rightarrow> find_map_enum f (Suc i) xs)"

definition superblock_poi ::
  "(u8 list \<Rightarrow> hash) \<Rightarrow> (block \<Rightarrow> tx_inclusion_proof option option) \<Rightarrow> (block \<Rightarrow> hash) \<Rightarrow> block list
   \<Rightarrow> tx_inclusion_proof option option"
where
  "superblock_poi sha256 block_poi root_of blocks =
     map_option (\<lambda>(poi, idx).
         Option.bind poi (\<lambda>p. map_option (concat_proofs p)
           (new_with_hashes sha256 EMPTY_SHA256 idx (map root_of blocks))))
       (find_map_enum (\<lambda>idx b. map_option (\<lambda>poi. (poi, idx)) (block_poi b)) 0 blocks)"

definition dr_proof_of_inclusion ::
  "(u8 list \<Rightarrow> hash) \<Rightarrow> pb_codec \<Rightarrow> block list \<Rightarrow> dr_transaction \<Rightarrow> tx_inclusion_proof option option"
where
  "dr_proof_of_inclusion sha256 pb blocks tx =
     superblock_poi sha256
       (\<lambda>b. data_proof_of_inclusion sha256 EMPTY_SHA256 (\<lambda>t. versioned_hash sha256 pb V1_7 (DataRequest t))
              (dr_rest_poi_hash sha256 pb) (data_request_txns (txns b)) tx)
       (\<lambda>b. dr_hash_merkle_root (merkle_roots (header b))) blocks"

definition tally_proof_of_inclusion ::
  "(u8 list \<Rightarrow> hash) \<Rightarrow> pb_codec \<Rightarrow> block list \<Rightarrow> tally_transaction \<Rightarrow> protocol_version
   \<Rightarrow> tx_inclusion_proof option option"
where
  "tally_proof_of_inclusion sha256 pb blocks tx v =
     superblock_poi sha256
       (\<lambda>b. data_proof_of_inclusion sha256 EMPTY_SHA256 (\<lambda>t. versioned_hash sha256 pb v (Tally t))
              (tally_rest_poi_hash sha256 pb) (tally_txns (txns b)) tx)
       (\<lambda>b. tally_hash_merkle_root (merkle_roots (header b))) blocks"

end
