(* ===== verification/Superblock_Votes.thy ===== *)
theory Superblock_Votes
  imports Superblock
begin

text \<open>
  How votes on superblocks are counted, what the verdict on consensus guarantees, and a sequence of
  votes that makes a node panic.
\<close>

section \<open>Counting votes\<close>

lemma mset_swap_remove:
  assumes "i < length xs"
  shows "mset xs = add_mset (xs ! i) (mset (swap_remove i xs))"
proof -
  let ?ys = "xs[i := last xs]"
  have ne: "xs \<noteq> []"
    using assms by auto
  then have "mset ?ys = mset (butlast ?ys @ [last ?ys])"
    by simp
  also have "\<dots> = add_mset (last xs) (mset (swap_remove i xs))"
    using ne by (simp add: last_list_update swap_remove_def)
  finally have "mset ?ys = add_mset (last xs) (mset (swap_remove i xs))" .
  then show ?thesis
    using assms by (simp add: mset_update) (metis insert_DiffM nth_mem_mset)
qed

lemma max_by_key_foldl:
  "case foldl (\<lambda>best x. case best of None \<Rightarrow> Some x | Some y \<Rightarrow> if key y \<le> key x then Some x else Some y) (Some a) xs of
     None \<Rightarrow> False | Some x \<Rightarrow> x \<in> insert a (set xs) \<and> (\<forall>y \<in> insert a (set xs). key y \<le> key x)"
  for key :: "'a \<Rightarrow> 'b::linorder"
proof (induction xs arbitrary: a)
  case (Cons x xs)
  show ?case
    using Cons.IH [of "if key a \<le> key x then x else a"]
    by (auto split: option.splits if_splits intro: order.trans)
qed simp

lemma max_by_key_None [simp]: "max_by_key key xs = None \<longleftrightarrow> xs = []"
proof (cases xs)
  case (Cons x ys)
  then show ?thesis
    using max_by_key_foldl [where key = key and a = x and xs = ys] by (auto simp: max_by_key_def split: option.splits)
qed (simp add: max_by_key_def)

lemma max_by_key_Some:
  assumes "max_by_key key xs = Some x"
  shows "x \<in> set xs" and "y \<in> set xs \<Longrightarrow> key y \<le> key x"
proof -
  obtain a ys where "xs = a # ys"
    using assms by (cases xs) (auto simp: max_by_key_def)
  then show "x \<in> set xs" "y \<in> set xs \<Longrightarrow> key y \<le> key x"
    using max_by_key_foldl [where key = key and a = a and xs = ys] assms by (auto simp: max_by_key_def)
qed

definition votes_for :: "votes_mempool \<Rightarrow> hash \<Rightarrow> superblock_vote list" where
  "votes_for m h = (case map_of (votes_on_each_superblock m) h of Some vs \<Rightarrow> vs | None \<Rightarrow> [])"

definition voters_for :: "votes_mempool \<Rightarrow> hash \<Rightarrow> pkh set" where
  "voters_for m h = {k. \<exists>v. map_of (votes_of_each_identity m) k = Some v \<and> superblock_hash v = h}"

text \<open>The invariant of the mempool: the votes listed under a superblock are those of its voters_for,
  one each, and who voted or is penalized is a member of the committee, but not both.\<close>

definition votes_ok :: "(u8 list \<Rightarrow> pkh) \<Rightarrow> pkh set \<Rightarrow> votes_mempool \<Rightarrow> bool" where
  "votes_ok pkh_of C m \<longleftrightarrow>
     hm_wf (votes_of_each_identity m) \<and> hm_wf (votes_on_each_superblock m) \<and> distinct (penalized_identities m)
     \<and> dom (map_of (votes_of_each_identity m)) \<union> set (penalized_identities m) \<subseteq> C
     \<and> dom (map_of (votes_of_each_identity m)) \<inter> set (penalized_identities m) = {}
     \<and> (\<forall>k v. map_of (votes_of_each_identity m) k = Some v \<longrightarrow> voter pkh_of v = k)
     \<and> (\<forall>h. distinct (map (voter pkh_of) (votes_for m h)) \<and> voter pkh_of ` set (votes_for m h) = voters_for m h)
     \<and> (\<forall>h. map_of (votes_on_each_superblock m) h \<noteq> Some [])"

lemma votes_okI:
  assumes "hm_wf (votes_of_each_identity m)" "hm_wf (votes_on_each_superblock m)" "distinct (penalized_identities m)"
    "dom (map_of (votes_of_each_identity m)) \<subseteq> C" "set (penalized_identities m) \<subseteq> C"
    "dom (map_of (votes_of_each_identity m)) \<inter> set (penalized_identities m) = {}"
    "\<And>k v. map_of (votes_of_each_identity m) k = Some v \<Longrightarrow> voter pkh_of v = k"
    "\<And>h. distinct (map (voter pkh_of) (votes_for m h))" "\<And>h. voter pkh_of ` set (votes_for m h) = voters_for m h"
    "\<And>h. map_of (votes_on_each_superblock m) h \<noteq> Some []"
  shows "votes_ok pkh_of C m"
  using assms unfolding votes_ok_def by simp

lemma votes_okD:
  assumes "votes_ok pkh_of C m"
  shows "hm_wf (votes_of_each_identity m)" "hm_wf (votes_on_each_superblock m)" "distinct (penalized_identities m)"
    "dom (map_of (votes_of_each_identity m)) \<subseteq> C" "set (penalized_identities m) \<subseteq> C"
    "dom (map_of (votes_of_each_identity m)) \<inter> set (penalized_identities m) = {}"
    "\<And>k v. map_of (votes_of_each_identity m) k = Some v \<Longrightarrow> voter pkh_of v = k"
    "\<And>h. distinct (map (voter pkh_of) (votes_for m h))" "\<And>h. voter pkh_of ` set (votes_for m h) = voters_for m h"
    "\<And>h. map_of (votes_on_each_superblock m) h \<noteq> Some []"
  using assms unfolding votes_ok_def by simp_all

lemma votes_ok_empty: "votes_ok pkh_of C empty_mempool"
  by (simp add: votes_ok_def empty_mempool_def hm_wf_def votes_for_def voters_for_def)

lemma votes_ok_received [simp]:
  "votes_ok pkh_of C (m\<lparr>received_votes := r\<rparr>) \<longleftrightarrow> votes_ok pkh_of C m"
  by (simp add: votes_ok_def votes_for_def voters_for_def)

lemma mempool_insert_facts [simp]:
  "votes_of_each_identity (mempool_insert v m) = votes_of_each_identity m"
  "votes_on_each_superblock (mempool_insert v m) = votes_on_each_superblock m"
  "penalized_identities (mempool_insert v m) = penalized_identities m"
  "set (received_votes (mempool_insert v m)) = insert v (set (received_votes m))"
  "votes_for (mempool_insert v m) h = votes_for m h"
  by (simp_all add: mempool_insert_def votes_for_def)

lemma insert_vote_facts:
  "map_of (votes_of_each_identity (mempool_insert_vote pkh_of v m)) = (map_of (votes_of_each_identity m))(voter pkh_of v \<mapsto> v)"
  "penalized_identities (mempool_insert_vote pkh_of v m) = penalized_identities m"
  "received_votes (mempool_insert_vote pkh_of v m) = received_votes m"
  "votes_for (mempool_insert_vote pkh_of v m) h = votes_for m h @
     (if map_of (votes_of_each_identity m) (voter pkh_of v) = None \<and> h = superblock_hash v then [v] else [])"
  by (simp_all add: mempool_insert_vote_def Let_def update_conv' votes_for_def)

lemma insert_vote_wf:
  assumes "votes_ok pkh_of C m"
  shows "hm_wf (votes_of_each_identity (mempool_insert_vote pkh_of v m))"
    and "hm_wf (votes_on_each_superblock (mempool_insert_vote pkh_of v m))"
    and "map_of (votes_on_each_superblock (mempool_insert_vote pkh_of v m)) h \<noteq> Some []"
  using votes_okD(1,2) [OF assms] votes_okD(10) [OF assms, of h]
  by (simp_all add: mempool_insert_vote_def Let_def hm.invar_insert update_conv')

lemma votes_ok_insert_new:
  assumes ok: "votes_ok pkh_of C m" and k: "voter pkh_of v \<in> C - set (penalized_identities m)"
    and new: "map_of (votes_of_each_identity m) (voter pkh_of v) = None"
  shows "votes_ok pkh_of C (mempool_insert_vote pkh_of v m)"
proof -
  let ?m = "mempool_insert_vote pkh_of v m"
  note [simp] = votes_okD(3,5,8,9) [OF ok] insert_vote_wf [OF ok] insert_vote_facts
  have sup: "voters_for ?m h = voters_for m h \<union> (if h = superblock_hash v then {voter pkh_of v} else {})" for h
    using new by (auto simp: voters_for_def)
  have "voter pkh_of v \<notin> voters_for m h" for h
    using new by (simp add: voters_for_def)
  then show ?thesis
    using new k votes_okD(4,6) [OF ok]
    by (intro votes_okI) (auto simp: sup split: if_splits dest: votes_okD(7) [OF ok])
qed

lemma votes_ok_insert_again:
  assumes ok: "votes_ok pkh_of C m" and old: "map_of (votes_of_each_identity m) (voter pkh_of v) = Some w"
    and same: "superblock_hash v = superblock_hash w"
  shows "votes_ok pkh_of C (mempool_insert_vote pkh_of v m)"
proof -
  note [simp] = votes_okD(3,5,8,9) [OF ok] insert_vote_wf [OF ok] insert_vote_facts
  have sup: "voters_for (mempool_insert_vote pkh_of v m) h = voters_for m h" for h
    using old same by (auto simp: voters_for_def)
  show ?thesis
    using old votes_okD(4,6) [OF ok]
    by (intro votes_okI) (auto simp: sup split: if_splits dest: votes_okD(7) [OF ok])
qed

lemma override_vote_Some:
  assumes ok: "votes_ok pkh_of C m" and old: "map_of (votes_of_each_identity m) k = Some old"
    and ov: "override_vote k m = Some m'"
  shows "map_of (votes_of_each_identity m') = (map_of (votes_of_each_identity m))(k := None)"
    and "penalized_identities m' = List.insert k (penalized_identities m)"
    and "hm_wf (votes_of_each_identity m')" and "hm_wf (votes_on_each_superblock m')"
    and "mset (votes_for m h) = (if h = superblock_hash old then add_mset old (mset (votes_for m' h)) else mset (votes_for m' h))"
    and "map_of (votes_on_each_superblock m') h \<noteq> Some []"
    and "received_votes m' = received_votes m"
proof -
  let ?h = "superblock_hash old"
  obtain vs pos where vs: "map_of (votes_on_each_superblock m) ?h = Some vs" and pos: "position (\<lambda>x. x = old) vs = Some pos"
    and m': "m' = m\<lparr>votes_of_each_identity := AList.delete k (votes_of_each_identity m),
          votes_on_each_superblock := (if swap_remove pos vs = [] then AList.delete ?h (votes_on_each_superblock m)
              else AList.update ?h (swap_remove pos vs) (votes_on_each_superblock m)),
          penalized_identities := List.insert k (penalized_identities m)\<rparr>"
    using ov old by (auto simp: override_vote_def Let_def split: option.splits)
  have p: "pos < length vs" "vs ! pos = old"
    using position_Some [OF pos] by auto
  show "map_of (votes_of_each_identity m') = (map_of (votes_of_each_identity m))(k := None)"
    "penalized_identities m' = List.insert k (penalized_identities m)" "received_votes m' = received_votes m"
    by (simp_all add: m' delete_conv')
  show "hm_wf (votes_of_each_identity m')" "hm_wf (votes_on_each_superblock m')"
    using votes_okD(1,2) [OF ok] by (simp_all add: m' hm.invar_insert hm.invar_remove)
  show "mset (votes_for m h) = (if h = ?h then add_mset old (mset (votes_for m' h)) else mset (votes_for m' h))"
    using vs mset_swap_remove [OF p(1)] p(2) by (auto simp: votes_for_def m' delete_conv' update_conv')
  show "map_of (votes_on_each_superblock m') h \<noteq> Some []"
    using votes_okD(10) [OF ok] by (auto simp: m' delete_conv' update_conv')
qed

lemma votes_ok_override:
  assumes ok: "votes_ok pkh_of C m" and k: "k \<in> C" and ov: "override_vote k m = Some m'"
  shows "votes_ok pkh_of C m'"
proof (cases "map_of (votes_of_each_identity m) k")
  case None
  then have "m' = m\<lparr>penalized_identities := List.insert k (penalized_identities m)\<rparr>"
    using ov by (simp add: override_vote_def)
  then show ?thesis
    using None k ok by (auto simp: votes_ok_def votes_for_def voters_for_def)
next
  case (Some old)
  note o = override_vote_Some [OF ok Some ov]
  have vold: "voter pkh_of old = k" using votes_okD(7) [OF ok Some] .
  have sup: "voters_for m' h = voters_for m h - {k}" for h
    by (auto simp: voters_for_def o)
  have vm: "mset (map (voter pkh_of) (votes_for m h)) =
      (if h = superblock_hash old then add_mset k (mset (map (voter pkh_of) (votes_for m' h)))
       else mset (map (voter pkh_of) (votes_for m' h)))" for h
    using o(5) [of h] vold by (simp split: if_splits)
  have d: "distinct (map (voter pkh_of) (votes_for m' h))" for h
    using vm [of h] votes_okD(8) [OF ok, of h]
    by (metis distinct.simps(2) mset.simps(2) mset_eq_imp_distinct_iff)
  have "voter pkh_of ` set (votes_for m' h) = voters_for m h - {k}" for h
  proof (cases "h = superblock_hash old")
    case True
    then have "distinct (k # map (voter pkh_of) (votes_for m' h))"
        "set (k # map (voter pkh_of) (votes_for m' h)) = voters_for m h"
      using vm [of h] votes_okD(8,9) [OF ok, of h]
      by (metis mset.simps(2) mset_eq_imp_distinct_iff, metis mset.simps(2) mset_eq_setD set_map)
    then show ?thesis by auto
  next
    case False
    then have "set (map (voter pkh_of) (votes_for m' h)) = voters_for m h" and "k \<notin> voters_for m h"
      using vm [of h] votes_okD(9) [OF ok, of h] Some by (metis mset_eq_setD set_map, simp add: voters_for_def)
    then show ?thesis by simp
  qed
  then show ?thesis
    using k votes_okD(3,4,5,6,7) [OF ok] o(3,4,6) d
    by (intro votes_okI) (auto simp: o(1,2) sup split: if_splits)
qed

subsection \<open>Steps\<close>

definition state_ok :: "(u8 list \<Rightarrow> pkh) \<Rightarrow> superblock_state \<Rightarrow> bool" where
  "state_ok pkh_of st \<longleftrightarrow> votes_ok pkh_of (set (signing_committee st)) (mempool st)"

lemma override_vote_received: "override_vote k m = Some m' \<Longrightarrow> received_votes m' = received_votes m"
  by (auto simp: override_vote_def Let_def split: option.splits)

lemma insert_vote_ok:
  assumes ok: "state_ok pkh_of st" and k: "voter pkh_of v \<in> set (signing_committee st)"
    and ins: "insert_vote pkh_of v st = Some (r, st')"
  shows "state_ok pkh_of st'" and "signing_committee st' = signing_committee st"
    and "received_votes (mempool st') = received_votes (mempool st)"
proof -
  note ok' = ok [unfolded state_ok_def]
  show "signing_committee st' = signing_committee st"
    using ins by (auto simp: insert_vote_def split: if_splits)
  show "received_votes (mempool st') = received_votes (mempool st)"
  proof (cases "check_double_vote (voter pkh_of v) (superblock_hash v) (mempool st)")
    case True
    then have "override_vote (voter pkh_of v) (mempool st) = Some (mempool st')"
      using ins by (auto simp: insert_vote_def)
    then show ?thesis
      by (rule override_vote_received)
  next
    case False
    then show ?thesis
      using ins by (auto simp: insert_vote_def mempool_insert_vote_def Let_def)
  qed
  show "state_ok pkh_of st'"
  proof (cases "check_double_vote (voter pkh_of v) (superblock_hash v) (mempool st)")
    case True
    then obtain m where "override_vote (voter pkh_of v) (mempool st) = Some m" "st' = st\<lparr>mempool := m\<rparr>"
      using ins by (auto simp: insert_vote_def)
    then show ?thesis
      using votes_ok_override [OF ok' k] by (simp add: state_ok_def)
  next
    case False
    then have st': "st' = st\<lparr>mempool := mempool_insert_vote pkh_of v (mempool st)\<rparr>"
      and fresh: "voter pkh_of v \<notin> set (penalized_identities (mempool st))"
      and same: "map_of (votes_of_each_identity (mempool st)) (voter pkh_of v) = Some w \<Longrightarrow>
         superblock_hash v = superblock_hash w" for w
      using ins by (auto simp: insert_vote_def check_double_vote_def split: if_splits)
    then show ?thesis
      using votes_ok_insert_new [OF ok'] votes_ok_insert_again [OF ok'] k
      by (cases "map_of (votes_of_each_identity (mempool st)) (voter pkh_of v)") (simp_all add: state_ok_def)
  qed
qed

lemma is_valid_True:
  "is_valid pkh_of v i st = Some True \<longleftrightarrow> superblock_index v = i \<and> voter pkh_of v \<in> set (signing_committee st)"
  by (auto simp: is_valid_def)

lemma state_ok_mempool_insert [simp]:
  "state_ok pkh_of (st\<lparr>mempool := mempool_insert v (mempool st)\<rparr>) \<longleftrightarrow> state_ok pkh_of st"
  by (simp add: state_ok_def mempool_insert_def)

lemma add_vote_cases:
  assumes "add_vote pkh_of v i st = Some (r, st')"
  obtains (seen) "v \<in> set (received_votes (mempool st))" "r = AlreadySeen" "st' = st"
  | (counted) "v \<notin> set (received_votes (mempool st))" "superblock_index v = i" "voter pkh_of v \<in> set (signing_committee st)"
      "insert_vote pkh_of v (st\<lparr>mempool := mempool_insert v (mempool st)\<rparr>) = Some (r, st')"
  | (ignored) "v \<notin> set (received_votes (mempool st))" "st' = st\<lparr>mempool := mempool_insert v (mempool st)\<rparr>"
proof -
  let ?st = "st\<lparr>mempool := mempool_insert v (mempool st)\<rparr>"
  show thesis
  proof (cases "mempool_contains v (mempool st)")
    case True
    then have "v \<in> set (received_votes (mempool st)) \<and> AlreadySeen = r \<and> st = st'"
      using assms by (simp add: add_vote_def mempool_contains_def)
    then show ?thesis using seen by blast
  next
    case False
    then have nin: "v \<notin> set (received_votes (mempool st))" by (simp add: mempool_contains_def)
    show ?thesis
    proof (cases "is_valid pkh_of v i ?st = Some True")
      case True
      then have "superblock_index v = i" "voter pkh_of v \<in> set (signing_committee st)"
        by (simp_all add: is_valid_True)
      moreover have "insert_vote pkh_of v ?st = Some (r, st')"
        using assms False True by (simp add: add_vote_def)
      ultimately show ?thesis using counted nin by blast
    next
      case nv: False
      have "st' = ?st"
        using assms False nv by (auto simp: add_vote_def Let_def split: option.splits bool.splits)
      then show ?thesis using ignored nin by blast
    qed
  qed
qed

lemma add_vote_ok:
  assumes ok: "state_ok pkh_of st" and add: "add_vote pkh_of v i st = Some (r, st')"
  shows "state_ok pkh_of st' \<and> signing_committee st' = signing_committee st"
  using add
proof (cases rule: add_vote_cases)
  case counted
  then show ?thesis
    using insert_vote_ok [OF _ _ counted(4)] ok by simp
qed (simp_all add: ok)

lemma reinsert_votes_ok:
  "state_ok pkh_of st \<Longrightarrow> reinsert_votes pkh_of i vs st = Some st' \<Longrightarrow> state_ok pkh_of st'"
proof (induction vs arbitrary: st)
  case (Cons v vs)
  then show ?case
    using insert_vote_ok(1) [OF Cons.prems(1)] by (auto simp: is_valid_True split: if_splits option.splits)
qed simp

lemma build_superblock_ok:
  assumes "build_superblock c bhs ids n i lb keys sync e st = Some (sb, st')"
  shows "state_ok (c_pkh_of c) st'"
proof -
  have fresh: "state_ok (c_pkh_of c) st'"
    if "reinsert_votes (c_pkh_of c) i vs st0 = Some st'" "mempool st0 = empty_mempool" for st0 vs
    using that reinsert_votes_ok votes_ok_empty by (metis state_ok_def)
  show ?thesis
    using assms by (auto simp: build_superblock_def Let_def clear_and_remove_votes_def split: option.splits intro: fresh)
qed

datatype sb_op =
    AddVote superblock_vote u32
  | Build "block_header list" ars_identities u32 u32 hash alt_keys "superblock option" epoch

fun sb_step :: "sb_context \<Rightarrow> sb_op \<Rightarrow> superblock_state \<Rightarrow> superblock_state option" where
  "sb_step c (AddVote v i) st = map_option snd (add_vote (c_pkh_of c) v i st)"
| "sb_step c (Build bhs ids n i lb keys sync e) st =
     map_option snd (build_superblock c bhs ids n i lb keys sync e st)"

lemma sb_step_ok: "state_ok (c_pkh_of c) st \<Longrightarrow> sb_step c x st = Some st' \<Longrightarrow> state_ok (c_pkh_of c) st'"
  by (cases x) (auto dest: add_vote_ok build_superblock_ok)

lemma run_ops_invariant:
  assumes "\<And>x s s'. x \<in> set xs \<Longrightarrow> I s \<Longrightarrow> step x s = Some s' \<Longrightarrow> I s'" and "I s" and "run_ops step xs s = Some s'"
  shows "I s'"
  using assms
proof (induction xs arbitrary: s)
  case (Cons x xs)
  from Cons.prems(3) obtain t where "step x s = Some t" "run_ops step xs t = Some s'"
    by (auto split: option.splits)
  with Cons.IH [of t] Cons.prems(1) [of x s t] Cons.prems(1,2) show ?case
    by (metis list.set_intros)
qed simp

lemma state_ok_new: "state_ok pkh_of (new_superblock_state g ks)"
  by (simp add: state_ok_def new_superblock_state_def votes_ok_empty)

lemma state_ok_run:
  "run_ops (sb_step c) xs (new_superblock_state g ks) = Some st \<Longrightarrow> state_ok (c_pkh_of c) st"
  by (rule run_ops_invariant [where I = "state_ok (c_pkh_of c)" and step = "sb_step c" and s = "new_superblock_state g ks" and xs = xs])
    (simp_all add: sb_step_ok state_ok_new)

subsection \<open>Counters\<close>

lemma length_votes_for: "votes_ok pkh_of C m \<Longrightarrow> length (votes_for m h) = card (voters_for m h)"
  using votes_okD(8,9) [of pkh_of C m h] by (metis distinct_card length_map set_map)

lemma length_hm: "hm_wf m \<Longrightarrow> length m = card (dom (map_of m))"
  by (metis hm_wf_def dom_map_of_conv_image_fst distinct_card length_map set_map)

lemma votes_on_cover:
  assumes "votes_ok pkh_of C m"
  shows "map_of (votes_of_each_identity m) k = Some v \<Longrightarrow> superblock_hash v \<in> fst ` set (votes_on_each_superblock m)"
proof -
  assume "map_of (votes_of_each_identity m) k = Some v"
  then have "votes_for m (superblock_hash v) \<noteq> []"
    using votes_okD(9) [OF assms, of "superblock_hash v"] by (auto simp: voters_for_def)
  then show ?thesis
    by (force simp: votes_for_def split: option.splits dest: map_of_SomeD)
qed

lemma sum_votes:
  assumes ok: "votes_ok pkh_of C m"
  shows "sum_list (map (length \<circ> snd) (votes_on_each_superblock m)) = length (votes_of_each_identity m)"
proof -
  let ?on = "votes_on_each_superblock m" and ?d = "dom (map_of (votes_of_each_identity m))"
  let ?g = "\<lambda>k. superblock_hash (the (map_of (votes_of_each_identity m) k))"
  have d: "distinct (map fst ?on)" using votes_okD(2) [OF ok] by (simp add: hm_wf_def)
  have "length (snd x) = card (voters_for m (fst x))" if "x \<in> set ?on" for x
    using map_of_eq_Some_iff [OF d, of "fst x" "snd x"] that length_votes_for [OF ok, of "fst x"]
    by (simp add: votes_for_def)
  then have "sum_list (map (length \<circ> snd) ?on) = sum_list (map (\<lambda>h. card (voters_for m h)) (map fst ?on))"
    unfolding map_map by (intro arg_cong [where f = sum_list] map_cong) simp_all
  also have "\<dots> = (\<Sum>h \<in> fst ` set ?on. card (voters_for m h))"
    using sum_list_distinct_conv_sum_set [OF d, of "\<lambda>h. card (voters_for m h)"] by simp
  also have "\<dots> = (\<Sum>h \<in> fst ` set ?on. \<Sum>k \<in> {k \<in> ?d. ?g k = h}. 1)"
    by (intro sum.cong refl) (auto simp: voters_for_def intro!: arg_cong [where f = card])
  also have "\<dots> = (\<Sum>k \<in> ?d. 1)"
    using votes_on_cover [OF ok] by (intro sum.group) (auto simp: finite_dom_map_of)
  also have "\<dots> = length (votes_of_each_identity m)"
    using length_hm [OF votes_okD(1) [OF ok]] by simp
  finally show ?thesis .
qed

lemma votes_bounded:
  assumes ok: "votes_ok pkh_of (set C) m"
  shows "length (votes_of_each_identity m) + length (penalized_identities m) \<le> length C"
proof -
  let ?d = "dom (map_of (votes_of_each_identity m))" and ?p = "set (penalized_identities m)"
  have "card ?d + card ?p = card (?d \<union> ?p)"
    using votes_okD(6) [OF ok] by (intro card_Un_disjoint [symmetric]) (auto simp: finite_dom_map_of)
  also have "\<dots> \<le> card (set C)"
    using votes_okD(4,5) [OF ok] by (intro card_mono) auto
  also have "\<dots> \<le> length C" by (rule card_length)
  finally show ?thesis
    using length_hm [OF votes_okD(1) [OF ok]] votes_okD(3) [OF ok] by (simp add: distinct_card)
qed

subsection \<open>When a vote can be taken back\<close>

definition votes_from :: "superblock_vote set \<Rightarrow> votes_mempool \<Rightarrow> bool" where
  "votes_from U m \<longleftrightarrow> set (received_votes m) \<subseteq> U \<and> ran (map_of (votes_of_each_identity m)) \<subseteq> U
     \<and> (\<forall>h. set (votes_for m h) \<subseteq> U \<and> (\<forall>v \<in> set (votes_for m h). superblock_hash v = h))"

text \<open>An identity signs at most one vote for a superblock.\<close>

definition unique_votes :: "(u8 list \<Rightarrow> pkh) \<Rightarrow> superblock_vote set \<Rightarrow> bool" where
  "unique_votes pkh_of U \<longleftrightarrow>
     (\<forall>v \<in> U. \<forall>w \<in> U. voter pkh_of v = voter pkh_of w \<and> superblock_hash v = superblock_hash w \<longrightarrow> v = w)"

lemma override_vote_panics_iff:
  assumes "map_of (votes_of_each_identity m) k = Some old"
  shows "override_vote k m = None \<longleftrightarrow> old \<notin> set (votes_for m (superblock_hash old))"
proof (cases "map_of (votes_on_each_superblock m) (superblock_hash old)")
  case None
  then show ?thesis using assms by (simp add: override_vote_def votes_for_def)
next
  case (Some vs)
  then show ?thesis
    using assms position_None [of "\<lambda>x. x = old" vs]
    by (cases "position (\<lambda>x. x = old) vs") (auto simp: override_vote_def votes_for_def Let_def)
qed

lemma override_vote_returns:
  assumes ok: "votes_ok pkh_of C m" and from_U: "votes_from U m" and u: "unique_votes pkh_of U"
  shows "override_vote k m \<noteq> None"
proof (cases "map_of (votes_of_each_identity m) k")
  case None
  then show ?thesis by (simp add: override_vote_def)
next
  case (Some old)
  have "k \<in> voters_for m (superblock_hash old)" using Some by (simp add: voters_for_def)
  then obtain v where v: "v \<in> set (votes_for m (superblock_hash old))" "voter pkh_of v = k"
    using votes_okD(9) [OF ok, of "superblock_hash old"] by (metis imageE)
  moreover have "old \<in> U" "v \<in> U" "superblock_hash v = superblock_hash old"
    using from_U Some v(1) by (auto simp: votes_from_def ran_def)
  ultimately have "v = old"
    using u votes_okD(7) [OF ok Some] by (metis unique_votes_def)
  then show ?thesis
    using v(1) override_vote_panics_iff [OF Some] by simp
qed

lemma votes_from_insert_vote:
  assumes ok: "state_ok pkh_of st" and U: "votes_from U (mempool st)" "v \<in> U"
    and ins: "insert_vote pkh_of v st = Some (r, st')"
  shows "votes_from U (mempool st')"
proof (cases "check_double_vote (voter pkh_of v) (superblock_hash v) (mempool st)")
  case True
  then have ov: "override_vote (voter pkh_of v) (mempool st) = Some (mempool st')"
    using ins by (auto simp: insert_vote_def)
  show ?thesis
  proof (cases "map_of (votes_of_each_identity (mempool st)) (voter pkh_of v)")
    case None
    then have "mempool st' = (mempool st)\<lparr>penalized_identities :=
        List.insert (voter pkh_of v) (penalized_identities (mempool st))\<rparr>"
      using ov by (simp add: override_vote_def)
    then show ?thesis
      using U(1) by (simp add: votes_from_def votes_for_def)
  next
    case (Some old)
    note o = override_vote_Some [OF ok [unfolded state_ok_def] Some ov]
    have sub: "set (votes_for (mempool st') h) \<subseteq> set (votes_for (mempool st) h)" for h
      using arg_cong [OF o(5) [of h], of set_mset] by (simp split: if_splits) blast
    have "ran (map_of (votes_of_each_identity (mempool st'))) \<subseteq> ran (map_of (votes_of_each_identity (mempool st)))"
      by (auto simp: o(1) ran_def)
    then show ?thesis
      using U(1) sub unfolding votes_from_def o(7) by blast
  qed
next
  case False
  then have "mempool st' = mempool_insert_vote pkh_of v (mempool st)"
    using ins by (auto simp: insert_vote_def)
  then show ?thesis
    using U by (auto simp: votes_from_def insert_vote_facts ran_def split: if_splits)
qed

definition sb_inv :: "(u8 list \<Rightarrow> pkh) \<Rightarrow> superblock_vote set \<Rightarrow> superblock_state \<Rightarrow> bool" where
  "sb_inv pkh_of U st \<longleftrightarrow> state_ok pkh_of st \<and> votes_from U (mempool st)"

lemma votes_from_mempool_insert: "votes_from U m \<Longrightarrow> votes_from (insert v U) (mempool_insert v m)"
  by (auto simp: votes_from_def)

lemma sb_inv_add_vote:
  assumes inv: "sb_inv pkh_of U st" and v: "v \<in> U" and add: "add_vote pkh_of v i st = Some (r, st')"
  shows "sb_inv pkh_of U st'"
proof -
  let ?st = "st\<lparr>mempool := mempool_insert v (mempool st)\<rparr>"
  have st: "state_ok pkh_of ?st" "votes_from U (mempool ?st)"
    using inv votes_from_mempool_insert [of U "mempool st" v] v by (simp_all add: sb_inv_def insert_absorb)
  show ?thesis
    using add
  proof (cases rule: add_vote_cases)
    case counted
    then show ?thesis
      using add_vote_ok [OF _ add] votes_from_insert_vote [OF st v counted(4)] inv by (simp add: sb_inv_def)
  qed (use inv st in \<open>simp_all add: sb_inv_def\<close>)
qed

lemma sb_inv_reinsert:
  "sb_inv pkh_of U st \<Longrightarrow> set vs \<subseteq> U \<Longrightarrow> reinsert_votes pkh_of i vs st = Some st' \<Longrightarrow> sb_inv pkh_of U st'"
proof (induction vs arbitrary: st)
  case (Cons v vs)
  then show ?case
    using insert_vote_ok(1) [of pkh_of st v] votes_from_insert_vote [of pkh_of st U v]
    by (auto simp: sb_inv_def is_valid_True split: if_splits option.splits)
qed simp

lemma sb_inv_build:
  assumes inv: "sb_inv (c_pkh_of c) U st" and build: "build_superblock c bhs ids n i lb keys sync e st = Some (sb, st')"
  shows "sb_inv (c_pkh_of c) U st'"
proof -
  have fresh: "sb_inv (c_pkh_of c) U st'"
    if "reinsert_votes (c_pkh_of c) i (received_votes (mempool (update_ars_identities ids st))) st0 = Some st'"
      "mempool st0 = empty_mempool" for st0
  proof (rule sb_inv_reinsert [OF _ _ that(1)])
    show "sb_inv (c_pkh_of c) U st0"
      using that(2) by (simp add: sb_inv_def state_ok_def votes_ok_empty) (simp add: votes_from_def empty_mempool_def votes_for_def)
    show "set (received_votes (mempool (update_ars_identities ids st))) \<subseteq> U"
      using inv by (simp add: sb_inv_def votes_from_def update_ars_identities_def)
  qed
  show ?thesis
    using build by (auto simp: build_superblock_def Let_def clear_and_remove_votes_def split: option.splits intro: fresh)
qed

definition votes_sent :: "sb_op list \<Rightarrow> superblock_vote set" where
  "votes_sent xs = {v. \<exists>i. AddVote v i \<in> set xs}"

lemma sb_inv_run:
  assumes run: "run_ops (sb_step c) xs (new_superblock_state g ks) = Some st"
  shows "sb_inv (c_pkh_of c) (votes_sent xs) st"
proof (rule run_ops_invariant [where I = "sb_inv (c_pkh_of c) (votes_sent xs)", OF _ _ run])
  show "sb_inv (c_pkh_of c) (votes_sent xs) (new_superblock_state g ks)"
    using state_ok_new [of "c_pkh_of c" g ks]
    by (simp add: sb_inv_def new_superblock_state_def votes_from_def empty_mempool_def votes_for_def)
  fix x s s'
  assume x: "x \<in> set xs" and s: "sb_inv (c_pkh_of c) (votes_sent xs) s" "sb_step c x s = Some s'"
  show "sb_inv (c_pkh_of c) (votes_sent xs) s'"
  proof (cases x)
    case (AddVote v i)
    then have "v \<in> votes_sent xs" using x by (auto simp: votes_sent_def)
    then show ?thesis using s AddVote sb_inv_add_vote [OF s(1)] by auto
  next
    case (Build bhs ids n i lb keys sync e)
    then show ?thesis using s sb_inv_build [OF s(1)] by auto
  qed
qed

lemma add_vote_returns:
  assumes inv: "sb_inv pkh_of U st" and u: "unique_votes pkh_of (insert v U)"
  shows "add_vote pkh_of v i st \<noteq> None"
proof -
  let ?st = "st\<lparr>mempool := mempool_insert v (mempool st)\<rparr>"
  have "votes_ok pkh_of (set (signing_committee st)) (mempool ?st)"
    using inv by (simp add: sb_inv_def state_ok_def mempool_insert_def)
  moreover have "votes_from (insert v U) (mempool ?st)"
    using inv by (simp add: sb_inv_def votes_from_mempool_insert)
  ultimately have "override_vote k (mempool ?st) \<noteq> None" for k
    using u by (rule override_vote_returns)
  then show ?thesis
    by (auto simp: add_vote_def insert_vote_def Let_def split: option.splits bool.splits)
qed

subsection \<open>A small committee\<close>

definition sample_vote :: "u8 \<Rightarrow> u8 \<Rightarrow> u8 \<Rightarrow> superblock_vote" where
  "sample_vote k h sig = \<lparr>bn256_signature = [], secp256k1_signature = \<lparr>ks_signature = [sig], ks_public_key = [k]\<rparr>,
     superblock_hash = [h], superblock_index = 0\<rparr>"

definition sample_pb :: pb_codec where
  "sample_pb = \<lparr>pb_vt_body = \<lambda>_. [], pb_dr_output = \<lambda>_. [], pb_dr_body = \<lambda>_. [], pb_commit_body = \<lambda>_. [],
     pb_reveal_body = \<lambda>_. [], pb_tally = \<lambda>_. [], pb_mint = \<lambda>_. [], pb_stake_body = \<lambda>_. [],
     pb_unstake_body = \<lambda>_. [], pb_header = \<lambda>_ _. []\<rparr>"

definition sample_context :: sb_context where
  "sample_context = \<lparr>c_sha256 = \<lambda>bs. take 32 (bs @ replicate 32 0), c_pb = sample_pb, c_pkh_of = id, c_to_uncompressed = id,
     c_parse_address = \<lambda>_. Some [0], c_env = Development, c_protocol = default_protocol_info\<rparr>"

definition sample_start :: superblock_state where
  "sample_start = new_superblock_state [9] [[1], [2], [3]]"

lemmas sample_simps = sample_vote_def sample_context_def sample_start_def new_superblock_state_def empty_mempool_def
  add_vote_def mempool_contains_def mempool_insert_def is_valid_def insert_vote_def check_double_vote_def voter_def
  mempool_insert_vote_def override_vote_def swap_remove_def Let_def


definition sample_double :: superblock_state where
  "sample_double = sample_start\<lparr>mempool :=
     \<lparr>penalized_identities = [[2]],
      received_votes = [sample_vote 2 8 0, sample_vote 2 7 0, sample_vote 1 7 0],
      votes_of_each_identity = [([1], sample_vote 1 7 0)],
      votes_on_each_superblock = [([7], [sample_vote 1 7 0])]\<rparr>\<rparr>"


section \<open>The verdict on consensus\<close>

lemma two_thirds_iff:
  assumes "n < 2 ^ 62"
  shows "two_thirds_consensus v (of_nat n) \<longleftrightarrow> 2 * n div 3 \<le> unat v"
proof -
  have "unat (of_nat n * 2 :: u64) = 2 * n"
    using assms by (subst unat_mult_nowrap) (simp_all add: unsigned_of_nat take_bit_nat_eq_self)
  then show ?thesis
    by (simp add: two_thirds_consensus_def word_le_nat_alt unat_div)
qed

lemma unat_of_length: "n < 2 ^ 62 \<Longrightarrow> m \<le> n \<Longrightarrow> unat (of_nat m :: u64) = m"
  by (simp add: unsigned_of_nat take_bit_nat_eq_self)

definition missing_votes :: "superblock_state \<Rightarrow> nat" where
  "missing_votes st = length (signing_committee st) - length (votes_of_each_identity (mempool st))
     - length (penalized_identities (mempool st))"

lemma card_voters_le:
  assumes "votes_ok pkh_of (set C) m"
  shows "card (voters_for m h) \<le> length (votes_of_each_identity m)"
proof -
  have "voters_for m h \<subseteq> dom (map_of (votes_of_each_identity m))" by (auto simp: voters_for_def)
  then have "card (voters_for m h) \<le> card (dom (map_of (votes_of_each_identity m)))"
    by (intro card_mono) (simp_all add: finite_dom_map_of)
  then show ?thesis using length_hm [OF votes_okD(1) [OF assms]] by simp
qed

text \<open>The verdict in terms of the voters for each superblock.\<close>

lemma has_consensus_verdict:
  assumes ok: "state_ok pkh_of st" and n: "length (signing_committee st) < 2 ^ 62" and ne: "signing_committee st \<noteq> []"
    and on: "votes_on_each_superblock (mempool st) \<noteq> []"
  obtains h where "\<And>h'. card (voters_for (mempool st) h') \<le> card (voters_for (mempool st) h)"
    and "has_consensus st =
      (if 2 * length (signing_committee st) div 3 \<le> card (voters_for (mempool st) h)
       then if h = hash_prev_block (current_superblock_beacon st) then SameAsLocal else Different h
       else if 2 * length (signing_committee st) div 3 \<le> card (voters_for (mempool st) h) + missing_votes st
       then UnknownConsensus else NoConsensus)"
proof -
  let ?m = "mempool st" and ?n = "length (signing_committee st)"
  note ok' = ok [unfolded state_ok_def]
  have d: "distinct (map fst (votes_on_each_superblock ?m))" using votes_okD(2) [OF ok'] by (simp add: hm_wf_def)
  have le: "card (voters_for ?m h) \<le> ?n" for h
    using card_voters_le [OF ok', of h] votes_bounded [OF ok'] by linarith
  have entry: "length vs = card (voters_for ?m h)" if "(h, vs) \<in> set (votes_on_each_superblock ?m)" for h vs
    using that d length_votes_for [OF ok', of h] by (simp add: votes_for_def)
  obtain h w where top: "most_voted_superblock ?m = Some (h, w)"
    using on by (cases "most_voted_superblock ?m") (auto simp: most_voted_superblock_def)
  then obtain vs where hv: "(h, vs) \<in> set (votes_on_each_superblock ?m)" "w = of_nat (length vs)"
    using max_by_key_Some(1) [OF top [unfolded most_voted_superblock_def]] by auto
  then have w: "unat w = card (voters_for ?m h)"
    using entry unat_of_length [OF n le [of h]] by simp
  have top_card: "card (voters_for ?m h') \<le> card (voters_for ?m h)" for h'
  proof (cases "map_of (votes_on_each_superblock ?m) h'")
    case None
    then show ?thesis using length_votes_for [OF ok', of h'] by (simp add: votes_for_def)
  next
    case (Some vs')
    then have in_on: "(h', vs') \<in> set (votes_on_each_superblock ?m)" by (rule map_of_SomeD)
    then have "of_nat (length vs') \<le> w"
      using max_by_key_Some(2) [OF top [unfolded most_voted_superblock_def], of "(h', of_nat (length vs'))"] by force
    then show ?thesis
      using entry [OF in_on] w unat_of_length [OF n le [of h']] by (simp add: word_le_nat_alt)
  qed
  have b: "length (votes_of_each_identity ?m) + length (penalized_identities ?m) \<le> ?n"
    using votes_bounded [OF ok'] .
  let ?missing = "of_nat ?n - valid_votes_counter ?m - invalid_votes_counter ?m :: u64"
  have "unat (of_nat ?n - valid_votes_counter ?m) = ?n - length (votes_of_each_identity ?m)"
    using b n by (simp add: valid_votes_counter_def unat_sub_nowrap word_le_nat_alt unat_of_length [OF n])
  then have miss: "unat ?missing = missing_votes st"
    using b n by (simp add: invalid_votes_counter_def missing_votes_def unat_sub_nowrap word_le_nat_alt unat_of_length [OF n])
  have "card (voters_for ?m h) + missing_votes st \<le> ?n"
    using card_voters_le [OF ok', of h] b by (simp add: missing_votes_def)
  then have "unat (w + ?missing) = card (voters_for ?m h) + missing_votes st"
    using n by (subst unat_add_nowrap) (simp_all add: w miss)
  then show thesis
    using that [of h] top_card top ne
    by (simp add: has_consensus_def Let_def two_thirds_iff [OF n] w)
qed

lemma has_consensus_no_votes:
  "signing_committee st \<noteq> [] \<Longrightarrow> votes_on_each_superblock (mempool st) = [] \<Longrightarrow> has_consensus st = UnknownConsensus"
  by (simp add: has_consensus_def most_voted_superblock_def max_by_key_def Let_def)

text \<open>A node decides for a superblock when it finds consensus on it.\<close>

definition decides :: "superblock_state \<Rightarrow> hash \<Rightarrow> bool" where
  "decides st h \<longleftrightarrow> signing_committee st \<noteq> [] \<and>
     (has_consensus st = Different h \<or> has_consensus st = SameAsLocal \<and> h = hash_prev_block (current_superblock_beacon st))"

lemma decides_voters:
  assumes ok: "state_ok pkh_of st" and n: "length (signing_committee st) < 2 ^ 62" and d: "decides st h"
  shows "2 * length (signing_committee st) div 3 \<le> card (voters_for (mempool st) h)"
proof (cases "votes_on_each_superblock (mempool st) = []")
  case True
  then show ?thesis using d has_consensus_no_votes [of st] by (simp add: decides_def)
next
  case False
  obtain h0 where "has_consensus st =
      (if 2 * length (signing_committee st) div 3 \<le> card (voters_for (mempool st) h0)
       then if h0 = hash_prev_block (current_superblock_beacon st) then SameAsLocal else Different h0
       else if 2 * length (signing_committee st) div 3 \<le> card (voters_for (mempool st) h0) + missing_votes st
       then UnknownConsensus else NoConsensus)"
    using has_consensus_verdict [OF ok n _ False] d by (auto simp: decides_def)
  then show ?thesis using d by (auto simp: decides_def split: if_splits)
qed

text \<open>Claim C3: two nodes with the same signing committee of \<open>n\<close> members that find consensus on
  different superblocks prove that members voted for both: at least \<open>2 * \<lfloor>2n/3\<rfloor> - n\<close> members have a
  vote for one superblock counted by the first node and a vote for the other counted by the second,
  and there is such a member when \<open>n\<close> is 3 or at least 5. The rule asks for \<open>\<lfloor>2n/3\<rfloor>\<close> votes, not for
  more than two thirds as its comment says: with 4 members two votes are enough, with one member none.\<close>

theorem conflicting_consensus_needs_equivocation:
  assumes "run_ops (sb_step c) xs (new_superblock_state g ks) = Some st"
    and "run_ops (sb_step c') xs' (new_superblock_state g' ks') = Some st'"
    and "mset (signing_committee st) = mset (signing_committee st')" and "length (signing_committee st) = n" and "n < 2 ^ 62"
    and "decides st h" and "decides st' h'" and "h \<noteq> h'"
  shows "(\<exists>K \<subseteq> set (signing_committee st). 2 * (2 * n div 3) \<le> n + card K
       \<and> (\<forall>k \<in> K. \<exists>v v'. map_of (votes_of_each_identity (mempool st)) k = Some v \<and> superblock_hash v = h
             \<and> map_of (votes_of_each_identity (mempool st')) k = Some v' \<and> superblock_hash v' = h')
       \<and> (n = 3 \<or> 5 \<le> n \<longrightarrow> K \<noteq> {}))
     \<and> (\<forall>w. two_thirds_consensus w (of_nat n) \<longleftrightarrow> 2 * n div 3 \<le> unat w)
     \<and> two_thirds_consensus 2 4 \<and> two_thirds_consensus 0 1"
proof -
  let ?C = "set (signing_committee st)" and ?A = "voters_for (mempool st) h" and ?B = "voters_for (mempool st') h'"
  have ok: "state_ok (c_pkh_of c) st" "state_ok (c_pkh_of c') st'"
    using assms(1,2) by (auto intro: state_ok_run)
  have n': "length (signing_committee st') = n" and C': "set (signing_committee st') = ?C"
    using assms(3,4) by (metis size_mset, metis set_mset_mset)
  have "2 * n div 3 \<le> card ?A" "2 * n div 3 \<le> card ?B"
    using decides_voters [OF ok(1) _ assms(6)] decides_voters [OF ok(2) _ assms(7)] assms(4,5) n' by simp_all
  moreover have sub: "?A \<subseteq> ?C" "?B \<subseteq> ?C"
    using ok votes_okD(4) C' unfolding state_ok_def voters_for_def by blast+
  moreover have "card ?A + card ?B = card (?A \<union> ?B) + card (?A \<inter> ?B)"
    using sub by (intro card_Un_Int) (auto intro: finite_subset)
  moreover have "card (?A \<union> ?B) \<le> card ?C" using sub by (intro card_mono) auto
  moreover have "card ?C \<le> n" using assms(4) by (metis card_length)
  ultimately have "2 * (2 * n div 3) \<le> n + card (?A \<inter> ?B)" by linarith
  moreover have "n < 2 * (2 * n div 3)" if "n = 3 \<or> 5 \<le> n" using that by auto
  ultimately have "?A \<inter> ?B \<subseteq> ?C \<and> 2 * (2 * n div 3) \<le> n + card (?A \<inter> ?B)
      \<and> (\<forall>k \<in> ?A \<inter> ?B. \<exists>v v'. map_of (votes_of_each_identity (mempool st)) k = Some v \<and> superblock_hash v = h
             \<and> map_of (votes_of_each_identity (mempool st')) k = Some v' \<and> superblock_hash v' = h')
      \<and> (n = 3 \<or> 5 \<le> n \<longrightarrow> ?A \<inter> ?B \<noteq> {})"
    using sub by (fastforce simp: voters_for_def)
  then have "\<exists>K \<subseteq> ?C. 2 * (2 * n div 3) \<le> n + card K
       \<and> (\<forall>k \<in> K. \<exists>v v'. map_of (votes_of_each_identity (mempool st)) k = Some v \<and> superblock_hash v = h
             \<and> map_of (votes_of_each_identity (mempool st')) k = Some v' \<and> superblock_hash v' = h')
       \<and> (n = 3 \<or> 5 \<le> n \<longrightarrow> K \<noteq> {})"
    by (intro exI [of _ "?A \<inter> ?B"])
  then show ?thesis
    using two_thirds_iff [OF assms(5)] by (simp add: two_thirds_consensus_def)
qed

definition sample_node :: "(u8 \<times> u8) list \<Rightarrow> superblock_state option" where
  "sample_node vs = run_ops (sb_step sample_context) (map (\<lambda>(k, h). AddVote (sample_vote k h 0) 0) vs) sample_start"

definition sample_node_1 :: superblock_state where
  "sample_node_1 = sample_start\<lparr>mempool :=
     \<lparr>penalized_identities = [], received_votes = [sample_vote 2 7 0, sample_vote 1 7 0],
      votes_of_each_identity = [([1], sample_vote 1 7 0), ([2], sample_vote 2 7 0)],
      votes_on_each_superblock = [([7], [sample_vote 1 7 0, sample_vote 2 7 0])]\<rparr>\<rparr>"

definition sample_node_2 :: superblock_state where
  "sample_node_2 = sample_start\<lparr>mempool :=
     \<lparr>penalized_identities = [], received_votes = [sample_vote 3 8 0, sample_vote 2 8 0],
      votes_of_each_identity = [([2], sample_vote 2 8 0), ([3], sample_vote 3 8 0)],
      votes_on_each_superblock = [([8], [sample_vote 2 8 0, sample_vote 3 8 0])]\<rparr>\<rparr>"

theorem conflicting_consensus_needs_equivocation_witness:
  "sample_node [(1, 7), (2, 7)] = Some sample_node_1 \<and> sample_node [(2, 8), (3, 8)] = Some sample_node_2
   \<and> decides sample_node_1 [7] \<and> decides sample_node_2 [8]
   \<and> (\<exists>k v v'. map_of (votes_of_each_identity (mempool sample_node_1)) k = Some v \<and> superblock_hash v = [7]
         \<and> map_of (votes_of_each_identity (mempool sample_node_2)) k = Some v' \<and> superblock_hash v' = [8])"
proof -
  have r1: "run_ops (sb_step sample_context) [AddVote (sample_vote 1 7 0) 0, AddVote (sample_vote 2 7 0) 0]
      (new_superblock_state [9] [[1], [2], [3]]) = Some sample_node_1"
    by (simp add: sample_simps sample_node_1_def)
  have r2: "run_ops (sb_step sample_context) [AddVote (sample_vote 2 8 0) 0, AddVote (sample_vote 3 8 0) 0]
      (new_superblock_state [9] [[1], [2], [3]]) = Some sample_node_2"
    by (simp add: sample_simps sample_node_2_def)
  have C: "signing_committee sample_node_1 = [[1], [2], [3]]" "signing_committee sample_node_2 = [[1], [2], [3]]"
    by (simp_all add: sample_node_1_def sample_node_2_def sample_start_def new_superblock_state_def)
  have d: "decides sample_node_1 [7]" "decides sample_node_2 [8]"
    by (simp_all add: decides_def has_consensus_def sample_node_1_def sample_node_2_def sample_start_def
      new_superblock_state_def most_voted_superblock_def max_by_key_def two_thirds_consensus_def Let_def)
  have "mset (signing_committee sample_node_1) = mset (signing_committee sample_node_2)"
    "length (signing_committee sample_node_1) = 3" "(3 :: nat) < 2 ^ 62"
    by (simp_all add: C)
  note conflict = conflicting_consensus_needs_equivocation [OF r1 r2 this d]
  have "\<exists>k v v'. map_of (votes_of_each_identity (mempool sample_node_1)) k = Some v \<and> superblock_hash v = [7]
      \<and> map_of (votes_of_each_identity (mempool sample_node_2)) k = Some v' \<and> superblock_hash v' = [8]"
    using conflict by fastforce
  then show ?thesis
    using r1 r2 d by (simp add: sample_node_def sample_start_def)
qed

subsection \<open>Without consensus\<close>

lemma insert_vote_effect:
  assumes "insert_vote pkh_of v st = Some (r, st')"
  obtains (penalized) "mempool st' = mempool st"
  | (double) old where "map_of (votes_of_each_identity (mempool st)) (voter pkh_of v) = Some old"
      "override_vote (voter pkh_of v) (mempool st) = Some (mempool st')"
  | (new) "map_of (votes_of_each_identity (mempool st)) (voter pkh_of v) = None"
      "mempool st' = mempool_insert_vote pkh_of v (mempool st)"
  | (again) w where "map_of (votes_of_each_identity (mempool st)) (voter pkh_of v) = Some w"
      "superblock_hash v = superblock_hash w" "mempool st' = mempool_insert_vote pkh_of v (mempool st)"
proof (cases "check_double_vote (voter pkh_of v) (superblock_hash v) (mempool st)")
  case True
  then have ov: "override_vote (voter pkh_of v) (mempool st) = Some (mempool st')"
    using assms by (auto simp: insert_vote_def)
  show thesis
  proof (cases "map_of (votes_of_each_identity (mempool st)) (voter pkh_of v)")
    case None
    then have "mempool st' = mempool st"
      using True ov by (auto simp: check_double_vote_def override_vote_def List.insert_def split: if_splits)
    then show ?thesis by (rule penalized)
  next
    case (Some old)
    then show ?thesis using ov by (rule double)
  qed
next
  case False
  then have m': "mempool st' = mempool_insert_vote pkh_of v (mempool st)"
    using assms by (auto simp: insert_vote_def)
  show thesis
  proof (cases "map_of (votes_of_each_identity (mempool st)) (voter pkh_of v)")
    case None
    then show ?thesis using m' by (rule new)
  next
    case (Some w)
    then have "superblock_hash v = superblock_hash w"
      using False by (simp add: check_double_vote_def split: if_splits)
    with Some show ?thesis using m' by (rule again)
  qed
qed

text \<open>The most votes that a superblock can still get: a vote that counts was missing before, and a
  vote that is taken back makes no other member vote.\<close>

lemma override_vote_potential:
  assumes ok: "votes_ok pkh_of (set C) m" and old: "map_of (votes_of_each_identity m) k = Some old"
    and ov: "override_vote k m = Some m'"
  shows "length (votes_of_each_identity m') + length (penalized_identities m')
      = length (votes_of_each_identity m) + length (penalized_identities m)"
    and "card (voters_for m' h) \<le> card (voters_for m h)"
proof -
  note o = override_vote_Some [OF ok old ov]
  have "k \<notin> set (penalized_identities m)" using old votes_okD(6) [OF ok] by auto
  then have "length (penalized_identities m') = Suc (length (penalized_identities m))" by (simp add: o(2))
  moreover have "dom (map_of (votes_of_each_identity m')) = dom (map_of (votes_of_each_identity m)) - {k}"
    by (auto simp: o(1))
  then have "length (votes_of_each_identity m) = Suc (length (votes_of_each_identity m'))"
    using length_hm [OF votes_okD(1) [OF ok]] length_hm [OF o(3)] old
    by (metis card_Suc_Diff1 domI finite_dom_map_of)
  ultimately show "length (votes_of_each_identity m') + length (penalized_identities m')
      = length (votes_of_each_identity m) + length (penalized_identities m)" by simp
  have "voters_for m' h \<subseteq> voters_for m h" by (auto simp: voters_for_def o(1) split: if_splits)
  moreover have "finite (voters_for m h)"
    by (rule finite_subset [OF _ finite_dom_map_of [of "votes_of_each_identity m"]]) (auto simp: voters_for_def)
  ultimately show "card (voters_for m' h) \<le> card (voters_for m h)" by (intro card_mono)
qed

lemma new_vote_potential:
  assumes ok: "votes_ok pkh_of (set C) m" and new: "map_of (votes_of_each_identity m) (voter pkh_of v) = None"
  shows "length (votes_of_each_identity (mempool_insert_vote pkh_of v m)) = Suc (length (votes_of_each_identity m))"
    and "card (voters_for (mempool_insert_vote pkh_of v m) h) \<le> Suc (card (voters_for m h))"
proof -
  let ?m = "mempool_insert_vote pkh_of v m"
  have fin: "finite (voters_for m h)"
    by (rule finite_subset [OF _ finite_dom_map_of [of "votes_of_each_identity m"]]) (auto simp: voters_for_def)
  have "dom (map_of (votes_of_each_identity ?m)) = insert (voter pkh_of v) (dom (map_of (votes_of_each_identity m)))"
    by (auto simp: insert_vote_facts)
  then show "length (votes_of_each_identity ?m) = Suc (length (votes_of_each_identity m))"
    using length_hm [OF votes_okD(1) [OF ok]] length_hm [OF insert_vote_wf(1) [OF ok, of v]] new
    by (simp add: finite_dom_map_of domIff)
  have "voters_for ?m h \<subseteq> insert (voter pkh_of v) (voters_for m h)"
    by (auto simp: voters_for_def insert_vote_facts split: if_splits)
  then have "card (voters_for ?m h) \<le> card (insert (voter pkh_of v) (voters_for m h))"
    using fin by (intro card_mono) simp_all
  also have "\<dots> \<le> Suc (card (voters_for m h))" by (rule card_insert_le_m1) simp_all
  finally show "card (voters_for ?m h) \<le> Suc (card (voters_for m h))" .
qed

lemma insert_vote_potential:
  assumes ok: "state_ok pkh_of st" and k: "voter pkh_of v \<in> set (signing_committee st)"
    and ins: "insert_vote pkh_of v st = Some (r, st')"
  shows "card (voters_for (mempool st') h) + missing_votes st' \<le> card (voters_for (mempool st) h) + missing_votes st"
proof -
  note ok' = ok [unfolded state_ok_def]
  have okn: "votes_ok pkh_of (set (signing_committee st)) (mempool st')" and C: "signing_committee st' = signing_committee st"
    using insert_vote_ok [OF ok k ins] by (simp_all add: state_ok_def)
  show ?thesis
    using ins
  proof (cases rule: insert_vote_effect)
    case penalized
    then show ?thesis by (simp add: missing_votes_def C)
  next
    case double
    show ?thesis
      using override_vote_potential [OF ok' double] by (simp add: missing_votes_def C)
  next
    case new
    have "length (votes_of_each_identity (mempool st')) + length (penalized_identities (mempool st')) \<le> length (signing_committee st)"
      by (rule votes_bounded [OF okn])
    then show ?thesis
      using new_vote_potential(1) [OF ok' new(1)] new_vote_potential(2) [OF ok' new(1), of h] by (simp add: missing_votes_def C new(2) insert_vote_facts)
  next
    case again
    have "dom (map_of (votes_of_each_identity (mempool st'))) = dom (map_of (votes_of_each_identity (mempool st)))"
      using again(1) by (auto simp: again(3) insert_vote_facts)
    then have "length (votes_of_each_identity (mempool st')) = length (votes_of_each_identity (mempool st))"
      using length_hm votes_okD(1) ok' okn by metis
    moreover have "voters_for (mempool st') h = voters_for (mempool st) h"
      using again(1,2) by (auto simp: voters_for_def again(3) insert_vote_facts)
    ultimately show ?thesis by (simp add: missing_votes_def C again(3) insert_vote_facts)
  qed
qed

lemma add_vote_potential:
  assumes ok: "state_ok pkh_of st" and add: "add_vote pkh_of v i st = Some (r, st')"
  shows "card (voters_for (mempool st') h) + missing_votes st' \<le> card (voters_for (mempool st) h) + missing_votes st"
proof -
  let ?st = "st\<lparr>mempool := mempool_insert v (mempool st)\<rparr>"
  have same: "voters_for (mempool ?st) h = voters_for (mempool st) h" "missing_votes ?st = missing_votes st"
    by (simp_all add: voters_for_def missing_votes_def mempool_insert_def)
  show ?thesis
    using add
  proof (cases rule: add_vote_cases)
    case counted
    then show ?thesis
      using insert_vote_potential [of pkh_of ?st v r st' h] ok same by simp
  next
    case ignored
    then show ?thesis using same by simp
  qed simp
qed

lemma has_consensus_NoConsensus:
  assumes ok: "state_ok pkh_of st" and n: "length (signing_committee st) < 2 ^ 62"
  shows "has_consensus st = NoConsensus \<longleftrightarrow>
     signing_committee st \<noteq> [] \<and> votes_on_each_superblock (mempool st) \<noteq> []
     \<and> (\<forall>h. card (voters_for (mempool st) h) + missing_votes st < 2 * length (signing_committee st) div 3)"
proof (cases "signing_committee st \<noteq> [] \<and> votes_on_each_superblock (mempool st) \<noteq> []")
  case True
  then obtain h where top: "\<And>h'. card (voters_for (mempool st) h') \<le> card (voters_for (mempool st) h)"
    and v: "has_consensus st =
      (if 2 * length (signing_committee st) div 3 \<le> card (voters_for (mempool st) h)
       then if h = hash_prev_block (current_superblock_beacon st) then SameAsLocal else Different h
       else if 2 * length (signing_committee st) div 3 \<le> card (voters_for (mempool st) h) + missing_votes st
       then UnknownConsensus else NoConsensus)"
    using has_consensus_verdict [OF ok n] by blast
  have "has_consensus st = NoConsensus \<longleftrightarrow>
      card (voters_for (mempool st) h) + missing_votes st < 2 * length (signing_committee st) div 3"
    by (auto simp: v)
  moreover have "card (voters_for (mempool st) h') + missing_votes st < b"
    if "card (voters_for (mempool st) h) + missing_votes st < b" for h' b
    using top [of h'] that by linarith
  ultimately show ?thesis
    using True by blast
next
  case False
  then show ?thesis
    using has_consensus_no_votes [of st] by (cases "signing_committee st = []") (auto simp: has_consensus_def)
qed


definition sample_split :: superblock_state where
  "sample_split = sample_start\<lparr>mempool :=
     \<lparr>penalized_identities = [], received_votes = [sample_vote 3 6 0, sample_vote 2 8 0, sample_vote 1 7 0],
      votes_of_each_identity = [([1], sample_vote 1 7 0), ([2], sample_vote 2 8 0), ([3], sample_vote 3 6 0)],
      votes_on_each_superblock = [([7], [sample_vote 1 7 0]), ([8], [sample_vote 2 8 0]), ([6], [sample_vote 3 6 0])]\<rparr>\<rparr>"

definition sample_split_later :: superblock_state where
  "sample_split_later = sample_start\<lparr>mempool :=
     \<lparr>penalized_identities = [[3]],
      received_votes = [sample_vote 3 7 0, sample_vote 3 6 0, sample_vote 2 8 0, sample_vote 1 7 0],
      votes_of_each_identity = [([1], sample_vote 1 7 0), ([2], sample_vote 2 8 0)],
      votes_on_each_superblock = [([7], [sample_vote 1 7 0]), ([8], [sample_vote 2 8 0])]\<rparr>\<rparr>"


lemma check_double_vote_insert [simp]: "check_double_vote k h (mempool_insert v m) = check_double_vote k h m"
  by (simp add: check_double_vote_def mempool_insert_def)

lemma add_vote_counted:
  assumes "v \<notin> set (received_votes (mempool st))" "superblock_index v = i" "voter pkh_of v \<in> set (signing_committee st)"
  shows "\<not> check_double_vote (voter pkh_of v) (superblock_hash v) (mempool st) \<Longrightarrow>
     add_vote pkh_of v i st = Some (if superblock_hash v = hash_prev_block (current_superblock_beacon st)
       then ValidWithSameHash else ValidButDifferentHash,
       st\<lparr>mempool := mempool_insert_vote pkh_of v (mempool_insert v (mempool st))\<rparr>)"
    and "check_double_vote (voter pkh_of v) (superblock_hash v) (mempool st) \<Longrightarrow>
     override_vote (voter pkh_of v) (mempool_insert v (mempool st)) = None \<Longrightarrow> add_vote pkh_of v i st = None"
  using assms
  by (simp_all add: add_vote_def mempool_contains_def is_valid_def insert_vote_def Let_def)

text \<open>Claim C37: a member of the committee can stop every node that counts its votes. When it signs
  two different votes for the same superblock and then one for another superblock, all for the
  current index, the first two are counted and the third makes the node panic: the mempool remembers
  the second vote as the one to take back but lists only the first.\<close>

theorem resigned_vote_panics:
  assumes run: "run_ops (sb_step c) xs (new_superblock_state g ks) = Some st"
    and k: "voter (c_pkh_of c) v1 = k" "voter (c_pkh_of c) v2 = k" "voter (c_pkh_of c) v3 = k"
    and member: "k \<in> set (signing_committee st)"
    and silent: "map_of (votes_of_each_identity (mempool st)) k = None" "k \<notin> set (penalized_identities (mempool st))"
    and unseen: "{v1, v2, v3} \<inter> set (received_votes (mempool st)) = {}"
    and index: "superblock_index v1 = i" "superblock_index v2 = i" "superblock_index v3 = i"
    and same: "superblock_hash v1 = superblock_hash v2" "v1 \<noteq> v2" and other: "superblock_hash v3 \<noteq> superblock_hash v2"
  shows "\<exists>st1 st2. add_vote (c_pkh_of c) v1 i st = Some (if superblock_hash v1 = hash_prev_block (current_superblock_beacon st)
         then ValidWithSameHash else ValidButDifferentHash, st1)
     \<and> run_ops (sb_step c) [AddVote v1 i, AddVote v2 i] st = Some st2
     \<and> add_vote (c_pkh_of c) v3 i st2 = None"
proof -
  let ?p = "c_pkh_of c"
  define st1 where "st1 = st\<lparr>mempool := mempool_insert_vote ?p v1 (mempool_insert v1 (mempool st))\<rparr>"
  define st2 where "st2 = st1\<lparr>mempool := mempool_insert_vote ?p v2 (mempool_insert v2 (mempool st1))\<rparr>"
  have ok: "votes_ok ?p (set (signing_committee st)) (mempool st)"
    using state_ok_run [OF run] by (simp add: state_ok_def)
  have m1: "map_of (votes_of_each_identity (mempool st1)) k = Some v1" "k \<notin> set (penalized_identities (mempool st1))"
      "set (received_votes (mempool st1)) = insert v1 (set (received_votes (mempool st)))"
      "votes_for (mempool st1) h = votes_for (mempool st) h @ (if h = superblock_hash v1 then [v1] else [])"
      "signing_committee st1 = signing_committee st" for h
    using silent k by (simp_all add: st1_def insert_vote_facts)
  have m2: "map_of (votes_of_each_identity (mempool st2)) k = Some v2" "k \<notin> set (penalized_identities (mempool st2))"
      "set (received_votes (mempool st2)) = {v1, v2} \<union> set (received_votes (mempool st))"
      "votes_for (mempool st2) h = votes_for (mempool st1) h"
      "signing_committee st2 = signing_committee st" for h
    using m1 k by (auto simp: st2_def insert_vote_facts)
  have add1: "add_vote ?p v1 i st = Some (if superblock_hash v1 = hash_prev_block (current_superblock_beacon st)
        then ValidWithSameHash else ValidButDifferentHash, st1)"
    using unseen silent member index k unfolding st1_def by (intro add_vote_counted) (auto simp: check_double_vote_def)
  have add2: "map_option snd (add_vote ?p v2 i st1) = Some st2"
    using unseen same m1 member index k unfolding st2_def
    by (subst add_vote_counted(1)) (auto simp: check_double_vote_def)
  have "k \<notin> voter ?p ` set (votes_for (mempool st) h)" for h
    using votes_okD(9) [OF ok, of h] silent(1) by (simp add: voters_for_def)
  then have "v2 \<notin> set (votes_for (mempool st2) (superblock_hash v2))"
    using k(2) same by (auto simp: m1 m2)
  then have "override_vote k (mempool_insert v3 (mempool st2)) = None"
    using m2(1) override_vote_panics_iff [of "mempool_insert v3 (mempool st2)" k v2]
    by simp
  moreover have "v3 \<notin> {v1, v2}" using same other by auto
  then have "v3 \<notin> set (received_votes (mempool st2))" using unseen by (simp add: m2)
  moreover have "check_double_vote k (superblock_hash v3) (mempool st2)"
    using m2(1,2) other by (simp add: check_double_vote_def)
  ultimately have "add_vote ?p v3 i st2 = None"
    using k(3) index(3) member m2(5) by (intro add_vote_counted(2)) simp_all
  then show ?thesis
    using add1 add2 by auto
qed

theorem resigned_vote_panics_witness:
  "\<exists>st2. run_ops (sb_step sample_context) [AddVote (sample_vote 1 7 0) 0, AddVote (sample_vote 1 7 1) 0]
       (new_superblock_state [9] [[1], [2], [3]]) = Some st2
     \<and> add_vote (c_pkh_of sample_context) (sample_vote 1 8 0) 0 st2 = None"
proof -
  let ?st = "new_superblock_state [9] [[1], [2], [3]]"
  have run: "run_ops (sb_step sample_context) [] ?st = Some ?st" by simp
  show ?thesis
    using resigned_vote_panics [OF run, of "sample_vote 1 7 0" "[1]" "sample_vote 1 7 1" "sample_vote 1 8 0" 0]
    by (auto simp: voter_def sample_vote_def sample_context_def new_superblock_state_def empty_mempool_def)
qed

end
