(* ===== verification/Superblock_Committee.thy ===== *)
theory Superblock_Committee
  imports Superblock_Votes
begin

text \<open>
  The signing committee has the size it should have, and the proofs of inclusion that light clients
  get check against the roots of a superblock.
\<close>

section \<open>The signing committee\<close>

lemma distinct_positions:
  assumes "\<And>i. i < n \<Longrightarrow> f i < L" and "\<And>i j. i < j \<Longrightarrow> j < n \<Longrightarrow> f i < f j" and "distinct v" and "length v = L"
  shows "distinct (map (\<lambda>i. v ! ((first + f i) mod L)) [0..<n])"
proof -
  have "inj_on (\<lambda>i. v ! ((first + f i) mod L)) {0..<n}"
  proof (rule linorder_inj_onI)
    fix i j
    assume ij: "i < j" "i \<in> {0..<n}" "j \<in> {0..<n}"
    then have lt: "f i < f j" "f j < L" using assms(1,2) by simp_all
    have "(first + f i) mod L \<noteq> (first + f j) mod L"
    proof
      assume "(first + f i) mod L = (first + f j) mod L"
      then have "L dvd (first + f j) - (first + f i)"
        using lt mod_eq_dvd_iff_nat [of "first + f i" "first + f j" L] by simp
      then show False using lt by (simp add: nat_dvd_not_less)
    qed
    moreover have "(first + f i) mod L < L" "(first + f j) mod L < L" using lt by simp_all
    ultimately show "v ! ((first + f i) mod L) \<noteq> v ! ((first + f j) mod L)"
      using assms(3,4) by (simp add: nth_eq_iff_index_eq)
  qed auto
  then show ?thesis by (simp add: distinct_map)
qed

lemma magic_partition_2_Some:
  assumes "first < length v" "0 < k" "k \<le> length v" "rand \<noteq> []" "distinct v"
  shows "\<exists>c. magic_partition_2 v first k rand = Some c \<and> distinct c \<and> set c \<subseteq> set v \<and> length c = k"
proof -
  let ?each = "length v div k" and ?off = "\<lambda>i. unat (rand ! (i mod length rand)) mod (length v div k)"
  let ?c = "map (\<lambda>i. v ! ((first + (i * ?each + ?off i)) mod length v)) [0..<k]"
  have each: "0 < ?each" using assms(2,3) by (simp add: div_greater_zero_iff)
  have off: "?off i < ?each" for i using each by simp
  have step: "i * ?each + ?off i < Suc i * ?each" for i using off [of i] by simp
  have "distinct ?c"
  proof (rule distinct_positions)
    fix i assume "i < k"
    then have "Suc i * ?each \<le> k * ?each" by (intro mult_le_mono1) simp
    also have "\<dots> \<le> length v" by (simp add: mult.commute)
    finally show "i * ?each + ?off i < length v" using step [of i] by linarith
  next
    fix i j assume "i < j" "j < k"
    then have "Suc i * ?each \<le> j * ?each" by (intro mult_le_mono1) simp
    then show "i * ?each + ?off i < j * ?each + ?off j" using step [of i] by linarith
  qed (use assms in simp_all)
  moreover have "set ?c \<subseteq> set v" using assms(1) by (auto intro!: nth_mem mod_less_divisor)
  moreover have "magic_partition_2 v first k rand = Some ?c"
    using assms by (simp add: magic_partition_2_def Let_def add.assoc)
  ultimately show ?thesis by auto
qed

lemma partition_loop_map:
  "v \<noteq> [] \<Longrightarrow> a < length v \<Longrightarrow> partition_loop v each a n = map (\<lambda>i. v ! ((a + i * each) mod length v)) [0..<n]"
proof (induction n arbitrary: a)
  case (Suc n)
  have "partition_loop v each ((a + each) mod length v) n = map (\<lambda>i. v ! ((a + Suc i * each) mod length v)) [0..<n]"
    using Suc.prems by (subst Suc.IH) (simp_all add: mod_add_left_eq add.assoc)
  also have "\<dots> = map (\<lambda>i. v ! ((a + i * each) mod length v)) [1..<Suc n]"
    by (simp add: map_Suc_upt [symmetric] del: upt_Suc)
  finally show ?case
    using Suc.prems(2) by (simp add: upt_conv_Cons del: upt_Suc)
qed simp

lemma magic_partition_Some:
  assumes "first < length v" "0 < k" "k \<le> length v" "distinct v"
  shows "\<exists>c. magic_partition v first k = Some c \<and> distinct c \<and> set c \<subseteq> set v \<and> length c = k"
proof -
  let ?each = "length v div k"
  let ?c = "map (\<lambda>i. v ! ((first + i * ?each) mod length v)) [0..<k]"
  have each: "0 < ?each" using assms(2,3) by (simp add: div_greater_zero_iff)
  have "distinct ?c"
  proof (rule distinct_positions)
    fix i assume "i < k"
    then have "i * ?each < k * ?each" using each by simp
    also have "\<dots> \<le> length v" by (simp add: mult.commute)
    finally show "i * ?each < length v" .
  qed (use assms each in simp_all)
  moreover have "set ?c \<subseteq> set v" using assms(1) by (auto intro!: nth_mem mod_less_divisor)
  moreover have "magic_partition v first k = Some (partition_loop v ?each first k)"
    using assms(1,2) by (cases k) (simp_all add: magic_partition_def Let_def)
  then have "magic_partition v first k = Some ?c"
    using assms(1) by (subst (asm) partition_loop_map) auto
  ultimately show ?thesis by auto
qed

text \<open>Claim C31: the signing committee drawn from the active identities has exactly the requested
  number of different members, or all of them when there are fewer, before and after the second hard
  fork and whatever the hashes are; it is never drawn with a panic. A committee of size zero panics.\<close>

theorem signing_committee_exact:
  assumes "distinct ks" and "length ks < 2 ^ 32" and "\<And>bs. sha256 bs \<noteq> []" and "sb_hash \<noteq> []"
  shows "(0 < n \<longrightarrow> (\<exists>c. calculate_superblock_signing_committee sha256 env (new_ars_identities ks) n index sb_hash e = Some c
       \<and> distinct c \<and> set c \<subseteq> set ks \<and> length c = min (unat n) (length ks)))
     \<and> calculate_superblock_signing_committee sha256 env (new_ars_identities ks) 0 index sb_hash e = None"
proof -
  have ids: "identities (new_ars_identities ks) = ks" "ordered_identities (new_ars_identities ks) = ks"
      "ars_len (new_ars_identities ks) = length ks"
    using assms(1) by (simp_all add: new_ars_identities_def ars_len_def distinct_remdups_id)
  obtain b bs where b: "sb_hash = b # bs" using assms(4) by (cases sb_hash) auto
  obtain d ds where d: "sha256 (to_be_bytes index) = d # ds" using assms(3) by (cases "sha256 (to_be_bytes index)") auto
  let ?h = "sha256 (sb_hash @ to_be_bytes index)"
  have len: "unat (of_nat (length ks) :: u64) = length ks" "unat (of_nat (length ks) :: u32) = length ks"
    using assms(2) by (simp_all add: unsigned_of_nat take_bit_nat_eq_self)
  have first: "\<exists>f. hash_mod ?h (of_nat (length ks)) = Some f \<and> unat f < length ks" if "ks \<noteq> []"
  proof -
    have "big_endian ?h mod length ks < length ks" using that by simp
    moreover have "of_nat (length ks) \<noteq> (0 :: u64)" using len(1) that by (metis length_0_conv unat_0)
    ultimately show ?thesis
      using assms(2) by (simp add: hash_mod_def len unsigned_of_nat take_bit_nat_eq_self)
  qed
  have old: "of_nat (length ks) \<noteq> (0 :: u32)" "unat ((ucast b + ucast d :: u32) mod of_nat (length ks)) < length ks" if "ks \<noteq> []"
    using len(2) that by (metis length_0_conv unat_0) (simp add: unat_mod len that)
  note defs = calculate_superblock_signing_committee_def ids Let_def b d
  have "\<exists>c. calculate_superblock_signing_committee sha256 env (new_ars_identities ks) n index sb_hash e = Some c
       \<and> distinct c \<and> set c \<subseteq> set ks \<and> length c = min (unat n) (length ks)" if "0 < n"
  proof (cases "length ks < unat n")
    case True
    then show ?thesis using assms(1) by (simp add: defs)
  next
    case False
    have n: "0 < unat n" using that by (simp add: word_greater_zero_iff unat_gt_0)
    then have ne: "ks \<noteq> []" using False by auto
    obtain f where f: "hash_mod ?h (of_nat (length ks)) = Some f" "unat f < length ks" using first [OF ne] by blast
    show ?thesis
      using magic_partition_2_Some [OF f(2) n _ assms(3) assms(1), of "sb_hash @ to_be_bytes index"]
        magic_partition_Some [OF old(2) [OF ne] n _ assms(1)] False f(1) old(1) [OF ne]
      by (auto simp: defs distinct_remdups_id min_def)
  qed
  moreover have "calculate_superblock_signing_committee sha256 env (new_ars_identities ks) 0 index sb_hash e = None"
  proof (cases "ks = []")
    case True
    then show ?thesis unfolding defs by (simp add: hash_mod_def)
  next
    case False
    obtain f where f: "hash_mod ?h (of_nat (length ks)) = Some f" "unat f < length ks" using first [OF False] by blast
    then show ?thesis
      using old(2) [OF False] by (auto simp: defs magic_partition_def magic_partition_2_def)
  qed
  ultimately show ?thesis by blast
qed

theorem signing_committee_exact_witness:
  "\<exists>c. calculate_superblock_signing_committee (\<lambda>bs. 5 # bs) Mainnet (new_ars_identities [[1], [2], [3], [4], [5]]) 3 7 [9] 1000
       = Some c \<and> distinct c \<and> length c = 3"
proof -
  have "0 < (3 :: u32)" by simp
  then show ?thesis
    using signing_committee_exact [of "[[1], [2], [3], [4], [5]]" "\<lambda>bs. 5 # bs" "[9]" 3 Mainnet 7 1000] by auto
qed

section \<open>Proofs of inclusion\<close>

lemma find_map_enum_Some:
  "find_map_enum f i xs = Some y \<Longrightarrow> \<exists>j < length xs. f (i + j) (xs ! j) = Some y"
proof (induction f i xs rule: find_map_enum.induct)
  case (2 f i x xs)
  show ?case
  proof (cases "f i x")
    case None
    with 2 obtain j where "j < length xs" "f (Suc i + j) (xs ! j) = Some y" by auto
    then show ?thesis by (intro exI [of _ "Suc j"]) simp
  next
    case (Some z)
    with 2 show ?thesis by (intro exI [of _ 0]) simp
  qed
qed simp

lemma find_map_enum_None:
  "find_map_enum f i xs = None \<longleftrightarrow> (\<forall>j < length xs. f (i + j) (xs ! j) = None)"
proof (induction f i xs rule: find_map_enum.induct)
  case (2 f i x xs)
  then show ?case
    by (auto simp: less_Suc_eq_0_disj split: option.splits)
qed simp

text \<open>What a proof of inclusion verifies an element against.\<close>

definition poi_root :: "(u8 list \<Rightarrow> hash) \<Rightarrow> tx_inclusion_proof \<Rightarrow> hash \<Rightarrow> hash" where
  "poi_root sha256 p element =
     proof_root \<lparr>proof_index = tx_index p, proof_lemma = tx_lemma p, i_hash_concat = sha256_concat sha256\<rparr> element"

lemma new_with_hashes_verifies:
  assumes "i < length hs"
  shows "\<exists>p. new_with_hashes sha256 EMPTY_SHA256 i hs = Some p \<and> poi_root sha256 p (hs ! i) = hash_merkle_tree_root sha256 hs"
proof -
  let ?hc = "sha256_concat sha256"
  obtain p where p: "inclusion_proof (full_new hs ?hc EMPTY_SHA256) i = Some p" "i_hash_concat p = ?hc"
    "proof_root p (hs ! i) = mroot ?hc hs"
    by (rule inclusion_proof_Some [OF assms])
  moreover have "hash_merkle_tree_root sha256 hs = mroot ?hc hs"
    using assms by (auto simp: hash_merkle_tree_root_def merkle_tree_root_total)
  ultimately show ?thesis
    by (simp add: new_with_hashes_def full_sha256_def poi_root_def proof_root_def)
qed

lemma superblock_poi_verifies:
  fixes hash_of :: "'t \<Rightarrow> hash"
  assumes roots: "\<And>b. b \<in> set blocks \<Longrightarrow> root_of b = hash_merkle_tree_root sha256 (map hash_of (txs_of b))"
    and tx: "hash_of tx = sha256_concat sha256 (data_of tx) (rest_of tx)"
    and b: "b \<in> set blocks" "tx \<in> set (txs_of b)"
  shows "\<exists>poi. superblock_poi sha256 (\<lambda>b. data_proof_of_inclusion sha256 EMPTY_SHA256 hash_of rest_of (txs_of b) tx) root_of blocks
       = Some (Some poi) \<and> poi_root sha256 poi (data_of tx) = hash_merkle_tree_root sha256 (map root_of blocks)"
proof -
  let ?poi = "\<lambda>b. data_proof_of_inclusion sha256 EMPTY_SHA256 hash_of rest_of (txs_of b) tx"
  let ?f = "\<lambda>idx b. map_option (\<lambda>poi. (poi, idx)) (?poi b)"
  have found: "tx \<in> set (txs_of b)" if "?poi b \<noteq> None" for b
    using that position_None [of "\<lambda>x. x = tx" "txs_of b"]
    by (auto simp: data_proof_of_inclusion_def proof_of_inclusion_def)
  have "find_map_enum ?f 0 blocks \<noteq> None"
    using b data_proof_verifies [of tx "txs_of b" hash_of sha256 data_of rest_of EMPTY_SHA256] tx by (auto simp: find_map_enum_None in_set_conv_nth)
  then obtain q j where q: "find_map_enum ?f 0 blocks = Some (q, j)" by auto
  then have j: "j < length blocks" "?poi (blocks ! j) = Some q"
    using find_map_enum_Some [OF q] by auto
  then have "tx \<in> set (txs_of (blocks ! j))" using found by auto
  then obtain p root where p: "?poi (blocks ! j) = Some (Some p)"
    "merkle_tree_root sha256 EMPTY_SHA256 (map hash_of (txs_of (blocks ! j))) = Some root"
    "\<And>r. poi_root sha256 (concat_proofs p r) (data_of tx) = poi_root sha256 r root"
    using data_proof_verifies [of tx "txs_of (blocks ! j)" hash_of sha256 data_of rest_of EMPTY_SHA256] tx
    unfolding poi_root_def by blast
  have "root_of (blocks ! j) = root"
    using roots [of "blocks ! j"] j(1) p(2) by (simp add: hash_merkle_tree_root_def)
  moreover obtain r where "new_with_hashes sha256 EMPTY_SHA256 j (map root_of blocks) = Some r"
    "poi_root sha256 r (map root_of blocks ! j) = hash_merkle_tree_root sha256 (map root_of blocks)"
    using new_with_hashes_verifies [of j "map root_of blocks" sha256] j(1) by auto
  moreover have "q = Some p" using j(2) p(1) by simp
  ultimately show ?thesis
    using q j(1) p(3) by (simp add: superblock_poi_def)
qed

text \<open>Claim C32: light clients can check data requests and tallies against a superblock. Whatever
  blocks a superblock is built from, as long as their headers carry the roots of their transactions:
  for a data request in one of them the proof of inclusion exists and verifies the hash of the
  requested data against the data request root of the superblock; for a tally it verifies the hash of
  the result against the tally root. For a transaction in none of the blocks there is no proof.\<close>

theorem superblock_proofs_verify:
  assumes "\<And>b. b \<in> set blocks \<Longrightarrow> \<exists>v. merkle_roots (header b) = from_transactions sha256 pb (txns b) v"
    and "sb = mining_build_superblock sha256 pb (map header blocks) key_leaves index prev n pv"
  shows "(\<forall>b \<in> set blocks. \<forall>tx \<in> set (data_request_txns (txns b)).
       \<exists>poi. dr_proof_of_inclusion sha256 pb blocks tx = Some (Some poi)
         \<and> poi_root sha256 poi (dr_data_poi_hash sha256 pb tx) = data_request_root sb)
     \<and> (\<forall>b \<in> set blocks. \<forall>tx \<in> set (tally_txns (txns b)).
       \<exists>poi. tally_proof_of_inclusion sha256 pb blocks tx v = Some (Some poi)
         \<and> poi_root sha256 poi (tally_data_poi_hash sha256 tx) = tally_root sb)
     \<and> (\<forall>tx. (\<forall>b \<in> set blocks. tx \<notin> set (data_request_txns (txns b))) \<longrightarrow>
         dr_proof_of_inclusion sha256 pb blocks tx = None)"
proof (intro conjI ballI allI impI)
  have roots: "dr_hash_merkle_root (merkle_roots (header b))
        = hash_merkle_tree_root sha256 (map (\<lambda>t. versioned_hash sha256 pb V1_7 (DataRequest t)) (data_request_txns (txns b)))"
      "tally_hash_merkle_root (merkle_roots (header b))
        = hash_merkle_tree_root sha256 (map (\<lambda>t. versioned_hash sha256 pb v (Tally t)) (tally_txns (txns b)))"
    if "b \<in> set blocks" for b
    using assms(1) [OF that]
    by (auto simp: from_transactions_def Let_def txs_merkle_tree_root_def versioned_hash_tx_hash comp_def)
  fix b
  assume b: "b \<in> set blocks"
  then have sb: "data_request_root sb = hash_merkle_tree_root sha256 (map (\<lambda>b. dr_hash_merkle_root (merkle_roots (header b))) blocks)"
      "tally_root sb = hash_merkle_tree_root sha256 (map (\<lambda>b. tally_hash_merkle_root (merkle_roots (header b))) blocks)"
    by (auto simp: assms(2) mining_build_superblock_def comp_def)
  show "\<exists>poi. dr_proof_of_inclusion sha256 pb blocks tx = Some (Some poi)
      \<and> poi_root sha256 poi (dr_data_poi_hash sha256 pb tx) = data_request_root sb"
    if "tx \<in> set (data_request_txns (txns b))" for tx
    unfolding dr_proof_of_inclusion_def sb using roots(1) b that
    by (intro superblock_poi_verifies) (simp_all add: sha256_concat_def)
  show "\<exists>poi. tally_proof_of_inclusion sha256 pb blocks tx v = Some (Some poi)
      \<and> poi_root sha256 poi (tally_data_poi_hash sha256 tx) = tally_root sb"
    if "tx \<in> set (tally_txns (txns b))" for tx
    unfolding tally_proof_of_inclusion_def sb using roots(2) b that
    by (intro superblock_poi_verifies) (simp_all add: sha256_concat_def)
next
  fix tx
  assume "\<forall>b \<in> set blocks. tx \<notin> set (data_request_txns (txns b))"
  then have "position (\<lambda>x. x = tx) (data_request_txns (txns b)) = None" if "b \<in> set blocks" for b
    using that by (auto simp: position_None)
  then show "dr_proof_of_inclusion sha256 pb blocks tx = None"
    by (simp add: dr_proof_of_inclusion_def superblock_poi_def find_map_enum_None data_proof_of_inclusion_def proof_of_inclusion_def)
qed

definition sample_sb_tally :: tally_transaction where
  "sample_sb_tally = \<lparr>tally_dr_pointer = [4], tally_bytes = [6], tally_outputs = [], out_of_consensus = [], error_committers = []\<rparr>"

definition sample_tally_txns :: block_transactions where
  "sample_tally_txns = sample_txns\<lparr>tally_txns := [sample_sb_tally]\<rparr>"

definition sample_block :: block where
  "sample_block = \<lparr>header = \<lparr>signals = 0, beacon = \<lparr>checkpoint = 1, hash_prev_block = [3]\<rparr>,
        merkle_roots = from_transactions rev sample_pb sample_tally_txns V1_8,
        eligibility = \<lparr>vrf_proof = [], vrf_public_key = []\<rparr>, bn256_public_key = None\<rparr>,
     block_sig = \<lparr>ks_signature = [], ks_public_key = []\<rparr>, txns = sample_tally_txns\<rparr>"

theorem superblock_proofs_verify_witness:
  "\<exists>poi. tally_proof_of_inclusion rev sample_pb [sample_block] sample_sb_tally V2_0 = Some (Some poi)
     \<and> poi_root rev poi (tally_data_poi_hash rev sample_sb_tally)
         = tally_root (mining_build_superblock rev sample_pb (map header [sample_block]) [] 4 [2] 3 V1_8)"
proof -
  have "\<exists>v. merkle_roots (header b) = from_transactions rev sample_pb (txns b) v" if "b \<in> set [sample_block]" for b
    using that by (auto simp: sample_block_def)
  note verify = superblock_proofs_verify [OF this refl, where blocks = "[sample_block]" and key_leaves = "[]" and index = 4 and prev = "[2]" and n = 3 and pv = V1_8 and v = V2_0]
  have "sample_sb_tally \<in> set (tally_txns (txns sample_block))"
    by (simp add: sample_block_def sample_tally_txns_def)
  then show ?thesis
    using verify by simp
qed

end
