(* ===== verification/Tx_Pool.thy ===== *)
theory Tx_Pool
  imports Superblock Tallying "HOL-Library.Product_Lexorder" "HOL-Library.List_Lexorder"
begin

text \<open>
  The pool of transactions that wait for a block (\<^verbatim>\<open>TransactionsPool\<close> of
  data_structures/src/chain/mod.rs). A priority is a fee per weight, an \<^verbatim>\<open>OrderedFloat\<close>; it is a value
  of a linear order \<open>'p\<close>, computed by the argument \<open>prio\<close> from the fee and the weight, and the floating
  point comparison of the two total weights with the factor (of type \<open>'f\<close>) is the argument \<open>more_vtts\<close>.
  The maps, the sorted indexes and the total weights that the source keeps for each of the four kinds
  of prioritized transactions are the fields of a record \<open>tx_section\<close>. A \<^verbatim>\<open>BTreeSet\<close> is a sorted list
  without repetitions. \<^const>\<open>None\<close> as the result of an operation on the pool is a panic.
\<close>

section \<open>Sections of prioritized transactions\<close>

record ('p, 't) tx_section =
  entries :: "(hash \<times> 'p \<times> 't) list"
  sorted_index :: "('p \<times> hash) list"
  total_weight :: u64

definition empty_section :: "('p, 't) tx_section" where
  "empty_section = \<lparr>entries = [], sorted_index = [], total_weight = 0\<rparr>"

definition section_insert ::
  "('t \<Rightarrow> u32) \<Rightarrow> hash \<Rightarrow> 'p::linorder \<Rightarrow> 't \<Rightarrow> ('p, 't) tx_section \<Rightarrow> ('p, 't) tx_section"
where
  "section_insert weight key p t s =
     \<lparr>entries = AList.update key (p, t) (entries s),
      sorted_index = insort_insert (p, key) (sorted_index s),
      total_weight = total_weight s + ucast (weight t)\<rparr>"

definition section_remove ::
  "('t \<Rightarrow> u32) \<Rightarrow> hash \<Rightarrow> ('p::linorder, 't) tx_section \<Rightarrow> 't option \<times> ('p, 't) tx_section"
where
  "section_remove weight key s =
     (case map_of (entries s) key of
        None \<Rightarrow> (None, s)
      | Some (p, t) \<Rightarrow>
          (Some t, \<lparr>entries = AList.delete key (entries s),
                    sorted_index = remove1 (p, key) (sorted_index s),
                    total_weight = total_weight s - ucast (weight t)\<rparr>))"

text \<open>The iterators: in descending order of priority.\<close>

definition section_iter :: "('p, 't) tx_section \<Rightarrow> 't list" where
  "section_iter s = List.map_filter (\<lambda>(_, h). map_option snd (map_of (entries s) h)) (rev (sorted_index s))"

section \<open>The pool\<close>

record unconfirmed_transactions =
  uc_current :: "hash list"
  uc_previous :: "hash list"

definition uc_update :: "unconfirmed_transactions \<Rightarrow> unconfirmed_transactions" where
  "uc_update u = \<lparr>uc_current = [], uc_previous = uc_current u\<rparr>"

definition uc_insert :: "hash \<Rightarrow> unconfirmed_transactions \<Rightarrow> unconfirmed_transactions" where
  "uc_insert h u = u\<lparr>uc_current := uc_current u @ [h]\<rparr>"

definition uc_clear :: "unconfirmed_transactions \<Rightarrow> unconfirmed_transactions" where
  "uc_clear u = \<lparr>uc_current = [], uc_previous = []\<rparr>"

definition uc_remove_all :: "unconfirmed_transactions \<Rightarrow> hash list \<times> unconfirmed_transactions" where
  "uc_remove_all u = (uc_current u @ uc_previous u, uc_clear u)"

record ('p, 'f) transactions_pool =
  vts :: "('p, vt_transaction) tx_section"
  drs :: "('p, dr_transaction) tx_section"
  sts :: "('p, stake_tx) tx_section"
  uts :: "('p, unstake_tx) tx_section"
  co_hash_index :: "(hash \<times> commit_transaction) list"
  co_transactions :: "(hash \<times> (pkh \<times> hash) list) list"
  re_hash_index :: "(hash \<times> reveal_transaction) list"
  re_transactions :: "(hash \<times> (pkh \<times> hash) list) list"
  output_pointer_map :: "(output_pointer \<times> hash list) list"
  weight_limit :: u64
  vt_to_dr_factor :: 'f
  minimum_vtt_fee :: u64
  minimum_st_fee :: u64
  minimum_ut_fee :: u64
  pool_collateral_minimum :: u64
  required_reward_collateral_ratio :: u64
  unconfirmed :: unconfirmed_transactions

definition new_pool :: "'f \<Rightarrow> ('p, 'f) transactions_pool" where
  "new_pool one =
     \<lparr>vts = empty_section, drs = empty_section, sts = empty_section, uts = empty_section,
      co_hash_index = [], co_transactions = [], re_hash_index = [], re_transactions = [],
      output_pointer_map = [], weight_limit = - 1, vt_to_dr_factor = one,
      minimum_vtt_fee = 0, minimum_st_fee = 0, minimum_ut_fee = 0,
      pool_collateral_minimum = 0, required_reward_collateral_ratio = - 1,
      unconfirmed = \<lparr>uc_current = [], uc_previous = []\<rparr>\<rparr>"

definition set_minimum_vtt_fee :: "u64 \<Rightarrow> ('p, 'f) transactions_pool \<Rightarrow> ('p, 'f) transactions_pool" where
  "set_minimum_vtt_fee fee p = p\<lparr>minimum_vtt_fee := fee\<rparr>"

definition set_collateral_minimum :: "u64 \<Rightarrow> ('p, 'f) transactions_pool \<Rightarrow> ('p, 'f) transactions_pool" where
  "set_collateral_minimum c p = p\<lparr>pool_collateral_minimum := 20 * c\<rparr>"

definition set_required_reward_collateral_ratio ::
  "u64 \<Rightarrow> ('p, 'f) transactions_pool \<Rightarrow> ('p, 'f) transactions_pool"
where
  "set_required_reward_collateral_ratio r p = p\<lparr>required_reward_collateral_ratio := r\<rparr>"

definition pool_is_empty :: "('p, 'f) transactions_pool \<Rightarrow> bool" where
  "pool_is_empty p \<longleftrightarrow> entries (vts p) = [] \<and> entries (drs p) = [] \<and> co_transactions p = []
     \<and> re_transactions p = [] \<and> entries (sts p) = [] \<and> entries (uts p) = []"

definition pool_clear :: "('p, 'f) transactions_pool \<Rightarrow> ('p, 'f) transactions_pool" where
  "pool_clear p = p\<lparr>vts := empty_section, drs := empty_section, sts := empty_section, uts := empty_section,
     co_hash_index := [], co_transactions := [], re_hash_index := [], re_transactions := [],
     output_pointer_map := [], unconfirmed := uc_clear (unconfirmed p)\<rparr>"

definition vt_len :: "('p, 'f) transactions_pool \<Rightarrow> nat" where
  "vt_len p = length (entries (vts p))"

definition dr_len :: "('p, 'f) transactions_pool \<Rightarrow> nat" where
  "dr_len p = length (entries (drs p))"

definition st_len :: "('p, 'f) transactions_pool \<Rightarrow> nat" where
  "st_len p = length (entries (sts p))"

definition ut_len :: "('p, 'f) transactions_pool \<Rightarrow> nat" where
  "ut_len p = length (entries (uts p))"

definition clear_commits :: "('p, 'f) transactions_pool \<Rightarrow> ('p, 'f) transactions_pool" where
  "clear_commits p = p\<lparr>co_transactions := [], co_hash_index := []\<rparr>"

definition clear_reveals :: "('p, 'f) transactions_pool \<Rightarrow> ('p, 'f) transactions_pool" where
  "clear_reveals p = p\<lparr>re_transactions := [], re_hash_index := []\<rparr>"

text \<open>The transactions and the index are cleared; the total weight and the output pointers are not.\<close>

definition clear_stake_transactions :: "('p, 'f) transactions_pool \<Rightarrow> ('p, 'f) transactions_pool" where
  "clear_stake_transactions p = p\<lparr>sts := (sts p)\<lparr>entries := [], sorted_index := []\<rparr>\<rparr>"

definition clear_unstake_transactions :: "('p, 'f) transactions_pool \<Rightarrow> ('p, 'f) transactions_pool" where
  "clear_unstake_transactions p = p\<lparr>uts := (uts p)\<lparr>entries := [], sorted_index := []\<rparr>\<rparr>"

section \<open>Queries\<close>

datatype pool_error =
    NotValidTransaction
  | DuplicatedCommit pkh hash
  | DuplicatedReveal pkh hash

definition vt_contains :: "hash \<Rightarrow> ('p, 'f) transactions_pool \<Rightarrow> bool" where
  "vt_contains key p \<longleftrightarrow> map_of (entries (vts p)) key \<noteq> None"

definition dr_contains :: "hash \<Rightarrow> ('p, 'f) transactions_pool \<Rightarrow> bool" where
  "dr_contains key p \<longleftrightarrow> map_of (entries (drs p)) key \<noteq> None"

definition st_contains :: "hash \<Rightarrow> ('p, 'f) transactions_pool \<Rightarrow> bool" where
  "st_contains key p \<longleftrightarrow> map_of (entries (sts p)) key \<noteq> None"

definition ut_contains :: "hash \<Rightarrow> ('p, 'f) transactions_pool \<Rightarrow> bool" where
  "ut_contains key p \<longleftrightarrow> map_of (entries (uts p)) key \<noteq> None"

definition commit_contains ::
  "hash \<Rightarrow> pkh \<Rightarrow> hash \<Rightarrow> ('p, 'f) transactions_pool \<Rightarrow> (pool_error, bool) outcome"
where
  "commit_contains dr_pointer k h p =
     (case Option.bind (map_of (co_transactions p) dr_pointer) (\<lambda>hm. map_of hm k) of
        Some h' \<Rightarrow> if h' = h then Ok True else Err (DuplicatedCommit k dr_pointer)
      | None \<Rightarrow> Ok False)"

definition reveal_contains ::
  "hash \<Rightarrow> pkh \<Rightarrow> hash \<Rightarrow> ('p, 'f) transactions_pool \<Rightarrow> (pool_error, bool) outcome"
where
  "reveal_contains dr_pointer k h p =
     (case Option.bind (map_of (re_transactions p) dr_pointer) (\<lambda>hm. map_of hm k) of
        Some h' \<Rightarrow> if h' = h then Ok True else Err (DuplicatedReveal k dr_pointer)
      | None \<Rightarrow> Ok False)"

text \<open>The key hash of a commitment is that of its proof of eligibility; \<open>proof_pkh\<close> reads it.\<close>

fun pool_contains ::
  "(transaction \<Rightarrow> hash) \<Rightarrow> (commit_transaction \<Rightarrow> pkh) \<Rightarrow> transaction \<Rightarrow> ('p, 'f) transactions_pool
   \<Rightarrow> (pool_error, bool) outcome"
where
  "pool_contains hash_of proof_pkh (ValueTransfer t) p = Ok (vt_contains (hash_of (ValueTransfer t)) p)"
| "pool_contains hash_of proof_pkh (DataRequest t) p = Ok (dr_contains (hash_of (DataRequest t)) p)"
| "pool_contains hash_of proof_pkh (Commit t) p =
     commit_contains (commit_dr_pointer t) (proof_pkh t) (hash_of (Commit t)) p"
| "pool_contains hash_of proof_pkh (Reveal t) p =
     reveal_contains (reveal_dr_pointer t) (reveal_pkh t) (hash_of (Reveal t)) p"
| "pool_contains hash_of proof_pkh (Tally t) p = Err NotValidTransaction"
| "pool_contains hash_of proof_pkh (Mint t) p = Err NotValidTransaction"
| "pool_contains hash_of proof_pkh (Stake t) p = Ok (st_contains (hash_of (Stake t)) p)"
| "pool_contains hash_of proof_pkh (Unstake t) p = Ok (ut_contains (hash_of (Unstake t)) p)"

definition vt_iter :: "('p, 'f) transactions_pool \<Rightarrow> vt_transaction list" where
  "vt_iter p = section_iter (vts p)"

definition dr_iter :: "('p, 'f) transactions_pool \<Rightarrow> dr_transaction list" where
  "dr_iter p = section_iter (drs p)"

definition st_iter :: "('p, 'f) transactions_pool \<Rightarrow> stake_tx list" where
  "st_iter p = section_iter (sts p)"

definition ut_iter :: "('p, 'f) transactions_pool \<Rightarrow> unstake_tx list" where
  "ut_iter p = section_iter (uts p)"

definition vt_get :: "hash \<Rightarrow> ('p, 'f) transactions_pool \<Rightarrow> vt_transaction option" where
  "vt_get key p = map_option snd (map_of (entries (vts p)) key)"

fun or_else :: "'a option \<Rightarrow> 'a option \<Rightarrow> 'a option" where
  "or_else (Some x) y = Some x"
| "or_else None y = y"

definition pool_get :: "hash \<Rightarrow> ('p, 'f) transactions_pool \<Rightarrow> transaction option" where
  "pool_get h p =
     or_else (map_option (ValueTransfer \<circ> snd) (map_of (entries (vts p)) h))
     (or_else (map_option (DataRequest \<circ> snd) (map_of (entries (drs p)) h))
     (or_else (map_option Commit (map_of (co_hash_index p) h))
     (or_else (map_option Reveal (map_of (re_hash_index p) h))
     (or_else (map_option (Stake \<circ> snd) (map_of (entries (sts p)) h))
     (map_option (Unstake \<circ> snd) (map_of (entries (uts p)) h))))))"

definition total_transactions_weight :: "('p, 'f) transactions_pool \<Rightarrow> u64" where
  "total_transactions_weight p = total_weight (vts p) + total_weight (drs p) + total_weight (sts p)"

section \<open>Removing transactions\<close>

text \<open>\<^const>\<open>None\<close> is the panic \<^verbatim>\<open>Invalid state in output_pointer_map\<close>.\<close>

fun remove_tx_from_output_pointer_map ::
  "hash \<Rightarrow> input list \<Rightarrow> (output_pointer \<times> hash list) list \<Rightarrow> (output_pointer \<times> hash list) list option"
where
  "remove_tx_from_output_pointer_map key [] m = Some m"
| "remove_tx_from_output_pointer_map key (i # is) m =
     (case map_of m i of
        None \<Rightarrow> remove_tx_from_output_pointer_map key is m
      | Some hs \<Rightarrow>
          (case position (\<lambda>x. x = key) hs of
             None \<Rightarrow> None
           | Some idx \<Rightarrow>
               let hs' = swap_remove idx hs
               in remove_tx_from_output_pointer_map key is
                    (if hs' = [] then AList.delete i m else AList.update i hs' m)))"

definition vt_remove_inner ::
  "hash \<Rightarrow> bool \<Rightarrow> ('p::linorder, 'f) transactions_pool \<Rightarrow> (vt_transaction option \<times> ('p, 'f) transactions_pool) option"
where
  "vt_remove_inner key consolidated p =
     (case section_remove vt_weight key (vts p) of
        (None, _) \<Rightarrow> Some (None, p)
      | (Some t, s) \<Rightarrow>
          if consolidated then Some (Some t, p\<lparr>vts := s\<rparr>)
          else map_option (\<lambda>m. (Some t, p\<lparr>vts := s, output_pointer_map := m\<rparr>))
                 (remove_tx_from_output_pointer_map key (vt_inputs t) (output_pointer_map p)))"

definition dr_remove_inner ::
  "hash \<Rightarrow> bool \<Rightarrow> ('p::linorder, 'f) transactions_pool \<Rightarrow> (dr_transaction option \<times> ('p, 'f) transactions_pool) option"
where
  "dr_remove_inner key consolidated p =
     (case section_remove dr_weight key (drs p) of
        (None, _) \<Rightarrow> Some (None, p)
      | (Some t, s) \<Rightarrow>
          if consolidated then Some (Some t, p\<lparr>drs := s\<rparr>)
          else map_option (\<lambda>m. (Some t, p\<lparr>drs := s, output_pointer_map := m\<rparr>))
                 (remove_tx_from_output_pointer_map key (dr_inputs t) (output_pointer_map p)))"

definition st_remove_inner ::
  "hash \<Rightarrow> bool \<Rightarrow> ('p::linorder, 'f) transactions_pool \<Rightarrow> (stake_tx option \<times> ('p, 'f) transactions_pool) option"
where
  "st_remove_inner key consolidated p =
     (case section_remove st_weight key (sts p) of
        (None, _) \<Rightarrow> Some (None, p)
      | (Some t, s) \<Rightarrow>
          if consolidated then Some (Some t, p\<lparr>sts := s\<rparr>)
          else map_option (\<lambda>m. (Some t, p\<lparr>sts := s, output_pointer_map := m\<rparr>))
                 (remove_tx_from_output_pointer_map key (st_inputs t) (output_pointer_map p)))"

definition ut_remove_inner ::
  "hash \<Rightarrow> ('p::linorder, 'f) transactions_pool \<Rightarrow> unstake_tx option \<times> ('p, 'f) transactions_pool"
where
  "ut_remove_inner key p = (case section_remove ut_weight key (uts p) of (t, s) \<Rightarrow> (t, p\<lparr>uts := s\<rparr>))"

fun remove_hashes :: "hash list \<Rightarrow> ('p::linorder, 'f) transactions_pool \<Rightarrow> ('p, 'f) transactions_pool option" where
  "remove_hashes [] p = Some p"
| "remove_hashes (h # hs) p =
     Option.bind (vt_remove_inner h False p) (\<lambda>(_, p1).
     Option.bind (dr_remove_inner h False p1) (\<lambda>(_, p2).
     Option.bind (st_remove_inner h False p2) (\<lambda>(_, p3). remove_hashes hs p3)))"

fun remove_inputs :: "input list \<Rightarrow> ('p::linorder, 'f) transactions_pool \<Rightarrow> ('p, 'f) transactions_pool option" where
  "remove_inputs [] p = Some p"
| "remove_inputs (i # is) p =
     (case map_of (output_pointer_map p) i of
        None \<Rightarrow> remove_inputs is p
      | Some hashes \<Rightarrow>
          Option.bind (remove_hashes hashes (p\<lparr>output_pointer_map := AList.delete i (output_pointer_map p)\<rparr>))
            (remove_inputs is))"

definition vt_remove ::
  "(transaction \<Rightarrow> hash) \<Rightarrow> vt_transaction \<Rightarrow> ('p::linorder, 'f) transactions_pool
   \<Rightarrow> (vt_transaction option \<times> ('p, 'f) transactions_pool) option"
where
  "vt_remove hash_of t p =
     Option.bind (vt_remove_inner (hash_of (ValueTransfer t)) True p) (\<lambda>(r, p1).
       map_option (Pair r) (remove_inputs (vt_inputs t) p1))"

definition dr_remove ::
  "(transaction \<Rightarrow> hash) \<Rightarrow> dr_transaction \<Rightarrow> ('p::linorder, 'f) transactions_pool
   \<Rightarrow> (dr_transaction option \<times> ('p, 'f) transactions_pool) option"
where
  "dr_remove hash_of t p =
     Option.bind (dr_remove_inner (hash_of (DataRequest t)) True p) (\<lambda>(r, p1).
       map_option (Pair r) (remove_inputs (dr_inputs t) p1))"

definition st_remove ::
  "(transaction \<Rightarrow> hash) \<Rightarrow> stake_tx \<Rightarrow> ('p::linorder, 'f) transactions_pool
   \<Rightarrow> (stake_tx option \<times> ('p, 'f) transactions_pool) option"
where
  "st_remove hash_of t p =
     Option.bind (st_remove_inner (hash_of (Stake t)) True p) (\<lambda>(r, p1).
       map_option (Pair r) (remove_inputs (st_inputs t) p1))"

definition ut_remove ::
  "(transaction \<Rightarrow> hash) \<Rightarrow> unstake_tx \<Rightarrow> ('p::linorder, 'f) transactions_pool
   \<Rightarrow> unstake_tx option \<times> ('p, 'f) transactions_pool"
where
  "ut_remove hash_of t p = ut_remove_inner (hash_of (Unstake t)) p"

fun remove_overstake_transactions ::
  "(transaction \<Rightarrow> hash) \<Rightarrow> hash list \<Rightarrow> ('p::linorder, 'f) transactions_pool \<Rightarrow> ('p, 'f) transactions_pool option"
where
  "remove_overstake_transactions hash_of [] p = Some p"
| "remove_overstake_transactions hash_of (h # hs) p =
     (case map_of (entries (sts p)) h of
        None \<Rightarrow> remove_overstake_transactions hash_of hs p
      | Some (_, t) \<Rightarrow>
          Option.bind (st_remove hash_of t p) (\<lambda>(_, p'). remove_overstake_transactions hash_of hs p'))"

definition remove_invalid_unstake_transactions ::
  "(transaction \<Rightarrow> hash) \<Rightarrow> hash list \<Rightarrow> ('p::linorder, 'f) transactions_pool \<Rightarrow> ('p, 'f) transactions_pool"
where
  "remove_invalid_unstake_transactions hash_of hs p =
     foldl (\<lambda>q h. case map_of (entries (uts q)) h of None \<Rightarrow> q | Some (_, t) \<Rightarrow> snd (ut_remove hash_of t q)) p hs"

section \<open>Commitments and reveals\<close>

text \<open>The commitments of a data request that do not spend an input twice, up to the number it asks
  for. An input counts as spent from the first commitment that is taken.\<close>

fun collateral_free :: "input list \<Rightarrow> input set \<Rightarrow> input set \<Rightarrow> input set option" where
  "collateral_free [] spent current = Some current"
| "collateral_free (i # is) spent current =
     (if i \<in> spent \<or> i \<in> current then None else collateral_free is spent (insert i current))"

fun filter_commits ::
  "(hash \<times> commit_transaction) list \<Rightarrow> hash list \<Rightarrow> nat \<Rightarrow> input set
   \<Rightarrow> commit_transaction list \<times> (hash \<times> commit_transaction) list \<times> input set"
where
  "filter_commits idx [] n spent = ([], idx, spent)"
| "filter_commits idx (h # hs) 0 spent = ([], idx, spent)"
| "filter_commits idx (h # hs) (Suc n) spent =
     (case map_of idx h of
        None \<Rightarrow> filter_commits idx hs (Suc n) spent
      | Some c \<Rightarrow>
          (case collateral_free (commit_collateral c) spent {} of
             None \<Rightarrow> filter_commits (AList.delete h idx) hs (Suc n) spent
           | Some current \<Rightarrow>
               (case filter_commits (AList.delete h idx) hs n (spent \<union> current) of
                  (cs, idx', spent') \<Rightarrow> (c # cs, idx', spent'))))"

fun remove_commits_loop ::
  "dr_pool \<Rightarrow> (hash \<times> (pkh \<times> hash) list) list \<Rightarrow> (hash \<times> commit_transaction) list \<Rightarrow> input set
   \<Rightarrow> commit_transaction list \<times> u64 \<times> hash list"
where
  "remove_commits_loop dr_pool [] idx spent = ([], 0, [])"
| "remove_commits_loop dr_pool ((dr_pointer, co_map) # rest) idx spent =
     (case get_dr_output dr_pool dr_pointer of
        None \<Rightarrow> remove_commits_loop dr_pool rest idx spent
      | Some out \<Rightarrow>
          let n_commits = unat (witnesses out)
          in if length co_map \<ge> n_commits then
               (case filter_commits idx (map snd co_map) n_commits spent of
                  (cs, idx', spent') \<Rightarrow>
                    (case remove_commits_loop dr_pool rest idx' spent' of
                       (cs', fee, ptrs) \<Rightarrow>
                         if length cs = n_commits
                         then (cs @ cs', commit_and_reveal_fee out * of_nat n_commits + fee, dr_pointer # ptrs)
                         else (cs', fee, ptrs)))
             else remove_commits_loop dr_pool rest idx spent)"

definition remove_commits ::
  "dr_pool \<Rightarrow> ('p, 'f) transactions_pool
   \<Rightarrow> (commit_transaction list \<times> u64 \<times> hash list) \<times> ('p, 'f) transactions_pool"
where
  "remove_commits dr_pool p =
     (remove_commits_loop dr_pool (co_transactions p) (co_hash_index p) {}, clear_commits p)"

text \<open>\<^const>\<open>None\<close> is the panic on a reveal that the index by hash does not have.\<close>

fun get_reveals_loop ::
  "dr_pool \<Rightarrow> (hash \<times> reveal_transaction) list \<Rightarrow> (hash \<times> (pkh \<times> hash) list) list
   \<Rightarrow> (reveal_transaction list \<times> u64) option"
where
  "get_reveals_loop dr_pool idx [] = Some ([], 0)"
| "get_reveals_loop dr_pool idx ((dr_pointer, re_map) # rest) =
     (case get_dr_output dr_pool dr_pointer of
        None \<Rightarrow> get_reveals_loop dr_pool idx rest
      | Some out \<Rightarrow>
          Option.bind (those (map (\<lambda>(_, h). map_of idx h) re_map)) (\<lambda>rs.
            map_option (\<lambda>(rs', fee). (rs @ rs', commit_and_reveal_fee out * of_nat (length re_map) + fee))
              (get_reveals_loop dr_pool idx rest)))"

definition pool_get_reveals :: "dr_pool \<Rightarrow> ('p, 'f) transactions_pool \<Rightarrow> (reveal_transaction list \<times> u64) option" where
  "pool_get_reveals dr_pool p = get_reveals_loop dr_pool (re_hash_index p) (re_transactions p)"

definition remove_one_reveal ::
  "hash \<Rightarrow> pkh \<Rightarrow> hash \<Rightarrow> ('p, 'f) transactions_pool \<Rightarrow> (reveal_transaction option \<times> ('p, 'f) transactions_pool) option"
where
  "remove_one_reveal dr_hash k re_hash p =
     (case map_of (re_hash_index p) re_hash of
        None \<Rightarrow> Some (None, p)
      | Some r \<Rightarrow>
          let p1 = p\<lparr>re_hash_index := AList.delete re_hash (re_hash_index p)\<rparr>
          in (case map_of (re_transactions p1) dr_hash of
                None \<Rightarrow> None
              | Some re_map \<Rightarrow>
                  let re_map' = AList.delete k re_map
                  in Some (Some r, p1\<lparr>re_transactions :=
                       (if re_map' = [] then AList.delete dr_hash (re_transactions p1)
                        else AList.update dr_hash re_map' (re_transactions p1))\<rparr>)))"

definition clear_reveals_from_finished_dr ::
  "hash \<Rightarrow> ('p, 'f) transactions_pool \<Rightarrow> ('p, 'f) transactions_pool"
where
  "clear_reveals_from_finished_dr dr_hash p =
     (case map_of (re_transactions p) dr_hash of
        None \<Rightarrow> p
      | Some re_map \<Rightarrow>
          p\<lparr>re_transactions := AList.delete dr_hash (re_transactions p),
            re_hash_index := foldl (\<lambda>m h. AList.delete h m) (re_hash_index p) (map snd re_map)\<rparr>)"

section \<open>The size limit and insertion\<close>

lemma length_delete_less: "map_of m k = Some v \<Longrightarrow> length (AList.delete k m) < length m"
  by (induction m) (auto split: if_splits intro: le_imp_less_Suc length_delete_le)

lemma section_remove_less:
  "section_remove weight key s = (Some t, s') \<Longrightarrow> length (entries s') < length (entries s)"
  by (auto simp: section_remove_def length_delete_less split: option.splits)

lemma vt_remove_inner_less:
  "vt_remove_inner key b p = Some (Some t, p') \<Longrightarrow>
   length (entries (vts p')) + length (entries (drs p')) < length (entries (vts p)) + length (entries (drs p))"
  by (auto simp: vt_remove_inner_def dest: section_remove_less split: prod.splits option.splits if_splits)

lemma dr_remove_inner_less:
  "dr_remove_inner key b p = Some (Some t, p') \<Longrightarrow>
   length (entries (vts p')) + length (entries (drs p')) < length (entries (vts p)) + length (entries (drs p))"
  by (auto simp: dr_remove_inner_def dest: section_remove_less split: prod.splits option.splits if_splits)

function remove_transactions_for_size_limit ::
  "('f \<Rightarrow> u64 \<Rightarrow> u64 \<Rightarrow> bool) \<Rightarrow> ('p::linorder, 'f) transactions_pool
   \<Rightarrow> (transaction list \<times> ('p, 'f) transactions_pool) option"
where
  "remove_transactions_for_size_limit more_vtts p =
     (if total_transactions_weight p \<le> weight_limit p then Some ([], p)
      else if more_vtts (vt_to_dr_factor p) (total_weight (vts p)) (total_weight (drs p)) then
        (case sorted_index (vts p) of
           [] \<Rightarrow> None
         | (_, h) # _ \<Rightarrow>
             (case vt_remove_inner h False p of
                Some (Some t, p') \<Rightarrow>
                  map_option (\<lambda>(ts, q). (ValueTransfer t # ts, q)) (remove_transactions_for_size_limit more_vtts p')
              | _ \<Rightarrow> None))
      else
        (case sorted_index (drs p) of
           [] \<Rightarrow> None
         | (_, h) # _ \<Rightarrow>
             (case dr_remove_inner h False p of
                Some (Some t, p') \<Rightarrow>
                  map_option (\<lambda>(ts, q). (DataRequest t # ts, q)) (remove_transactions_for_size_limit more_vtts p')
              | _ \<Rightarrow> None)))"
  by pat_completeness auto
termination
  by (relation "measure (\<lambda>(_, p). length (entries (vts p)) + length (entries (drs p)))")
    (auto dest: vt_remove_inner_less dr_remove_inner_less)

declare remove_transactions_for_size_limit.simps [simp del]

definition set_total_weight_limit ::
  "('f \<Rightarrow> u64 \<Rightarrow> u64 \<Rightarrow> bool) \<Rightarrow> u64 \<Rightarrow> 'f \<Rightarrow> ('p::linorder, 'f) transactions_pool
   \<Rightarrow> (transaction list \<times> ('p, 'f) transactions_pool) option"
where
  "set_total_weight_limit more_vtts limit factor p =
     remove_transactions_for_size_limit more_vtts (p\<lparr>weight_limit := limit, vt_to_dr_factor := factor\<rparr>)"

definition push_hash :: "hash \<Rightarrow> input list \<Rightarrow> (output_pointer \<times> hash list) list \<Rightarrow> (output_pointer \<times> hash list) list" where
  "push_hash h inputs m =
     foldl (\<lambda>acc i. AList.update i ((case map_of acc i of Some hs \<Rightarrow> hs | None \<Rightarrow> []) @ [h]) acc) m inputs"

definition insert_nested :: "hash \<Rightarrow> pkh \<Rightarrow> hash \<Rightarrow> (hash \<times> (pkh \<times> hash) list) list \<Rightarrow> (hash \<times> (pkh \<times> hash) list) list" where
  "insert_nested dr_pointer k h m =
     AList.update dr_pointer (AList.update k h (case map_of m dr_pointer of Some hm \<Rightarrow> hm | None \<Rightarrow> [])) m"

fun pool_insert ::
  "(transaction \<Rightarrow> hash) \<Rightarrow> (u8 list \<Rightarrow> pkh) \<Rightarrow> (u64 \<Rightarrow> u32 \<Rightarrow> 'p::linorder) \<Rightarrow> ('f \<Rightarrow> u64 \<Rightarrow> u64 \<Rightarrow> bool)
   \<Rightarrow> transaction \<Rightarrow> u64 \<Rightarrow> ('p, 'f) transactions_pool \<Rightarrow> (transaction list \<times> ('p, 'f) transactions_pool) option"
where
  "pool_insert hash_of pkh_of prio more_vtts (ValueTransfer t) fee p =
     (let key = hash_of (ValueTransfer t)
      in if fee < minimum_vtt_fee p then Some ([ValueTransfer t], p)
         else remove_transactions_for_size_limit more_vtts
                (p\<lparr>output_pointer_map := push_hash key (vt_inputs t) (output_pointer_map p),
                   vts := section_insert vt_weight key (prio fee (vt_weight t)) t (vts p)\<rparr>))"
| "pool_insert hash_of pkh_of prio more_vtts (DataRequest t) fee p =
     (let key = hash_of (DataRequest t)
      in if calculate_reward_collateral_ratio (pool_collateral_minimum p) (collateral (dr_output t))
              (witness_reward (dr_output t)) > required_reward_collateral_ratio p
         then Some ([DataRequest t], p)
         else remove_transactions_for_size_limit more_vtts
                (p\<lparr>output_pointer_map := push_hash key (dr_inputs t) (output_pointer_map p),
                   drs := section_insert dr_weight key (prio fee (dr_weight t)) t (drs p)\<rparr>))"
| "pool_insert hash_of pkh_of prio more_vtts (Commit t) fee p =
     (case commit_signatures t of
        [] \<Rightarrow> None
      | sig # _ \<Rightarrow>
          remove_transactions_for_size_limit more_vtts
            (p\<lparr>co_hash_index := AList.update (hash_of (Commit t)) t (co_hash_index p),
               co_transactions := insert_nested (commit_dr_pointer t) (pkh_of (ks_public_key sig)) (hash_of (Commit t))
                 (co_transactions p)\<rparr>))"
| "pool_insert hash_of pkh_of prio more_vtts (Reveal t) fee p =
     remove_transactions_for_size_limit more_vtts
       (p\<lparr>re_hash_index := AList.update (hash_of (Reveal t)) t (re_hash_index p),
          re_transactions := insert_nested (reveal_dr_pointer t) (reveal_pkh t) (hash_of (Reveal t))
            (re_transactions p)\<rparr>)"
| "pool_insert hash_of pkh_of prio more_vtts (Stake t) fee p =
     (let key = hash_of (Stake t)
      in if fee < minimum_st_fee p then Some ([Stake t], p)
         else remove_transactions_for_size_limit more_vtts
                (p\<lparr>output_pointer_map := push_hash key (st_inputs t) (output_pointer_map p),
                   sts := section_insert st_weight key (prio fee (st_weight t)) t (sts p)\<rparr>))"
| "pool_insert hash_of pkh_of prio more_vtts (Unstake t) fee p =
     (let key = hash_of (Unstake t)
      in if fee < minimum_ut_fee p then Some ([Unstake t], p)
         else remove_transactions_for_size_limit more_vtts
                (p\<lparr>uts := section_insert ut_weight key (prio fee (ut_weight t)) t (uts p)\<rparr>))"
| "pool_insert hash_of pkh_of prio more_vtts (Tally t) fee p = None"
| "pool_insert hash_of pkh_of prio more_vtts (Mint t) fee p = None"

text \<open>\<^verbatim>\<open>vt_retain\<close> takes 1 off the total weight for each transaction that goes, not its weight.\<close>

definition vt_retain :: "(vt_transaction \<Rightarrow> bool) \<Rightarrow> ('p::linorder, 'f) transactions_pool \<Rightarrow> ('p, 'f) transactions_pool" where
  "vt_retain f p =
     (let gone = filter (\<lambda>(_, _, t). \<not> f t) (entries (vts p))
      in p\<lparr>vts := \<lparr>entries = filter (\<lambda>(_, _, t). f t) (entries (vts p)),
                   sorted_index = foldl (\<lambda>idx (h, pr, _). remove1 (pr, h) idx) (sorted_index (vts p)) gone,
                   total_weight = foldl (\<lambda>w _. w - 1) (total_weight (vts p)) gone\<rparr>\<rparr>)"

section \<open>Unconfirmed transactions\<close>

definition update_unconfirmed_transactions :: "('p, 'f) transactions_pool \<Rightarrow> ('p, 'f) transactions_pool" where
  "update_unconfirmed_transactions p = p\<lparr>unconfirmed := uc_update (unconfirmed p)\<rparr>"

definition insert_unconfirmed_transactions :: "hash \<Rightarrow> ('p, 'f) transactions_pool \<Rightarrow> ('p, 'f) transactions_pool" where
  "insert_unconfirmed_transactions h p = p\<lparr>unconfirmed := uc_insert h (unconfirmed p)\<rparr>"

fun remove_unconfirmed_loop ::
  "hash list \<Rightarrow> ('p::linorder, 'f) transactions_pool \<Rightarrow> (transaction list \<times> ('p, 'f) transactions_pool) option"
where
  "remove_unconfirmed_loop [] p = Some ([], p)"
| "remove_unconfirmed_loop (h # hs) p =
     (case pool_get h p of
        Some (ValueTransfer t) \<Rightarrow>
          Option.bind (vt_remove_inner h False p) (\<lambda>(_, q). map_option (\<lambda>(ts, r). (ValueTransfer t # ts, r)) (remove_unconfirmed_loop hs q))
      | Some (DataRequest t) \<Rightarrow>
          Option.bind (dr_remove_inner h False p) (\<lambda>(_, q). map_option (\<lambda>(ts, r). (DataRequest t # ts, r)) (remove_unconfirmed_loop hs q))
      | Some (Stake t) \<Rightarrow>
          Option.bind (st_remove_inner h False p) (\<lambda>(_, q). map_option (\<lambda>(ts, r). (Stake t # ts, r)) (remove_unconfirmed_loop hs q))
      | Some (Unstake t) \<Rightarrow>
          map_option (\<lambda>(ts, r). (Unstake t # ts, r)) (remove_unconfirmed_loop hs (snd (ut_remove_inner h p)))
      | _ \<Rightarrow> remove_unconfirmed_loop hs p)"

definition remove_unconfirmed_transactions ::
  "('p::linorder, 'f) transactions_pool \<Rightarrow> (transaction list \<times> ('p, 'f) transactions_pool) option"
where
  "remove_unconfirmed_transactions p =
     (case uc_remove_all (unconfirmed p) of
        (hs, u) \<Rightarrow>
          map_option (\<lambda>(ts, q). (ts, clear_reveals (clear_commits q)))
            (remove_unconfirmed_loop hs (p\<lparr>unconfirmed := u\<rparr>)))"

end
