(* ===== verification/Tx_Pool_Props.thy ===== *)
theory Tx_Pool_Props
  imports Tx_Pool Superblock_Votes
begin

text \<open>
  The pool of transactions stays consistent: total weights, sorted indexes and the map of spent
  outputs are exact after any sequence of operations; consolidating a transaction removes every
  transaction that spends one of its inputs; and the size limit is enforced, or the node panics.
\<close>

section \<open>Sections\<close>

definition sec_ok :: "('t \<Rightarrow> hash) \<Rightarrow> ('t \<Rightarrow> u32) \<Rightarrow> ('p::linorder, 't) tx_section \<Rightarrow> bool" where
  "sec_ok key_of weight s \<longleftrightarrow>
     hm_wf (entries s) \<and> (\<forall>k p t. map_of (entries s) k = Some (p, t) \<longrightarrow> key_of t = k)
     \<and> sorted (sorted_index s) \<and> distinct (sorted_index s)
     \<and> set (sorted_index s) = (\<lambda>(k, p, t). (p, k)) ` set (entries s)
     \<and> total_weight s = (\<Sum>(k, p, t) \<leftarrow> entries s. ucast (weight t))"

lemma sec_okD:
  assumes "sec_ok key_of weight s"
  shows "hm_wf (entries s)" "\<And>k p t. map_of (entries s) k = Some (p, t) \<Longrightarrow> key_of t = k"
    "sorted (sorted_index s)" "distinct (sorted_index s)"
    "set (sorted_index s) = (\<lambda>(k, p, t). (p, k)) ` set (entries s)"
    "total_weight s = (\<Sum>(k, p, t) \<leftarrow> entries s. ucast (weight t))"
  using assms unfolding sec_ok_def by simp_all

lemma sec_ok_empty: "sec_ok key_of weight empty_section"
  by (simp add: sec_ok_def empty_section_def hm_wf_def)

lemma sec_ok_insert:
  assumes ok: "sec_ok key_of weight s" and new: "map_of (entries s) k = None" and k: "key_of t = k"
  shows "sec_ok key_of weight (section_insert weight k p t s)"
proof -
  let ?w = "\<lambda>(k, p, t). ucast (weight t) :: u64"
  have wf: "hm_wf (entries s)" using sec_okD(1) [OF ok] .
  have "set (AList.update k (p, t) (entries s)) = insert (k, p, t) (set (entries s))"
    using new hm.set_insert_kv [OF wf, of k "(p, t)"] by (auto simp: map_of_eq_None_iff)
  moreover have "sum_list (map ?w (AList.update k (p, t) (entries s))) = ?w (k, p, t) + sum_list (map ?w (entries s))"
    using hm.sum_insert_new [OF wf new] .
  ultimately show ?thesis
    using sec_okD [OF ok] k
    by (auto simp: sec_ok_def section_insert_def hm.invar_insert update_conv' sorted_insort_insert distinct_insort_insert
      set_insort_insert split: if_splits)
qed

lemma sec_ok_remove:
  assumes ok: "sec_ok key_of weight s" and rem: "section_remove weight k s = (r, s')"
  shows "sec_ok key_of weight s'" "map_of (entries s') = (map_of (entries s))(k := None)"
    "r = map_option snd (map_of (entries s) k)" "set (entries s') = {e \<in> set (entries s). fst e \<noteq> k}"
proof -
  let ?w = "\<lambda>(k, p, t). ucast (weight t) :: u64"
  have wf: "hm_wf (entries s)" using sec_okD(1) [OF ok] .
  have "sec_ok key_of weight s' \<and> map_of (entries s') = (map_of (entries s))(k := None)
      \<and> r = map_option snd (map_of (entries s) k) \<and> set (entries s') = {e \<in> set (entries s). fst e \<noteq> k}"
  proof (cases "map_of (entries s) k")
    case None
    then have "s' = s" "r = None" using rem by (simp_all add: section_remove_def)
    then show ?thesis using ok None by (auto simp: fun_upd_idem map_of_eq_None_iff)
  next
    case (Some x)
    obtain p t where x: "x = (p, t)" by (cases x)
    have s': "entries s' = AList.delete k (entries s)" "sorted_index s' = remove1 (p, k) (sorted_index s)"
      "total_weight s' = total_weight s - ucast (weight t)" "r = Some t"
      using rem Some x by (auto simp: section_remove_def)
    have m': "map_of (entries s') = (map_of (entries s))(k := None)" by (simp add: s' delete_conv')
    have set': "set (entries s') = {e \<in> set (entries s). fst e \<noteq> k}" using hm.set_remove_k [OF wf] by (simp add: s')
    have "sum_list (map ?w (entries s)) = ?w (k, p, t) + sum_list (map ?w (entries s'))"
      using hm.sum_remove_k [OF wf Some, of ?w] x by (simp add: s')
    moreover have "set (sorted_index s') = (\<lambda>(k, p, t). (p, k)) ` set (entries s')"
    proof -
      have uniq: "p' = p" if "(k, p', t') \<in> set (entries s)" for p' t'
        using that Some x wf by (auto simp: hm.entry_iff)
      have "set (sorted_index s') = (\<lambda>(k, p, t). (p, k)) ` set (entries s) - {(p, k)}"
        using sec_okD(4,5) [OF ok] by (simp add: s'(2))
      also have "\<dots> = (\<lambda>(k, p, t). (p, k)) ` set (entries s')"
        unfolding set' by (auto 0 3 intro: rev_image_eqI dest: uniq)
      finally show ?thesis .
    qed
    ultimately show ?thesis
      using sec_okD [OF ok] Some x m' set'
      by (auto simp: sec_ok_def s' hm.invar_remove sorted_remove1 split: if_splits)
  qed
  then show "sec_ok key_of weight s'" "map_of (entries s') = (map_of (entries s))(k := None)"
    "r = map_option snd (map_of (entries s) k)" "set (entries s') = {e \<in> set (entries s). fst e \<noteq> k}" by simp_all
qed

section \<open>The map of spent outputs\<close>

definition opm_get :: "(output_pointer \<times> hash list) list \<Rightarrow> output_pointer \<Rightarrow> hash list" where
  "opm_get m ptr = (case map_of m ptr of Some hs \<Rightarrow> hs | None \<Rightarrow> [])"

text \<open>The map lists, for every output, the hashes \<open>S ptr\<close>, except that the list of the output \<open>cur\<close>
  has already been taken out.\<close>

definition opm_rep ::
  "(output_pointer \<times> hash list) list \<Rightarrow> (output_pointer \<Rightarrow> hash multiset) \<Rightarrow> output_pointer option \<Rightarrow> bool"
where
  "opm_rep m S cur \<longleftrightarrow> hm_wf m \<and> (\<forall>ptr. map_of m ptr \<noteq> Some [])
     \<and> (\<forall>ptr. cur = Some ptr \<longrightarrow> map_of m ptr = None)
     \<and> (\<forall>ptr. cur \<noteq> Some ptr \<longrightarrow> mset (opm_get m ptr) = S ptr)"

definition repeated :: "input list \<Rightarrow> output_pointer \<Rightarrow> hash \<Rightarrow> hash multiset" where
  "repeated is ptr k = replicate_mset (count_list is ptr) k"

lemma repeated_simps [simp]:
  "repeated [] ptr k = {#}"
  "repeated (i # is) ptr k = (if i = ptr then add_mset k (repeated is ptr k) else repeated is ptr k)"
  by (simp_all add: repeated_def)

lemma remove_tx_step:
  assumes rep: "opm_rep m S cur" and hs: "map_of m i = Some hs" and S: "S i = add_mset k T"
  shows "\<exists>idx. position (\<lambda>x. x = k) hs = Some idx
     \<and> opm_rep (if swap_remove idx hs = [] then AList.delete i m else AList.update i (swap_remove idx hs) m) (S(i := T)) cur"
proof -
  have i: "cur \<noteq> Some i" using rep hs by (auto simp: opm_rep_def)
  have sub: "mset hs = add_mset k T"
    using rep i hs S unfolding opm_rep_def opm_get_def by (metis option.simps(5))
  then have "k \<in> set hs" by (metis set_mset_mset union_single_eq_member)
  then obtain idx where idx: "position (\<lambda>x. x = k) hs = Some idx"
    using position_None [of "\<lambda>x. x = k" hs] by (cases "position (\<lambda>x. x = k) hs") auto
  let ?hs = "swap_remove idx hs"
  let ?m = "if ?hs = [] then AList.delete i m else AList.update i ?hs m"
  have "mset hs = add_mset k (mset ?hs)"
    using position_Some [OF idx] mset_swap_remove by metis
  then have hs': "mset ?hs = T" using sub by simp
  have new: "map_of ?m ptr = (if ptr = i then (if ?hs = [] then None else Some ?hs) else map_of m ptr)" for ptr
    by (simp add: delete_conv' update_conv')
  then have "opm_get ?m ptr = (if ptr = i then ?hs else opm_get m ptr)" for ptr
    by (simp add: opm_get_def)
  moreover have "hm_wf ?m" using rep by (simp add: opm_rep_def hm.invar_insert hm.invar_remove)
  ultimately have "opm_rep ?m (S(i := T)) cur"
    using rep i hs' new unfolding opm_rep_def by (simp split: if_splits)
  with idx show ?thesis by blast
qed

lemma remove_tx_rep:
  "opm_rep m (\<lambda>ptr. S ptr + repeated is ptr k) cur \<Longrightarrow>
   \<exists>m'. remove_tx_from_output_pointer_map k is m = Some m' \<and> opm_rep m' S cur"
proof (induction "is" arbitrary: m)
  case (Cons i "is")
  let ?S = "\<lambda>ptr. S ptr + repeated (i # is) ptr k" and ?S' = "\<lambda>ptr. S ptr + repeated is ptr k"
  have S': "?S(i := S i + repeated is i k) = ?S'" by auto
  show ?case
  proof (cases "map_of m i")
    case None
    have "cur = Some i"
      using Cons.prems None unfolding opm_rep_def opm_get_def
      by (metis add_mset_not_empty mset.simps(1) option.simps(4) repeated_simps(2) union_mset_add_mset_right)
    then have "opm_rep m ?S' cur"
      using Cons.prems by (auto simp: opm_rep_def)
    then show ?thesis using Cons.IH None by simp
  next
    case (Some hs)
    have "?S i = add_mset k (S i + repeated is i k)" by simp
    from remove_tx_step [OF Cons.prems Some this, unfolded S'] obtain idx where
      "position (\<lambda>x. x = k) hs = Some idx"
      "opm_rep (if swap_remove idx hs = [] then AList.delete i m else AList.update i (swap_remove idx hs) m) ?S' cur"
      by blast
    then show ?thesis using Cons.IH Some by (simp add: Let_def)
  qed
qed simp

lemma push_hash_rep:
  "opm_rep m S None \<Longrightarrow> opm_rep (push_hash k is m) (\<lambda>ptr. S ptr + repeated is ptr k) None"
proof (induction "is" arbitrary: m S)
  case (Cons i "is")
  let ?m = "AList.update i (opm_get m i @ [k]) m"
  have "opm_get ?m ptr = opm_get m ptr @ (if ptr = i then [k] else [])" for ptr
    by (simp add: opm_get_def update_conv')
  then have "opm_rep ?m (S(i := add_mset k (S i))) None"
    using Cons.prems by (auto simp: opm_rep_def hm.invar_insert update_conv')
  from Cons.IH [OF this] have "opm_rep (push_hash k is ?m) (\<lambda>ptr. (S(i := add_mset k (S i))) ptr + repeated is ptr k) None" .
  moreover have "(\<lambda>ptr. (S(i := add_mset k (S i))) ptr + repeated is ptr k) = (\<lambda>ptr. S ptr + repeated (i # is) ptr k)"
    by auto
  ultimately show ?case by (simp add: push_hash_def opm_get_def)
qed (simp add: push_hash_def)

section \<open>Removing a transaction of any kind\<close>

definition spend_list :: "('t \<Rightarrow> input list) \<Rightarrow> (hash \<times> 'p \<times> 't) list \<Rightarrow> (hash \<times> input list) multiset" where
  "spend_list inputs es = image_mset (\<lambda>(k, _, t). (k, inputs t)) (mset es)"

definition spenders :: "(hash \<times> input list) multiset \<Rightarrow> output_pointer \<Rightarrow> hash multiset" where
  "spenders L ptr = sum_mset (image_mset (\<lambda>(k, is). repeated is ptr k) L)"

lemma spenders_simps [simp]:
  "spenders {#} ptr = {#}"
  "spenders (add_mset (k, is) L) ptr = repeated is ptr k + spenders L ptr"
  "spenders (L + M) ptr = spenders L ptr + spenders M ptr"
  by (simp_all add: spenders_def)

lemma in_spenders: "k \<in># spenders L ptr \<longleftrightarrow> (\<exists>is. (k, is) \<in># L \<and> ptr \<in> set is)"
  by (auto simp: spenders_def repeated_def count_list_0_iff in_replicate_mset neq0_conv [symmetric] split: prod.splits)

lemma set_spend_list: "set_mset (spend_list inputs es) = (\<lambda>(k, _, t). (k, inputs t)) ` set es"
  by (simp add: spend_list_def)

lemma spend_list_delete:
  "hm_wf es \<Longrightarrow> map_of es k = Some (p, t) \<Longrightarrow>
   spend_list inputs es = add_mset (k, inputs t) (spend_list inputs (AList.delete k es))"
  using hm.mset_remove_k [of es k "(p, t)"] by (simp add: spend_list_def)

text \<open>The three kinds of transactions that spend outputs are removed in the same way. A kind is
  given by where its section is in the pool; the removal keeps the map of spent outputs exact.\<close>

locale spending_kind =
  fixes sec :: "('p::linorder, 'f) transactions_pool \<Rightarrow> ('p, 't) tx_section"
    and upd :: "('p, 't) tx_section \<Rightarrow> ('p, 'f) transactions_pool \<Rightarrow> ('p, 'f) transactions_pool"
    and weight :: "'t \<Rightarrow> u32"
    and inputs :: "'t \<Rightarrow> input list"
    and remove_inner :: "hash \<Rightarrow> bool \<Rightarrow> ('p, 'f) transactions_pool \<Rightarrow> ('t option \<times> ('p, 'f) transactions_pool) option"
  assumes remove_inner_eq: "remove_inner key consolidated p =
      (case section_remove weight key (sec p) of
         (None, _) \<Rightarrow> Some (None, p)
       | (Some t, s) \<Rightarrow>
           if consolidated then Some (Some t, upd s p)
           else map_option (\<lambda>m. (Some t, (upd s p)\<lparr>output_pointer_map := m\<rparr>))
                  (remove_tx_from_output_pointer_map key (inputs t) (output_pointer_map p)))"
    and sec_upd: "sec ((upd s p)\<lparr>output_pointer_map := m\<rparr>) = s" "sec (upd s p) = s"
    and opm_upd: "output_pointer_map (upd s p) = output_pointer_map p"
    and upd_sec: "upd (sec p) p = p"
begin

lemma remove_inner_rep:
  assumes ok: "sec_ok key_of weight (sec p)"
    and rep: "opm_rep (output_pointer_map p) (\<lambda>ptr. spenders (spend_list inputs (entries (sec p))) ptr + E ptr) cur"
  shows "\<exists>s m. remove_inner k False p
       = Some (map_option snd (map_of (entries (sec p)) k), (upd s p)\<lparr>output_pointer_map := m\<rparr>)
     \<and> sec_ok key_of weight s \<and> set (entries s) = {e \<in> set (entries (sec p)). fst e \<noteq> k}
     \<and> opm_rep m (\<lambda>ptr. spenders (spend_list inputs (entries s)) ptr + E ptr) cur"
proof (cases "map_of (entries (sec p)) k")
  case None
  then have "remove_inner k False p = Some (None, p)"
    by (simp add: remove_inner_eq section_remove_def)
  moreover have "fst e \<noteq> k" if "e \<in> set (entries (sec p))" for e
    using that None by (auto simp: map_of_eq_None_iff)
  ultimately show ?thesis
    using None ok rep upd_sec [of p] by (intro exI [of _ "sec p"] exI [of _ "output_pointer_map p"]) auto
next
  case (Some x)
  obtain pr t where x: "x = (pr, t)" by (cases x)
  obtain s where s: "section_remove weight k (sec p) = (Some t, s)"
    using Some x by (simp add: section_remove_def)
  note s_ok = sec_ok_remove [OF ok s]
  have es: "entries s = AList.delete k (entries (sec p))"
    using s Some x by (auto simp: section_remove_def)
  have "opm_rep (output_pointer_map p)
      (\<lambda>ptr. (spenders (spend_list inputs (entries s)) ptr + E ptr) + repeated (inputs t) ptr k) cur"
    using rep spend_list_delete [OF sec_okD(1) [OF ok] Some [unfolded x], of inputs] by (simp add: es ac_simps)
  from remove_tx_rep [OF this] obtain m where
    "remove_tx_from_output_pointer_map k (inputs t) (output_pointer_map p) = Some m"
    "opm_rep m (\<lambda>ptr. spenders (spend_list inputs (entries s)) ptr + E ptr) cur"
    by blast
  then show ?thesis
    using s_ok s Some x by (intro exI [of _ s] exI [of _ m]) (simp add: remove_inner_eq)
qed

lemma remove_inner_consolidated:
  assumes ok: "sec_ok key_of weight (sec p)"
  shows "\<exists>s. remove_inner k True p = Some (map_option snd (map_of (entries (sec p)) k), upd s p)
     \<and> sec_ok key_of weight s \<and> set (entries s) = {e \<in> set (entries (sec p)). fst e \<noteq> k}
     \<and> (\<forall>ptr. spenders (spend_list inputs (entries (sec p))) ptr = spenders (spend_list inputs (entries s)) ptr
          + (case map_of (entries (sec p)) k of Some (_, t) \<Rightarrow> repeated (inputs t) ptr k | None \<Rightarrow> {#}))"
proof (cases "map_of (entries (sec p)) k")
  case None
  then have "remove_inner k True p = Some (None, p)"
    by (simp add: remove_inner_eq section_remove_def)
  moreover have "fst e \<noteq> k" if "e \<in> set (entries (sec p))" for e
    using that None by (auto simp: map_of_eq_None_iff)
  ultimately show ?thesis
    using None ok upd_sec [of p] by (intro exI [of _ "sec p"]) auto
next
  case (Some x)
  obtain pr t where x: "x = (pr, t)" by (cases x)
  obtain s where s: "section_remove weight k (sec p) = (Some t, s)"
    using Some x by (simp add: section_remove_def)
  have es: "entries s = AList.delete k (entries (sec p))"
    using s Some x by (auto simp: section_remove_def)
  then show ?thesis
    using sec_ok_remove [OF ok s] s Some x spend_list_delete [OF sec_okD(1) [OF ok] Some [unfolded x], of inputs]
    by (intro exI [of _ s]) (simp add: remove_inner_eq ac_simps)
qed

end

interpretation vtk: spending_kind vts "\<lambda>s p. p\<lparr>vts := s\<rparr>" vt_weight vt_inputs vt_remove_inner
  by unfold_locales (simp_all add: vt_remove_inner_def)

interpretation drk: spending_kind drs "\<lambda>s p. p\<lparr>drs := s\<rparr>" dr_weight dr_inputs dr_remove_inner
  by unfold_locales (simp_all add: dr_remove_inner_def)

interpretation stk: spending_kind sts "\<lambda>s p. p\<lparr>sts := s\<rparr>" st_weight st_inputs st_remove_inner
  by unfold_locales (simp_all add: st_remove_inner_def)

section \<open>Removing the transactions that spend an output\<close>

definition pool_ok :: "(transaction \<Rightarrow> hash) \<Rightarrow> ('p::linorder, 'f) transactions_pool \<Rightarrow> bool" where
  "pool_ok hash_of p \<longleftrightarrow>
     sec_ok (\<lambda>t. hash_of (ValueTransfer t)) vt_weight (vts p) \<and> sec_ok (\<lambda>t. hash_of (DataRequest t)) dr_weight (drs p)
     \<and> sec_ok (\<lambda>t. hash_of (Stake t)) st_weight (sts p) \<and> sec_ok (\<lambda>t. hash_of (Unstake t)) ut_weight (uts p)"

definition pool_spenders :: "('p, 'f) transactions_pool \<Rightarrow> output_pointer \<Rightarrow> hash multiset" where
  "pool_spenders p ptr = spenders (spend_list vt_inputs (entries (vts p))) ptr
     + spenders (spend_list dr_inputs (entries (drs p))) ptr + spenders (spend_list st_inputs (entries (sts p))) ptr"

definition pool_rep ::
  "('p, 'f) transactions_pool \<Rightarrow> (output_pointer \<Rightarrow> hash multiset) \<Rightarrow> output_pointer option \<Rightarrow> bool"
where
  "pool_rep p E cur \<longleftrightarrow> opm_rep (output_pointer_map p) (\<lambda>ptr. pool_spenders p ptr + E ptr) cur"

text \<open>A pool from which transactions were removed by their hash and inputs; nothing else changed.\<close>

definition keeps :: "(hash \<Rightarrow> input list \<Rightarrow> bool) \<Rightarrow> ('p, 'f) transactions_pool \<Rightarrow> ('p, 'f) transactions_pool \<Rightarrow> bool" where
  "keeps K p q \<longleftrightarrow>
     (\<exists>v d s m. q = p\<lparr>vts := v, drs := d, sts := s, output_pointer_map := m\<rparr>)
     \<and> set (entries (vts q)) = {(k, pr, t) \<in> set (entries (vts p)). K k (vt_inputs t)}
     \<and> set (entries (drs q)) = {(k, pr, t) \<in> set (entries (drs p)). K k (dr_inputs t)}
     \<and> set (entries (sts q)) = {(k, pr, t) \<in> set (entries (sts p)). K k (st_inputs t)}"

lemma keeps_refl: "(\<And>k is. K k is) \<Longrightarrow> keeps K p p"
  unfolding keeps_def by (intro conjI exI [of _ "vts p"] exI [of _ "drs p"] exI [of _ "sts p"] exI [of _ "output_pointer_map p"]) auto

lemma keepsD:
  assumes "keeps K p q"
  shows "set (entries (vts q)) = {(k, pr, t) \<in> set (entries (vts p)). K k (vt_inputs t)}"
    "set (entries (drs q)) = {(k, pr, t) \<in> set (entries (drs p)). K k (dr_inputs t)}"
    "set (entries (sts q)) = {(k, pr, t) \<in> set (entries (sts p)). K k (st_inputs t)}"
    "uts q = uts p" "weight_limit q = weight_limit p"
  using assms unfolding keeps_def by auto

lemma keeps_trans:
  assumes "keeps K p q" and "keeps L q r"
  shows "keeps (\<lambda>k is. K k is \<and> L k is) p r"
proof -
  obtain v d s m v' d' s' m' where "q = p\<lparr>vts := v, drs := d, sts := s, output_pointer_map := m\<rparr>"
    "r = q\<lparr>vts := v', drs := d', sts := s', output_pointer_map := m'\<rparr>"
    using assms unfolding keeps_def by blast
  then have "r = p\<lparr>vts := v', drs := d', sts := s', output_pointer_map := m'\<rparr>" by simp
  then show ?thesis
    using assms unfolding keeps_def by auto
qed

lemma remove_hash_step:
  assumes ok: "pool_ok hash_of p" and rep: "pool_rep p E cur"
  shows "\<exists>p'. remove_hashes [h] p = Some p' \<and> pool_ok hash_of p' \<and> pool_rep p' E cur \<and> keeps (\<lambda>k _. k \<noteq> h) p p'"
proof -
  let ?V = "spenders (spend_list vt_inputs (entries (vts p)))" and ?D = "spenders (spend_list dr_inputs (entries (drs p)))"
    and ?S = "spenders (spend_list st_inputs (entries (sts p)))"
  have oks: "sec_ok (\<lambda>t. hash_of (ValueTransfer t)) vt_weight (vts p)" "sec_ok (\<lambda>t. hash_of (DataRequest t)) dr_weight (drs p)"
    "sec_ok (\<lambda>t. hash_of (Stake t)) st_weight (sts p)"
    using ok by (simp_all add: pool_ok_def)
  have "opm_rep (output_pointer_map p) (\<lambda>ptr. ?V ptr + (?D ptr + ?S ptr + E ptr)) cur"
    using rep by (simp add: pool_rep_def pool_spenders_def ac_simps)
  from vtk.remove_inner_rep [OF oks(1) this, of h] obtain v m1 r1 where 1:
    "vt_remove_inner h False p = Some (r1, p\<lparr>vts := v, output_pointer_map := m1\<rparr>)"
    "sec_ok (\<lambda>t. hash_of (ValueTransfer t)) vt_weight v" "set (entries v) = {e \<in> set (entries (vts p)). fst e \<noteq> h}"
    "opm_rep m1 (\<lambda>ptr. ?D ptr + (spenders (spend_list vt_inputs (entries v)) ptr + ?S ptr + E ptr)) cur"
    by (auto simp: ac_simps)
  let ?p1 = "p\<lparr>vts := v, output_pointer_map := m1\<rparr>"
  have "sec_ok (\<lambda>t. hash_of (DataRequest t)) dr_weight (drs ?p1)" using oks(2) by simp
  from drk.remove_inner_rep [OF this, of "\<lambda>ptr. spenders (spend_list vt_inputs (entries v)) ptr + ?S ptr + E ptr" cur h]
  obtain d m2 r2 where 2: "dr_remove_inner h False ?p1 = Some (r2, ?p1\<lparr>drs := d, output_pointer_map := m2\<rparr>)"
    "sec_ok (\<lambda>t. hash_of (DataRequest t)) dr_weight d" "set (entries d) = {e \<in> set (entries (drs p)). fst e \<noteq> h}"
    "opm_rep m2 (\<lambda>ptr. ?S ptr + (spenders (spend_list vt_inputs (entries v)) ptr + spenders (spend_list dr_inputs (entries d)) ptr + E ptr)) cur"
    using 1(4) by (auto simp: ac_simps)
  let ?p2 = "?p1\<lparr>drs := d, output_pointer_map := m2\<rparr>"
  have "sec_ok (\<lambda>t. hash_of (Stake t)) st_weight (sts ?p2)" using oks(3) by simp
  from stk.remove_inner_rep [OF this, of "\<lambda>ptr. spenders (spend_list vt_inputs (entries v)) ptr
      + spenders (spend_list dr_inputs (entries d)) ptr + E ptr" cur h]
  obtain s m3 r3 where 3: "st_remove_inner h False ?p2 = Some (r3, ?p2\<lparr>sts := s, output_pointer_map := m3\<rparr>)"
    "sec_ok (\<lambda>t. hash_of (Stake t)) st_weight s" "set (entries s) = {e \<in> set (entries (sts p)). fst e \<noteq> h}"
    "opm_rep m3 (\<lambda>ptr. spenders (spend_list st_inputs (entries s)) ptr
      + (spenders (spend_list vt_inputs (entries v)) ptr + spenders (spend_list dr_inputs (entries d)) ptr + E ptr)) cur"
    using 2(4) by auto
  let ?p3 = "p\<lparr>vts := v, drs := d, sts := s, output_pointer_map := m3\<rparr>"
  have "remove_hashes [h] p = Some ?p3" using 1(1) 2(1) 3(1) by simp
  moreover have "pool_ok hash_of ?p3" using ok 1(2) 2(2) 3(2) by (simp add: pool_ok_def)
  moreover have "pool_rep ?p3 E cur" using 3(4) by (simp add: pool_rep_def pool_spenders_def ac_simps)
  moreover have "keeps (\<lambda>k _. k \<noteq> h) p ?p3" using 1(3) 2(3) 3(3) unfolding keeps_def by auto
  ultimately show ?thesis by blast
qed

lemma remove_hashes_Cons: "remove_hashes (h # hs) p = Option.bind (remove_hashes [h] p) (remove_hashes hs)"
  by (simp split: Option.bind_splits prod.splits)

lemma remove_hashes_rep:
  assumes "pool_ok hash_of p" and "pool_rep p E cur"
  shows "\<exists>p'. remove_hashes hs p = Some p' \<and> pool_ok hash_of p' \<and> pool_rep p' E cur \<and> keeps (\<lambda>k _. k \<notin> set hs) p p'"
  using assms
proof (induction hs arbitrary: p)
  case (Cons h hs)
  obtain q where q: "remove_hashes [h] p = Some q" "pool_ok hash_of q" "pool_rep q E cur" "keeps (\<lambda>k _. k \<noteq> h) p q"
    using remove_hash_step [OF Cons.prems, of h] by blast
  obtain r where "remove_hashes hs q = Some r" "pool_ok hash_of r" "pool_rep r E cur" "keeps (\<lambda>k _. k \<notin> set hs) q r"
    using Cons.IH [OF q(2,3)] by blast
  then show ?case
    using q(1) keeps_trans [OF q(4)] remove_hashes_Cons [of h hs p] by (auto simp del: remove_hashes.simps)
qed (simp add: keeps_refl)

definition pool_spends :: "('p, 'f) transactions_pool \<Rightarrow> (hash \<times> input list) set" where
  "pool_spends p = (\<lambda>(k, _, t). (k, vt_inputs t)) ` set (entries (vts p))
     \<union> (\<lambda>(k, _, t). (k, dr_inputs t)) ` set (entries (drs p)) \<union> (\<lambda>(k, _, t). (k, st_inputs t)) ` set (entries (sts p))"

lemma in_pool_spenders: "k \<in># pool_spenders p ptr \<longleftrightarrow> (\<exists>is. (k, is) \<in> pool_spends p \<and> ptr \<in> set is)"
proof -
  have "pool_spends p = set_mset (spend_list vt_inputs (entries (vts p))) \<union> set_mset (spend_list dr_inputs (entries (drs p)))
      \<union> set_mset (spend_list st_inputs (entries (sts p)))"
    by (simp add: pool_spends_def set_spend_list)
  then show ?thesis
    unfolding pool_spenders_def union_iff in_spenders by blast
qed

lemma pool_spends_keeps: "keeps K p q \<Longrightarrow> pool_spends q = {(k, is) \<in> pool_spends p. K k is}"
  unfolding keeps_def pool_spends_def by (auto 0 4 intro: rev_image_eqI)

lemma keeps_cong:
  assumes "keeps K p q" and "\<And>k is. (k, is) \<in> pool_spends p \<Longrightarrow> K k is \<longleftrightarrow> L k is"
  shows "keeps L p q"
proof -
  have "(k, vt_inputs t) \<in> pool_spends p" if "(k, pr, t) \<in> set (entries (vts p))" for k pr t
    using that by (force simp: pool_spends_def)
  moreover have "(k, dr_inputs t) \<in> pool_spends p" if "(k, pr, t) \<in> set (entries (drs p))" for k pr t
    using that by (force simp: pool_spends_def)
  moreover have "(k, st_inputs t) \<in> pool_spends p" if "(k, pr, t) \<in> set (entries (sts p))" for k pr t
    using that by (force simp: pool_spends_def)
  ultimately show ?thesis
    using assms unfolding keeps_def by (auto 0 3)
qed

text \<open>The hash of a transaction determines the inputs that it spends.\<close>

fun tx_inputs :: "transaction \<Rightarrow> input list" where
  "tx_inputs (ValueTransfer t) = vt_inputs t"
| "tx_inputs (DataRequest t) = dr_inputs t"
| "tx_inputs (Stake t) = st_inputs t"
| "tx_inputs _ = []"

definition hash_fixes_inputs :: "(transaction \<Rightarrow> hash) \<Rightarrow> bool" where
  "hash_fixes_inputs hash_of \<longleftrightarrow> (\<forall>t t'. hash_of t = hash_of t' \<longrightarrow> tx_inputs t = tx_inputs t')"

lemma pool_spends_tx:
  assumes "pool_ok hash_of p" and "(k, is) \<in> pool_spends p"
  shows "\<exists>t. hash_of t = k \<and> tx_inputs t = is"
proof -
  consider (v) pr t where "(k, pr, t) \<in> set (entries (vts p))" "is = vt_inputs t"
    | (d) pr t where "(k, pr, t) \<in> set (entries (drs p))" "is = dr_inputs t"
    | (s) pr t where "(k, pr, t) \<in> set (entries (sts p))" "is = st_inputs t"
    using assms(2) unfolding pool_spends_def by auto
  then show ?thesis
  proof cases
    case v
    then have "hash_of (ValueTransfer t) = k" using assms(1) by (auto simp: pool_ok_def sec_ok_def hm.entry_iff)
    then show ?thesis using v(2) by (intro exI [of _ "ValueTransfer t"]) simp
  next
    case d
    then have "hash_of (DataRequest t) = k" using assms(1) by (auto simp: pool_ok_def sec_ok_def hm.entry_iff)
    then show ?thesis using d(2) by (intro exI [of _ "DataRequest t"]) simp
  next
    case s
    then have "hash_of (Stake t) = k" using assms(1) by (auto simp: pool_ok_def sec_ok_def hm.entry_iff)
    then show ?thesis using s(2) by (intro exI [of _ "Stake t"]) simp
  qed
qed

lemma pool_spends_unique:
  assumes "hash_fixes_inputs hash_of" "pool_ok hash_of p" "(k, is) \<in> pool_spends p"
  shows "(k, is') \<in> pool_spends p \<Longrightarrow> is' = is" and "hash_of t = k \<Longrightarrow> tx_inputs t = is"
  using assms pool_spends_tx [OF assms(2)] unfolding hash_fixes_inputs_def by metis+

lemma take_out_rep:
  assumes "pool_rep p E None"
  shows "pool_rep (p\<lparr>output_pointer_map := AList.delete i (output_pointer_map p)\<rparr>) E (Some i)"
proof -
  have "opm_get (AList.delete i (output_pointer_map p)) ptr = opm_get (output_pointer_map p) ptr" if "ptr \<noteq> i" for ptr
    using that by (simp add: opm_get_def delete_conv')
  moreover have "pool_spenders (p\<lparr>output_pointer_map := AList.delete i (output_pointer_map p)\<rparr>) = pool_spenders p"
    by (simp add: pool_spenders_def fun_eq_iff)
  ultimately show ?thesis
    using assms by (auto simp: pool_rep_def opm_rep_def hm.invar_remove delete_conv')
qed

definition extra_ok :: "(output_pointer \<Rightarrow> hash multiset) \<Rightarrow> ('p, 'f) transactions_pool \<Rightarrow> bool" where
  "extra_ok E p \<longleftrightarrow> (\<forall>ptr k is. k \<in># E ptr \<longrightarrow> (k, is) \<in> pool_spends p \<longrightarrow> ptr \<in> set is)"

lemma remove_input_step:
  assumes ok: "pool_ok hash_of p" and rep: "pool_rep p E None" and hash: "hash_fixes_inputs hash_of"
    and E: "extra_ok E p"
  shows "\<exists>q. remove_inputs [i] p = Some q \<and> pool_ok hash_of q \<and> pool_rep q (E(i := {#})) None
     \<and> keeps (\<lambda>_ is. i \<notin> set is) p q"
proof (cases "map_of (output_pointer_map p) i")
  case None
  have "{#} = pool_spenders p i + E i"
    using rep None unfolding pool_rep_def opm_rep_def opm_get_def by (metis mset.simps(1) option.distinct(1) option.simps(4))
  then have none: "pool_spenders p i = {#}" "E i = {#}" by (metis empty_eq_union)+
  then have "keeps (\<lambda>_ is. i \<notin> set is) p p"
    using in_pool_spenders [of _ p i] by (intro keeps_cong [OF keeps_refl [of "\<lambda>_ _. True"]]) auto
  moreover have "E(i := {#}) = E" using none(2) by auto
  ultimately show ?thesis using None ok rep by simp
next
  case (Some hs)
  let ?p = "p\<lparr>output_pointer_map := AList.delete i (output_pointer_map p)\<rparr>"
  have hs: "mset hs = pool_spenders p i + E i"
    using rep Some unfolding pool_rep_def opm_rep_def opm_get_def by (metis option.distinct(1) option.simps(5))
  have spent: "k \<in> set hs \<longleftrightarrow> i \<in> set is" if "(k, is) \<in> pool_spends p" for k "is"
  proof
    assume "k \<in> set hs"
    then have "k \<in># pool_spenders p i \<or> k \<in># E i" using hs by (metis set_mset_mset union_iff)
    then show "i \<in> set is"
    proof
      assume "k \<in># pool_spenders p i"
      then obtain is' where "(k, is') \<in> pool_spends p" "i \<in> set is'" by (auto simp: in_pool_spenders)
      then show ?thesis using pool_spends_unique(1) [OF hash ok that] by blast
    next
      assume "k \<in># E i"
      then show ?thesis using E that unfolding extra_ok_def by blast
    qed
  next
    assume "i \<in> set is"
    then have "k \<in># pool_spenders p i" using that by (auto simp: in_pool_spenders)
    then show "k \<in> set hs" using hs by (metis set_mset_mset union_iff)
  qed
  have "pool_ok hash_of ?p" using ok by (simp add: pool_ok_def)
  then obtain q where q: "remove_hashes hs ?p = Some q" "pool_ok hash_of q" "pool_rep q E (Some i)" "keeps (\<lambda>k _. k \<notin> set hs) ?p q"
    using remove_hashes_rep [OF _ take_out_rep [OF rep]] by blast
  have "keeps (\<lambda>k _. k \<notin> set hs) p q"
    using q(4) unfolding keeps_def by auto
  then have kept: "keeps (\<lambda>_ is. i \<notin> set is) p q" by (rule keeps_cong) (simp add: spent)
  have "pool_spenders q i = {#}"
    using in_pool_spenders [of _ q i] pool_spends_keeps [OF kept] by (auto intro: multiset_nonemptyE)
  then have "pool_rep q (E(i := {#})) None"
    using q(3) by (auto simp: pool_rep_def opm_rep_def opm_get_def)
  then show ?thesis using Some q(1,2) kept by simp
qed

lemma remove_inputs_Cons: "remove_inputs (i # is) p = Option.bind (remove_inputs [i] p) (remove_inputs is)"
  by (simp split: option.splits Option.bind_splits)

lemma remove_inputs_rep:
  assumes "pool_ok hash_of p" "pool_rep p E None" and hash: "hash_fixes_inputs hash_of"
    and "extra_ok E p"
  shows "\<exists>q. remove_inputs is p = Some q \<and> pool_ok hash_of q \<and> pool_rep q (\<lambda>ptr. if ptr \<in> set is then {#} else E ptr) None
     \<and> keeps (\<lambda>_ is'. set is \<inter> set is' = {}) p q"
  using assms(1,2,4)
proof (induction "is" arbitrary: p E)
  case (Cons i "is")
  obtain r where r: "remove_inputs [i] p = Some r" "pool_ok hash_of r" "pool_rep r (E(i := {#})) None"
    "keeps (\<lambda>_ is. i \<notin> set is) p r"
    using remove_input_step [OF Cons.prems(1,2) hash Cons.prems(3), of i] by blast
  have "extra_ok (E(i := {#})) r"
    using Cons.prems(3) pool_spends_keeps [OF r(4)] unfolding extra_ok_def by auto
  from Cons.IH [OF r(2,3) this] obtain q where q: "remove_inputs is r = Some q" "pool_ok hash_of q"
    "pool_rep q (\<lambda>ptr. if ptr \<in> set is then {#} else (E(i := {#})) ptr) None" "keeps (\<lambda>_ is'. set is \<inter> set is' = {}) r q"
    by blast
  have "(\<lambda>ptr. if ptr \<in> set is then {#} else (E(i := {#})) ptr) = (\<lambda>ptr. if ptr \<in> set (i # is) then {#} else E ptr)"
    by auto
  moreover have "keeps (\<lambda>_ is'. set (i # is) \<inter> set is' = {}) p q"
    using keeps_trans [OF r(4) q(4)] by (rule keeps_cong) auto
  ultimately show ?case
    using q r(1) remove_inputs_Cons [of i "is" p] by (auto simp del: remove_inputs.simps)
qed (simp add: keeps_refl)

definition pool_inv :: "(transaction \<Rightarrow> hash) \<Rightarrow> ('p::linorder, 'f) transactions_pool \<Rightarrow> bool" where
  "pool_inv hash_of p \<longleftrightarrow> pool_ok hash_of p \<and> pool_rep p (\<lambda>_. {#}) None"

lemma remove_inputs_consolidated:
  assumes ok: "pool_ok hash_of p" and rep: "pool_rep p E None" and hash: "hash_fixes_inputs hash_of"
    and E: "\<And>ptr. E ptr \<subseteq># repeated (tx_inputs tx) ptr (hash_of tx)"
  shows "\<exists>q. remove_inputs (tx_inputs tx) p = Some q \<and> pool_inv hash_of q
     \<and> keeps (\<lambda>_ is. set (tx_inputs tx) \<inter> set is = {}) p q"
proof -
  have in_E: "k = hash_of tx \<and> ptr \<in> set (tx_inputs tx)" if "k \<in># E ptr" for k ptr
    using mset_subset_eqD [OF E that] by (auto simp: repeated_def count_list_0_iff split: if_splits)
  have "extra_ok E p"
    using in_E pool_spends_unique(2) [OF hash ok, of _ _ tx] unfolding extra_ok_def by metis
  from remove_inputs_rep [OF ok rep hash this, of "tx_inputs tx"] obtain q where q: "remove_inputs (tx_inputs tx) p = Some q"
    "pool_ok hash_of q" "pool_rep q (\<lambda>ptr. if ptr \<in> set (tx_inputs tx) then {#} else E ptr) None"
    "keeps (\<lambda>_ is. set (tx_inputs tx) \<inter> set is = {}) p q" by blast
  have "E ptr = {#}" if "ptr \<notin> set (tx_inputs tx)" for ptr
    using in_E that by (metis multiset_nonemptyE)
  then have "(\<lambda>ptr. if ptr \<in> set (tx_inputs tx) then {#} else E ptr) = (\<lambda>_. {#})" by auto
  then show ?thesis using q by (auto simp: pool_inv_def)
qed

lemma consolidated_extra:
  assumes "sec_ok (\<lambda>t. hash_of (C t)) weight s" and "hash_fixes_inputs hash_of" and "tx_inputs (C t) = inputs t"
    and "\<And>t'. tx_inputs (C t') = inputs t'"
  shows "(case map_of (entries s) (hash_of (C t)) of Some (_, t') \<Rightarrow> repeated (inputs t') ptr (hash_of (C t)) | None \<Rightarrow> {#})
     \<subseteq># repeated (tx_inputs (C t)) ptr (hash_of (C t))"
proof (cases "map_of (entries s) (hash_of (C t))")
  case (Some x)
  obtain pr t' where x: "x = (pr, t')" by (cases x)
  then have "hash_of (C t') = hash_of (C t)" using sec_okD(2) [OF assms(1)] Some by blast
  then have "inputs t' = tx_inputs (C t)" using assms(2,4) unfolding hash_fixes_inputs_def by metis
  then show ?thesis using Some x by simp
qed simp

lemma pool_ok_opm: "pool_ok hash_of (p\<lparr>output_pointer_map := m\<rparr>) \<longleftrightarrow> pool_ok hash_of p"
  by (simp add: pool_ok_def)

text \<open>Consolidating a transaction of any of the three kinds.\<close>

locale consolidated_kind = spending_kind sec upd weight inputs remove_inner
  for sec :: "('p::linorder, 'f) transactions_pool \<Rightarrow> ('p, 't) tx_section" and upd and weight and inputs and remove_inner +
  fixes kind :: "'t \<Rightarrow> transaction"
    and remove :: "(transaction \<Rightarrow> hash) \<Rightarrow> 't \<Rightarrow> ('p, 'f) transactions_pool \<Rightarrow> ('t option \<times> ('p, 'f) transactions_pool) option"
    and rest_spenders :: "('p, 'f) transactions_pool \<Rightarrow> output_pointer \<Rightarrow> hash multiset"
  assumes remove_eq: "remove hash_of t p =
      Option.bind (remove_inner (hash_of (kind t)) True p) (\<lambda>(r, p1). map_option (Pair r) (remove_inputs (inputs t) p1))"
    and kind_inputs: "tx_inputs (kind t) = inputs t"
    and pool_ok_sec: "pool_ok hash_of p \<Longrightarrow> sec_ok (\<lambda>t. hash_of (kind t)) weight (sec p)"
    and pool_ok_upd: "pool_ok hash_of p \<Longrightarrow> sec_ok (\<lambda>t. hash_of (kind t)) weight s \<Longrightarrow> pool_ok hash_of (upd s p)"
    and spenders_eq: "pool_spenders p ptr = spenders (spend_list inputs (entries (sec p))) ptr + rest_spenders p ptr"
    and rest_upd: "rest_spenders (upd s p) = rest_spenders p" "rest_spenders (p\<lparr>output_pointer_map := m\<rparr>) = rest_spenders p"
begin

lemma remove_inner_inv:
  assumes inv: "pool_inv hash_of p"
  shows "\<exists>s m. remove_inner k False p
       = Some (map_option snd (map_of (entries (sec p)) k), (upd s p)\<lparr>output_pointer_map := m\<rparr>)
     \<and> set (entries s) = {e \<in> set (entries (sec p)). fst e \<noteq> k} \<and> pool_inv hash_of ((upd s p)\<lparr>output_pointer_map := m\<rparr>)"
proof -
  have pok: "pool_ok hash_of p" using inv by (simp add: pool_inv_def)
  have "opm_rep (output_pointer_map p) (\<lambda>ptr. spenders (spend_list inputs (entries (sec p))) ptr + rest_spenders p ptr) None"
    using inv by (simp add: pool_inv_def pool_rep_def spenders_eq)
  from remove_inner_rep [OF pool_ok_sec [OF pok] this, of k] obtain s m where
    "remove_inner k False p = Some (map_option snd (map_of (entries (sec p)) k), (upd s p)\<lparr>output_pointer_map := m\<rparr>)"
    and s: "sec_ok (\<lambda>t. hash_of (kind t)) weight s" "set (entries s) = {e \<in> set (entries (sec p)). fst e \<noteq> k}"
    "opm_rep m (\<lambda>ptr. spenders (spend_list inputs (entries s)) ptr + rest_spenders p ptr) None"
    by blast
  moreover have "pool_inv hash_of ((upd s p)\<lparr>output_pointer_map := m\<rparr>)"
    using pool_ok_upd [OF pok s(1)] s(3)
    by (simp add: pool_inv_def pool_rep_def pool_ok_opm spenders_eq sec_upd rest_upd)
  ultimately show ?thesis by blast
qed

text \<open>The first transaction of the index is one of lowest priority.\<close>

lemma remove_first:
  assumes inv: "pool_inv hash_of p" and first: "sorted_index (sec p) = (pr, h) # rest"
  shows "\<exists>t s m. remove_inner h False p = Some (Some t, (upd s p)\<lparr>output_pointer_map := m\<rparr>)
     \<and> (h, pr, t) \<in> set (entries (sec p)) \<and> set (entries s) = set (entries (sec p)) - {(h, pr, t)}
     \<and> pool_inv hash_of ((upd s p)\<lparr>output_pointer_map := m\<rparr>)
     \<and> (\<forall>(k', pr', t') \<in> set (entries (sec p)). (pr, h) \<le> (pr', k'))"
proof -
  have ok: "sec_ok (\<lambda>t. hash_of (kind t)) weight (sec p)" using inv pool_ok_sec by (simp add: pool_inv_def)
  have "(pr, h) \<in> set (sorted_index (sec p))" using first by simp
  then obtain t where t: "(h, pr, t) \<in> set (entries (sec p))"
    unfolding sec_okD(5) [OF ok] by auto
  then have m: "map_of (entries (sec p)) h = Some (pr, t)" using hm.entry_iff [OF sec_okD(1) [OF ok]] by simp
  have uniq: "v = (pr, t)" if "(h, v) \<in> set (entries (sec p))" for v
    using that m hm.entry_iff [OF sec_okD(1) [OF ok], of h v] by simp
  have rest: "{e \<in> set (entries (sec p)). fst e \<noteq> h} = set (entries (sec p)) - {(h, pr, t)}"
  proof (rule set_eqI)
    fix e :: "hash \<times> 'p \<times> 't"
    obtain a v where "e = (a, v)" by (cases e)
    then show "e \<in> {e \<in> set (entries (sec p)). fst e \<noteq> h} \<longleftrightarrow> e \<in> set (entries (sec p)) - {(h, pr, t)}"
      using uniq [of v] by (cases "a = h") simp_all
  qed
  have "(pr, h) \<le> y" if "y \<in> set (sorted_index (sec p))" for y
    using sec_okD(3) [OF ok] that unfolding first by auto
  then have "\<forall>(k', pr', t') \<in> set (entries (sec p)). (pr, h) \<le> (pr', k')"
    unfolding sec_okD(5) [OF ok] by fastforce
  with rest show ?thesis
    using remove_inner_inv [OF inv, of h] m t by simp blast
qed

lemma insert_inv:
  assumes inv: "pool_inv hash_of p" and new: "map_of (entries (sec p)) (hash_of (kind t)) = None"
  shows "pool_inv hash_of ((upd (section_insert weight (hash_of (kind t)) pr t (sec p)) p)
     \<lparr>output_pointer_map := push_hash (hash_of (kind t)) (inputs t) (output_pointer_map p)\<rparr>)"
proof -
  let ?k = "hash_of (kind t)" and ?s = "section_insert weight (hash_of (kind t)) pr t (sec p)"
  have pok: "pool_ok hash_of p" using inv by (simp add: pool_inv_def)
  note ok = pool_ok_sec [OF pok]
  have "mset (entries ?s) = add_mset (?k, pr, t) (mset (entries (sec p)))"
    using hm.mset_insert_new [OF sec_okD(1) [OF ok] new] by (simp add: section_insert_def)
  then have sp: "spend_list inputs (entries ?s) = add_mset (?k, inputs t) (spend_list inputs (entries (sec p)))"
    by (simp add: spend_list_def)
  have "opm_rep (push_hash ?k (inputs t) (output_pointer_map p))
      (\<lambda>ptr. (spenders (spend_list inputs (entries (sec p))) ptr + rest_spenders p ptr) + repeated (inputs t) ptr ?k) None"
    using inv by (intro push_hash_rep) (simp add: pool_inv_def pool_rep_def spenders_eq)
  then show ?thesis
    using pool_ok_upd [OF pok sec_ok_insert [OF ok new refl, of pr]]
    by (simp add: pool_inv_def pool_rep_def pool_ok_opm spenders_eq sec_upd rest_upd sp ac_simps)
qed

lemma remove_inv:
  assumes inv: "pool_inv hash_of p" and hash: "hash_fixes_inputs hash_of"
  shows "\<exists>q s. remove hash_of t p = Some (map_option snd (map_of (entries (sec p)) (hash_of (kind t))), q) \<and> pool_inv hash_of q
     \<and> set (entries s) = {e \<in> set (entries (sec p)). fst e \<noteq> hash_of (kind t)}
     \<and> keeps (\<lambda>_ is. set (inputs t) \<inter> set is = {}) (upd s p) q"
proof -
  let ?k = "hash_of (kind t)"
  let ?E = "\<lambda>ptr. case map_of (entries (sec p)) ?k of Some (_, t') \<Rightarrow> repeated (inputs t') ptr ?k | None \<Rightarrow> {#}"
  have pok: "pool_ok hash_of p" using inv by (simp add: pool_inv_def)
  note ok = pool_ok_sec [OF pok]
  obtain s where s: "remove_inner ?k True p = Some (map_option snd (map_of (entries (sec p)) ?k), upd s p)"
    "sec_ok (\<lambda>t. hash_of (kind t)) weight s" "set (entries s) = {e \<in> set (entries (sec p)). fst e \<noteq> ?k}"
    "\<And>ptr. spenders (spend_list inputs (entries (sec p))) ptr = spenders (spend_list inputs (entries s)) ptr + ?E ptr"
    using remove_inner_consolidated [OF ok, of ?k] by blast
  have "pool_rep (upd s p) ?E None"
    using inv by (simp add: pool_inv_def pool_rep_def spenders_eq s(4) sec_upd opm_upd rest_upd ac_simps)
  then obtain q where "remove_inputs (inputs t) (upd s p) = Some q" "pool_inv hash_of q"
    "keeps (\<lambda>_ is. set (inputs t) \<inter> set is = {}) (upd s p) q"
    using remove_inputs_consolidated [OF pool_ok_upd [OF pok s(2)] _ hash, of ?E "kind t"]
      consolidated_extra [where t = t, OF ok hash kind_inputs kind_inputs] by (auto simp: kind_inputs)
  then show ?thesis
    using s(1,3) by (auto simp: remove_eq)
qed

end

interpretation vtc: consolidated_kind vts "\<lambda>s p. p\<lparr>vts := s\<rparr>" vt_weight vt_inputs vt_remove_inner ValueTransfer vt_remove
  "\<lambda>p ptr. spenders (spend_list dr_inputs (entries (drs p))) ptr + spenders (spend_list st_inputs (entries (sts p))) ptr"
  by unfold_locales (simp_all add: vt_remove_def pool_ok_def pool_spenders_def fun_eq_iff ac_simps)

interpretation drc: consolidated_kind drs "\<lambda>s p. p\<lparr>drs := s\<rparr>" dr_weight dr_inputs dr_remove_inner DataRequest dr_remove
  "\<lambda>p ptr. spenders (spend_list vt_inputs (entries (vts p))) ptr + spenders (spend_list st_inputs (entries (sts p))) ptr"
  by unfold_locales (simp_all add: dr_remove_def pool_ok_def pool_spenders_def fun_eq_iff ac_simps)

interpretation stc: consolidated_kind sts "\<lambda>s p. p\<lparr>sts := s\<rparr>" st_weight st_inputs st_remove_inner Stake st_remove
  "\<lambda>p ptr. spenders (spend_list vt_inputs (entries (vts p))) ptr + spenders (spend_list dr_inputs (entries (drs p))) ptr"
  by unfold_locales (simp_all add: st_remove_def pool_ok_def pool_spenders_def fun_eq_iff ac_simps)

section \<open>Weights\<close>

definition nat_weight :: "('t \<Rightarrow> u32) \<Rightarrow> ('p, 't) tx_section \<Rightarrow> nat" where
  "nat_weight weight s = (\<Sum>(k, p, t) \<leftarrow> entries s. unat (weight t))"

lemma unat_sum_ucast:
  "sum_list (map (\<lambda>x. unat (f x)) xs) < 2 ^ 64 \<Longrightarrow>
   unat (sum_list (map (\<lambda>x. ucast (f x) :: u64) xs)) = sum_list (map (\<lambda>x. unat (f x :: u32)) xs)"
proof (induction xs)
  case (Cons x xs)
  have "unat (ucast (f x) :: u64) = unat (f x)"
    using unat_lt_size [of "f x"] by (simp add: unat_cast_mod)
  with Cons show ?case by (simp add: unat_add_nowrap)
qed simp

lemma unat_total_weight:
  assumes "sec_ok key_of weight s" and "nat_weight weight s < 2 ^ 64"
  shows "unat (total_weight s) = nat_weight weight s"
  using unat_sum_ucast [of "\<lambda>(k, p, t). weight t" "entries s"] assms sec_okD(6) [OF assms(1)]
  by (simp add: nat_weight_def split_def)

text \<open>The weight that counts for the limit, without wrapping around.\<close>

definition pool_weight :: "('p, 'f) transactions_pool \<Rightarrow> nat" where
  "pool_weight p = nat_weight vt_weight (vts p) + nat_weight dr_weight (drs p) + nat_weight st_weight (sts p)"

lemma unat_total_transactions_weight:
  assumes "pool_ok hash_of p" and "pool_weight p < 2 ^ 64"
  shows "unat (total_transactions_weight p) = pool_weight p"
proof -
  have u: "unat (total_weight (vts p)) = nat_weight vt_weight (vts p)" "unat (total_weight (drs p)) = nat_weight dr_weight (drs p)"
    "unat (total_weight (sts p)) = nat_weight st_weight (sts p)"
    using assms by (auto simp: pool_ok_def pool_weight_def intro!: unat_total_weight)
  have "unat (total_weight (vts p) + total_weight (drs p)) = nat_weight vt_weight (vts p) + nat_weight dr_weight (drs p)"
    using assms(2) u by (subst unat_add_nowrap) (simp_all add: pool_weight_def)
  then show ?thesis
    unfolding total_transactions_weight_def pool_weight_def using assms(2) u
    by (subst unat_add_nowrap) (simp_all add: pool_weight_def)
qed

lemma nat_weight_remove:
  assumes "hm_wf (entries s)" and "map_of (entries s) k = Some (p, t)" and "entries s' = AList.delete k (entries s)"
  shows "nat_weight weight s = unat (weight t) + nat_weight weight s'"
  using hm.sum_remove_k [OF assms(1,2), of "\<lambda>(k, p, t). unat (weight t)"] assms(3) by (simp add: nat_weight_def)

lemma empty_section_weight: "sec_ok key_of weight s \<Longrightarrow> sorted_index s = [] \<Longrightarrow> total_weight s = 0"
  by (auto simp: sec_ok_def)

lemma nat_weight_set: "hm_wf (entries s) \<Longrightarrow> nat_weight weight s = (\<Sum>(k, p, t) \<in> set (entries s). unat (weight t))"
  unfolding nat_weight_def by (rule sum_list_distinct_conv_sum_set) (rule hm.distinct_entries)

lemma nat_weight_mono:
  "sec_ok key_of weight s \<Longrightarrow> sec_ok key_of weight s' \<Longrightarrow> set (entries s') \<subseteq> set (entries s) \<Longrightarrow>
   nat_weight weight s' \<le> nat_weight weight s"
  by (simp add: nat_weight_set sec_okD(1) sum_mono2)

section \<open>The size limit\<close>

text \<open>What the code relies on of the floating point comparison, for a positive factor: weight zero is
  at least a multiple of a weight only if that is zero, and any weight is at least a multiple of zero.\<close>

definition factor_ok :: "('f \<Rightarrow> u64 \<Rightarrow> u64 \<Rightarrow> bool) \<Rightarrow> 'f \<Rightarrow> bool" where
  "factor_ok more_vtts f \<longleftrightarrow> (\<forall>d. more_vtts f 0 d \<longrightarrow> d = 0) \<and> (\<forall>v. more_vtts f v 0)"

text \<open>Entries left a section from the low end of its order of priority.\<close>

definition shed :: "(hash \<times> 'p::linorder \<times> 't) set \<Rightarrow> (hash \<times> 'p \<times> 't) set \<Rightarrow> bool" where
  "shed A B \<longleftrightarrow> B \<subseteq> A \<and> (\<forall>(k, pr, t) \<in> A - B. \<forall>(k', pr', t') \<in> B. (pr, k) \<le> (pr', k'))"

lemma shed_refl [simp]: "shed A A"
  by (simp add: shed_def)

lemma shed_first:
  "shed (A - {(h, pr, t)}) B \<Longrightarrow> (\<forall>(k', pr', t') \<in> A. (pr, h) \<le> (pr', k')) \<Longrightarrow> shed A B"
  unfolding shed_def by blast

definition removed_txs :: "('p, 'f) transactions_pool \<Rightarrow> ('p, 'f) transactions_pool \<Rightarrow> transaction set" where
  "removed_txs p q =
     (\<lambda>(k, pr, t). ValueTransfer t) ` (set (entries (vts p)) - set (entries (vts q)))
     \<union> (\<lambda>(k, pr, t). DataRequest t) ` (set (entries (drs p)) - set (entries (drs q)))"

lemma removed_txs_vt:
  assumes "(h, pr, t) \<in> set (entries (vts p))" and "set (entries s) = set (entries (vts p)) - {(h, pr, t)}"
    and "set (entries (vts q)) \<subseteq> set (entries s)"
  shows "removed_txs p q = insert (ValueTransfer t) (removed_txs (p\<lparr>vts := s, output_pointer_map := m\<rparr>) q)"
proof -
  have "set (entries (vts p)) - set (entries (vts q)) = insert (h, pr, t) (set (entries s) - set (entries (vts q)))"
    using assms by blast
  then show ?thesis by (simp add: removed_txs_def)
qed

lemma removed_txs_dr:
  assumes "(h, pr, t) \<in> set (entries (drs p))" and "set (entries s) = set (entries (drs p)) - {(h, pr, t)}"
    and "set (entries (drs q)) \<subseteq> set (entries s)"
  shows "removed_txs p q = insert (DataRequest t) (removed_txs (p\<lparr>drs := s, output_pointer_map := m\<rparr>) q)"
proof -
  have "set (entries (drs p)) - set (entries (drs q)) = insert (h, pr, t) (set (entries s) - set (entries (drs q)))"
    using assms by blast
  then show ?thesis by (simp add: removed_txs_def)
qed

lemma size_limit_step:
  assumes "pool_inv hash_of p" and "pool_weight p < 2 ^ 64" and "factor_ok more_vtts (vt_to_dr_factor p)"
    and "total_weight (sts p) \<le> weight_limit p" and "\<not> total_transactions_weight p \<le> weight_limit p"
  shows "more_vtts (vt_to_dr_factor p) (total_weight (vts p)) (total_weight (drs p)) \<Longrightarrow> sorted_index (vts p) \<noteq> []"
    and "\<not> more_vtts (vt_to_dr_factor p) (total_weight (vts p)) (total_weight (drs p)) \<Longrightarrow> sorted_index (drs p) \<noteq> []"
proof -
  have ok: "sec_ok (\<lambda>t. hash_of (ValueTransfer t)) vt_weight (vts p)" "sec_ok (\<lambda>t. hash_of (DataRequest t)) dr_weight (drs p)"
    using assms(1) by (simp_all add: pool_inv_def pool_ok_def)
  show "sorted_index (vts p) \<noteq> []" if "more_vtts (vt_to_dr_factor p) (total_weight (vts p)) (total_weight (drs p))"
  proof
    assume "sorted_index (vts p) = []"
    then have "total_weight (vts p) = 0" using empty_section_weight [OF ok(1)] by simp
    with that assms(3-5) show False by (auto simp: factor_ok_def total_transactions_weight_def)
  qed
  show "sorted_index (drs p) \<noteq> []" if "\<not> more_vtts (vt_to_dr_factor p) (total_weight (vts p)) (total_weight (drs p))"
  proof
    assume "sorted_index (drs p) = []"
    then have "total_weight (drs p) = 0" using empty_section_weight [OF ok(2)] by simp
    with that assms(3) show False by (auto simp: factor_ok_def)
  qed
qed

lemma pool_upd:
  "vts (p\<lparr>vts := s, output_pointer_map := m\<rparr>) = s" "drs (p\<lparr>vts := s, output_pointer_map := m\<rparr>) = drs p"
  "vts (p\<lparr>drs := s', output_pointer_map := m\<rparr>) = vts p" "drs (p\<lparr>drs := s', output_pointer_map := m\<rparr>) = s'"
  "weight_limit (p\<lparr>vts := s, output_pointer_map := m\<rparr>) = weight_limit p"
  "weight_limit (p\<lparr>drs := s', output_pointer_map := m\<rparr>) = weight_limit p"
  by simp_all

lemma size_limit_enforced:
  assumes "pool_inv hash_of p" and "pool_weight p < 2 ^ 64" and "factor_ok more_vtts (vt_to_dr_factor p)"
    and "total_weight (sts p) \<le> weight_limit p"
  shows "\<exists>ts q. remove_transactions_for_size_limit more_vtts p = Some (ts, q) \<and> pool_inv hash_of q
     \<and> total_transactions_weight q \<le> weight_limit p
     \<and> shed (set (entries (vts p))) (set (entries (vts q))) \<and> shed (set (entries (drs p))) (set (entries (drs q)))
     \<and> set ts = removed_txs p q \<and> (\<exists>v d m. q = p\<lparr>vts := v, drs := d, output_pointer_map := m\<rparr>)"
  using assms
proof (induction "length (entries (vts p)) + length (entries (drs p))" arbitrary: p rule: less_induct)
  case less
  note ok = less.prems(1) [unfolded pool_inv_def pool_ok_def]
  show ?case
  proof (cases "total_transactions_weight p \<le> weight_limit p")
    case True
    then have "remove_transactions_for_size_limit more_vtts p = Some ([], p)"
      by (subst remove_transactions_for_size_limit.simps) simp
    moreover have "\<exists>v d m. p = p\<lparr>vts := v, drs := d, output_pointer_map := m\<rparr>"
      by (intro exI [of _ "vts p"] exI [of _ "drs p"] exI [of _ "output_pointer_map p"]) simp
    moreover have "set [] = removed_txs p p" by (simp add: removed_txs_def)
    ultimately show ?thesis
      using True less.prems(1) by (intro exI [of _ "[]"] exI [of _ p]) simp
  next
    case over: False
    note step = size_limit_step [OF less.prems over]
    show ?thesis
    proof (cases "more_vtts (vt_to_dr_factor p) (total_weight (vts p)) (total_weight (drs p))")
      case True
      obtain pr h rest where first: "sorted_index (vts p) = (pr, h) # rest"
        using step(1) [OF True] by (cases "sorted_index (vts p)") auto
      obtain t s m where r: "vt_remove_inner h False p = Some (Some t, p\<lparr>vts := s, output_pointer_map := m\<rparr>)"
        "(h, pr, t) \<in> set (entries (vts p))" "set (entries s) = set (entries (vts p)) - {(h, pr, t)}"
        "pool_inv hash_of (p\<lparr>vts := s, output_pointer_map := m\<rparr>)" "\<forall>(k', pr', t') \<in> set (entries (vts p)). (pr, h) \<le> (pr', k')"
        using vtc.remove_first [OF less.prems(1) first] by blast
      let ?p = "p\<lparr>vts := s, output_pointer_map := m\<rparr>"
      have "nat_weight vt_weight s \<le> nat_weight vt_weight (vts p)"
        using r(3,4) ok by (intro nat_weight_mono) (auto simp: pool_inv_def pool_ok_def)
      then have w: "pool_weight ?p < 2 ^ 64" using less.prems(2) by (simp add: pool_weight_def)
      have c: "factor_ok more_vtts (vt_to_dr_factor ?p)" "total_weight (sts ?p) \<le> weight_limit ?p"
        using less.prems(3,4) by simp_all
      obtain ts q where "remove_transactions_for_size_limit more_vtts ?p = Some (ts, q)" "pool_inv hash_of q"
        "total_transactions_weight q \<le> weight_limit ?p" "shed (set (entries (vts ?p))) (set (entries (vts q)))"
        "shed (set (entries (drs ?p))) (set (entries (drs q)))" "set ts = removed_txs ?p q"
        "\<exists>v d m. q = ?p\<lparr>vts := v, drs := d, output_pointer_map := m\<rparr>"
        using less.hyps [OF vt_remove_inner_less [OF r(1)] r(4) w c] by blast
      note q = this [unfolded pool_upd]
      have "remove_transactions_for_size_limit more_vtts p = Some (ValueTransfer t # ts, q)"
        using over True first r(1) q(1) by (subst remove_transactions_for_size_limit.simps) simp
      moreover have "set (ValueTransfer t # ts) = removed_txs p q"
        using q(4,6) removed_txs_vt [OF r(2,3)] by (simp add: shed_def)
      moreover have "\<exists>v d m. q = p\<lparr>vts := v, drs := d, output_pointer_map := m\<rparr>" using q(7) by auto
      ultimately show ?thesis
        using q(2,3,5) shed_first [OF q(4) [unfolded r(3)] r(5)] by blast
    next
      case False
      obtain pr h rest where first: "sorted_index (drs p) = (pr, h) # rest"
        using step(2) [OF False] by (cases "sorted_index (drs p)") auto
      obtain t s m where r: "dr_remove_inner h False p = Some (Some t, p\<lparr>drs := s, output_pointer_map := m\<rparr>)"
        "(h, pr, t) \<in> set (entries (drs p))" "set (entries s) = set (entries (drs p)) - {(h, pr, t)}"
        "pool_inv hash_of (p\<lparr>drs := s, output_pointer_map := m\<rparr>)" "\<forall>(k', pr', t') \<in> set (entries (drs p)). (pr, h) \<le> (pr', k')"
        using drc.remove_first [OF less.prems(1) first] by blast
      let ?p = "p\<lparr>drs := s, output_pointer_map := m\<rparr>"
      have "nat_weight dr_weight s \<le> nat_weight dr_weight (drs p)"
        using r(3,4) ok by (intro nat_weight_mono) (auto simp: pool_inv_def pool_ok_def)
      then have w: "pool_weight ?p < 2 ^ 64" using less.prems(2) by (simp add: pool_weight_def)
      have c: "factor_ok more_vtts (vt_to_dr_factor ?p)" "total_weight (sts ?p) \<le> weight_limit ?p"
        using less.prems(3,4) by simp_all
      obtain ts q where "remove_transactions_for_size_limit more_vtts ?p = Some (ts, q)" "pool_inv hash_of q"
        "total_transactions_weight q \<le> weight_limit ?p" "shed (set (entries (drs ?p))) (set (entries (drs q)))"
        "shed (set (entries (vts ?p))) (set (entries (vts q)))" "set ts = removed_txs ?p q"
        "\<exists>v d m. q = ?p\<lparr>vts := v, drs := d, output_pointer_map := m\<rparr>"
        using less.hyps [OF dr_remove_inner_less [OF r(1)] r(4) w c] by blast
      note q = this [unfolded pool_upd]
      have "remove_transactions_for_size_limit more_vtts p = Some (DataRequest t # ts, q)"
        using over False first r(1) q(1) by (subst remove_transactions_for_size_limit.simps) simp
      moreover have "set (DataRequest t # ts) = removed_txs p q"
        using q(4,6) removed_txs_dr [OF r(2,3)] by (simp add: shed_def)
      moreover have "\<exists>v d m. q = p\<lparr>vts := v, drs := d, output_pointer_map := m\<rparr>" using q(7) by auto
      ultimately show ?thesis
        using q(2,3,5) shed_first [OF q(4) [unfolded r(3)] r(5)] by blast
    qed
  qed
qed

end
