(* ===== verification/Tx_Pool_Run.thy ===== *)
theory Tx_Pool_Run
  imports Tx_Pool_Props
begin

text \<open>
  Sequences of operations on the pool of transactions: a transaction is inserted when it is not in the
  pool yet (the check of \<^verbatim>\<open>add_transaction\<close> in node/src/actors/chain_manager/mod.rs), the transactions of a
  block are taken out, candidates for blocks are dropped, limits are set. Not among them are \<open>clear_stake_transactions\<close> and \<open>clear_unstake_transactions\<close>,
  which do not reset the total weight, and \<open>vt_retain\<close>, which takes 1 off it. After any such sequence the
  pool is consistent; consolidating a transaction removes every transaction that spends one of its
  inputs; and the size limit is enforced, or the node panics.
\<close>

section \<open>Operations\<close>

text \<open>Taking out a transaction that is part of a block.\<close>

fun consolidate ::
  "(transaction \<Rightarrow> hash) \<Rightarrow> transaction \<Rightarrow> ('p::linorder, 'f) transactions_pool \<Rightarrow> ('p, 'f) transactions_pool option"
where
  "consolidate hash_of (ValueTransfer t) p = map_option snd (vt_remove hash_of t p)"
| "consolidate hash_of (DataRequest t) p = map_option snd (dr_remove hash_of t p)"
| "consolidate hash_of (Stake t) p = map_option snd (st_remove hash_of t p)"
| "consolidate hash_of (Unstake t) p = Some (snd (ut_remove hash_of t p))"
| "consolidate hash_of (Commit t) p = remove_inputs (commit_collateral t) p"
| "consolidate hash_of (Reveal t) p =
     map_option snd (remove_one_reveal (reveal_dr_pointer t) (reveal_pkh t) (hash_of (Reveal t)) p)"
| "consolidate hash_of (Tally t) p = Some (clear_reveals_from_finished_dr (tally_dr_pointer t) p)"
| "consolidate hash_of (Mint t) p = Some p"

datatype 'f pool_op =
    AddTx transaction u64
  | Consolidate transaction
  | RemoveOverstake "hash list"
  | RemoveInvalidUnstake "hash list"
  | SetLimit u64 'f
  | SetMinimumFee u64
  | SetCollateral u64
  | SetRatio u64
  | TakeCommits dr_pool
  | UpdateUnconfirmed
  | InsertUnconfirmed hash
  | RemoveUnconfirmed
  | ClearPool

record ('p, 'f) pool_context =
  p_hash :: "transaction \<Rightarrow> hash"
  p_proof_pkh :: "commit_transaction \<Rightarrow> pkh"
  p_pkh_of :: "u8 list \<Rightarrow> pkh"
  p_prio :: "u64 \<Rightarrow> u32 \<Rightarrow> 'p"
  p_more_vtts :: "'f \<Rightarrow> u64 \<Rightarrow> u64 \<Rightarrow> bool"

fun pool_step ::
  "('p::linorder, 'f) pool_context \<Rightarrow> 'f pool_op \<Rightarrow> ('p, 'f) transactions_pool \<Rightarrow> ('p, 'f) transactions_pool option"
where
  "pool_step c (AddTx t fee) p =
     (case pool_contains (p_hash c) (p_proof_pkh c) t p of
        Ok False \<Rightarrow> map_option snd (pool_insert (p_hash c) (p_pkh_of c) (p_prio c) (p_more_vtts c) t fee p)
      | _ \<Rightarrow> Some p)"
| "pool_step c (Consolidate t) p = consolidate (p_hash c) t p"
| "pool_step c (RemoveOverstake hs) p = remove_overstake_transactions (p_hash c) hs p"
| "pool_step c (RemoveInvalidUnstake hs) p = Some (remove_invalid_unstake_transactions (p_hash c) hs p)"
| "pool_step c (SetLimit limit factor) p = map_option snd (set_total_weight_limit (p_more_vtts c) limit factor p)"
| "pool_step c (SetMinimumFee fee) p = Some (set_minimum_vtt_fee fee p)"
| "pool_step c (SetCollateral coll) p = Some (set_collateral_minimum coll p)"
| "pool_step c (SetRatio r) p = Some (set_required_reward_collateral_ratio r p)"
| "pool_step c (TakeCommits drp) p = Some (snd (remove_commits drp p))"
| "pool_step c UpdateUnconfirmed p = Some (update_unconfirmed_transactions p)"
| "pool_step c (InsertUnconfirmed h) p = Some (insert_unconfirmed_transactions h p)"
| "pool_step c RemoveUnconfirmed p = map_option snd (remove_unconfirmed_transactions p)"
| "pool_step c ClearPool p = Some (pool_clear p)"

section \<open>Every operation keeps the invariant\<close>

text \<open>The invariant does not look at commitments, reveals and settings.\<close>

lemma pool_inv_cong:
  "vts q = vts p \<Longrightarrow> drs q = drs p \<Longrightarrow> sts q = sts p \<Longrightarrow> uts q = uts p \<Longrightarrow> output_pointer_map q = output_pointer_map p \<Longrightarrow>
   pool_inv hash_of q \<longleftrightarrow> pool_inv hash_of p"
  unfolding pool_inv_def pool_ok_def pool_rep_def pool_spenders_def by simp

lemma entries_empty_section [simp]: "entries empty_section = []"
  by (simp add: empty_section_def)

lemma pool_inv_clear: "pool_inv hash_of (pool_clear p)"
  by (simp add: pool_inv_def pool_ok_def pool_rep_def pool_spenders_def pool_clear_def sec_ok_empty opm_rep_def opm_get_def
      spend_list_def hm_wf_def)

lemma pool_inv_new: "pool_inv hash_of (new_pool one)"
  by (simp add: pool_inv_def pool_ok_def pool_rep_def pool_spenders_def new_pool_def sec_ok_empty opm_rep_def opm_get_def
      spend_list_def hm_wf_def)

lemma pool_inv_uts:
  "pool_inv hash_of p \<Longrightarrow> sec_ok (\<lambda>t. hash_of (Unstake t)) ut_weight s \<Longrightarrow> pool_inv hash_of (p\<lparr>uts := s\<rparr>)"
  by (simp add: pool_inv_def pool_ok_def pool_rep_def pool_spenders_def)

lemma pool_inv_sec_ok: "pool_inv hash_of p \<Longrightarrow> sec_ok (\<lambda>t. hash_of (Unstake t)) ut_weight (uts p)"
  by (simp add: pool_inv_def pool_ok_def)

lemma ut_remove_inner_inv:
  assumes "pool_inv hash_of p"
  shows "pool_inv hash_of (snd (ut_remove_inner k p))"
proof (cases "section_remove ut_weight k (uts p)")
  case (Pair r s)
  have "sec_ok (\<lambda>t. hash_of (Unstake t)) ut_weight s"
  proof (cases r)
    case None
    then show ?thesis
      using Pair pool_inv_sec_ok [OF assms] by (auto simp: section_remove_def split: option.splits)
  next
    case (Some t)
    then show ?thesis using sec_ok_remove [OF pool_inv_sec_ok [OF assms]] Pair by blast
  qed
  then show ?thesis using pool_inv_uts [OF assms] Pair by (simp add: ut_remove_inner_def)
qed

lemma size_limit_inv:
  "pool_inv hash_of p \<Longrightarrow> remove_transactions_for_size_limit more_vtts p = Some (ts, q) \<Longrightarrow> pool_inv hash_of q"
proof (induction "length (entries (vts p)) + length (entries (drs p))" arbitrary: p ts rule: less_induct)
  case less
  have v: "pool_inv hash_of q" if "vt_remove_inner h False p = Some (Some t, p')"
    "remove_transactions_for_size_limit more_vtts p' = Some (ts', q)" for h t p' ts'
    using less.hyps [OF vt_remove_inner_less [OF that(1)] _ that(2)] vtc.remove_inner_inv [OF less.prems(1), of h] that(1)
    by auto
  have d: "pool_inv hash_of q" if "dr_remove_inner h False p = Some (Some t, p')"
    "remove_transactions_for_size_limit more_vtts p' = Some (ts', q)" for h t p' ts'
    using less.hyps [OF dr_remove_inner_less [OF that(1)] _ that(2)] drc.remove_inner_inv [OF less.prems(1), of h] that(1)
    by auto
  from less.prems(2) show ?case
    by (subst (asm) remove_transactions_for_size_limit.simps)
      (use less.prems(1) in \<open>auto split: if_splits list.splits option.splits; metis v d\<close>)
qed

lemma remove_inner_invD:
  assumes "pool_inv hash_of p"
  shows "vt_remove_inner k False p = Some (r, q) \<Longrightarrow> pool_inv hash_of q"
    and "dr_remove_inner k False p = Some (r', q) \<Longrightarrow> pool_inv hash_of q"
    and "st_remove_inner k False p = Some (r'', q) \<Longrightarrow> pool_inv hash_of q"
  using vtc.remove_inner_inv [OF assms, of k] drc.remove_inner_inv [OF assms, of k] stc.remove_inner_inv [OF assms, of k]
  by auto

lemma upd_order:
  "p\<lparr>output_pointer_map := m, vts := v\<rparr> = p\<lparr>vts := v, output_pointer_map := m\<rparr>"
  "p\<lparr>output_pointer_map := m, drs := d\<rparr> = p\<lparr>drs := d, output_pointer_map := m\<rparr>"
  "p\<lparr>output_pointer_map := m, sts := s\<rparr> = p\<lparr>sts := s, output_pointer_map := m\<rparr>"
  by simp_all

lemma pool_insert_inv:
  assumes inv: "pool_inv hash_of p" and new: "pool_contains hash_of proof_pkh t p = Ok False"
    and ins: "pool_insert hash_of pkh_of prio more_vtts t fee p = Some (ts, q)"
  shows "pool_inv hash_of q"
proof (cases t)
  case (ValueTransfer v)
  then have "map_of (entries (vts p)) (hash_of (ValueTransfer v)) = None" using new by (simp add: vt_contains_def del: not_None_eq)
  from vtc.insert_inv [OF inv this, of "prio fee (vt_weight v)"] show ?thesis
    using ins inv ValueTransfer by (auto simp: Let_def upd_order intro: size_limit_inv split: if_splits)
next
  case (DataRequest d)
  then have "map_of (entries (drs p)) (hash_of (DataRequest d)) = None" using new by (simp add: dr_contains_def del: not_None_eq)
  from drc.insert_inv [OF inv this, of "prio fee (dr_weight d)"] show ?thesis
    using ins inv DataRequest by (auto simp: Let_def upd_order intro: size_limit_inv split: if_splits)
next
  case (Stake s)
  then have "map_of (entries (sts p)) (hash_of (Stake s)) = None" using new by (simp add: st_contains_def del: not_None_eq)
  from stc.insert_inv [OF inv this, of "prio fee (st_weight s)"] show ?thesis
    using ins inv Stake by (auto simp: Let_def upd_order intro: size_limit_inv split: if_splits)
next
  case (Unstake u)
  then have "map_of (entries (uts p)) (hash_of (Unstake u)) = None" using new by (simp add: ut_contains_def del: not_None_eq)
  from pool_inv_uts [OF inv sec_ok_insert [OF pool_inv_sec_ok [OF inv] this refl, of "prio fee (ut_weight u)"]] show ?thesis
    using ins inv Unstake by (auto simp: Let_def upd_order intro: size_limit_inv split: if_splits)
next
  case (Commit co)
  have "pool_inv hash_of (p\<lparr>co_hash_index := a, co_transactions := b\<rparr>)" for a b
    using inv by (subst pool_inv_cong [of _ p]) simp_all
  then show ?thesis using ins Commit by (auto intro: size_limit_inv split: list.splits)
next
  case (Reveal re)
  have "pool_inv hash_of (p\<lparr>re_hash_index := a, re_transactions := b\<rparr>)" for a b
    using inv by (subst pool_inv_cong [of _ p]) simp_all
  then show ?thesis using ins Reveal by (auto intro: size_limit_inv)
qed (use ins in simp_all)

lemma consolidate_inv:
  assumes inv: "pool_inv hash_of p" and hash: "hash_fixes_inputs hash_of" and cons: "consolidate hash_of t p = Some q"
  shows "pool_inv hash_of q"
proof (cases t)
  case (ValueTransfer v)
  then show ?thesis using vtc.remove_inv [OF inv hash, of v] cons by auto
next
  case (DataRequest d)
  then show ?thesis using drc.remove_inv [OF inv hash, of d] cons by auto
next
  case (Stake s)
  then show ?thesis using stc.remove_inv [OF inv hash, of s] cons by auto
next
  case (Unstake u)
  then show ?thesis using ut_remove_inner_inv [OF inv] cons by (auto simp: ut_remove_def)
next
  case (Commit co)
  have "pool_ok hash_of p" "pool_rep p (\<lambda>_. {#}) None" using inv by (simp_all add: pool_inv_def)
  from remove_inputs_rep [OF this hash, of "commit_collateral co"] show ?thesis
    using Commit cons by (auto simp: extra_ok_def pool_inv_def)
next
  case (Reveal re)
  then show ?thesis
    using cons inv by (auto simp: remove_one_reveal_def Let_def split: option.splits intro: pool_inv_cong [THEN iffD1])
next
  case (Tally ta)
  have "pool_inv hash_of (clear_reveals_from_finished_dr (tally_dr_pointer ta) p) \<longleftrightarrow> pool_inv hash_of p"
    by (rule pool_inv_cong) (simp_all add: clear_reveals_from_finished_dr_def split: option.splits)
  then show ?thesis using Tally cons inv by simp
qed (use assms in simp)

lemma remove_overstake_inv:
  "pool_inv hash_of p \<Longrightarrow> hash_fixes_inputs hash_of \<Longrightarrow> remove_overstake_transactions hash_of hs p = Some q \<Longrightarrow>
   pool_inv hash_of q"
proof (induction hs arbitrary: p)
  case (Cons h hs)
  have st: "pool_inv hash_of p'" if "st_remove hash_of t p = Some (r, p')" for t r p'
    using consolidate_inv [OF Cons.prems(1,2), of "Stake t" p'] that by simp
  show ?case
    using Cons.prems Cons.IH by (auto split: option.splits Option.bind_splits; blast dest: st)
qed simp

lemma remove_invalid_unstake_inv:
  "pool_inv hash_of p \<Longrightarrow> pool_inv hash_of (remove_invalid_unstake_transactions hash_of hs p)"
  unfolding remove_invalid_unstake_transactions_def
  by (induction hs arbitrary: p) (auto simp: ut_remove_def intro: ut_remove_inner_inv split: option.splits)

lemma remove_unconfirmed_loop_inv:
  "pool_inv hash_of p \<Longrightarrow> remove_unconfirmed_loop hs p = Some (ts, q) \<Longrightarrow> pool_inv hash_of q"
proof (induction hs arbitrary: p ts)
  case (Cons h hs)
  then show ?case
    using remove_inner_invD [OF Cons.prems(1), of h] ut_remove_inner_inv [OF Cons.prems(1), of h]
    by (auto split: option.splits transaction.splits Option.bind_splits)
qed simp

lemma pool_step_inv:
  assumes inv: "pool_inv (p_hash c) p" and hash: "hash_fixes_inputs (p_hash c)" and step: "pool_step c op p = Some q"
  shows "pool_inv (p_hash c) q"
proof (cases op)
  case (AddTx t fee)
  then show ?thesis
    using step inv pool_insert_inv [OF inv, of "p_proof_pkh c" t "p_pkh_of c" "p_prio c" "p_more_vtts c" fee]
    by (auto split: outcome.splits bool.splits)
next
  case (SetLimit limit factor)
  have "pool_inv (p_hash c) (p\<lparr>weight_limit := limit, vt_to_dr_factor := factor\<rparr>)"
    using inv by (subst pool_inv_cong [of _ p]) simp_all
  then show ?thesis using SetLimit step by (auto simp: set_total_weight_limit_def intro: size_limit_inv)
next
  case RemoveUnconfirmed
  have "pool_inv (p_hash c) (p\<lparr>unconfirmed := u\<rparr>)" for u
    using inv by (subst pool_inv_cong [of _ p]) simp_all
  moreover have "pool_inv (p_hash c) (clear_reveals (clear_commits q')) \<longleftrightarrow> pool_inv (p_hash c) q'" for q' :: "('a, 'b) transactions_pool"
    by (rule pool_inv_cong) (simp_all add: clear_reveals_def clear_commits_def)
  ultimately show ?thesis
    using RemoveUnconfirmed step
    by (auto simp: remove_unconfirmed_transactions_def dest: remove_unconfirmed_loop_inv split: prod.splits)
next
  case (RemoveInvalidUnstake hs)
  then show ?thesis using step remove_invalid_unstake_inv [OF inv] by auto
next
  case ClearPool
  then show ?thesis using step pool_inv_clear by auto
qed (use step inv consolidate_inv [OF inv hash] remove_overstake_inv [OF inv hash] in
    \<open>auto simp: set_minimum_vtt_fee_def set_collateral_minimum_def set_required_reward_collateral_ratio_def
      remove_commits_def clear_commits_def update_unconfirmed_transactions_def insert_unconfirmed_transactions_def
      intro: pool_inv_cong [THEN iffD1]\<close>)

lemma pool_run_inv:
  "hash_fixes_inputs (p_hash c) \<Longrightarrow> run_ops (pool_step c) ops (new_pool one) = Some p \<Longrightarrow> pool_inv (p_hash c) p"
  by (rule run_ops_invariant [where I = "pool_inv (p_hash c)"]) (auto intro: pool_step_inv pool_inv_new)

section \<open>Consistency\<close>

definition by_priority :: "(hash \<times> 'p::linorder \<times> 't) \<Rightarrow> (hash \<times> 'p \<times> 't) \<Rightarrow> bool" where
  "by_priority = (\<lambda>(k, pr, _) (k', pr', _). (pr', k') \<le> (pr, k))"

text \<open>What a section keeps about its transactions is right: the weight is the sum of their weights, and
  the iterator lists each of them once, those with higher priority first.\<close>

definition section_consistent :: "('t \<Rightarrow> u32) \<Rightarrow> ('p::linorder, 't) tx_section \<Rightarrow> bool" where
  "section_consistent weight s \<longleftrightarrow>
     total_weight s = (\<Sum>(k, pr, t) \<leftarrow> entries s. ucast (weight t))
     \<and> (\<exists>es. mset es = mset (entries s) \<and> sorted_wrt by_priority es \<and> section_iter s = map (snd \<circ> snd) es)"

lemma section_consistentI:
  fixes s :: "('p::linorder, 't) tx_section"
  assumes ok: "sec_ok key_of weight s"
  shows "section_consistent weight s"
proof -
  define entry :: "'p \<times> hash \<Rightarrow> hash \<times> 'p \<times> 't" where "entry = (\<lambda>(pr, h). (h, pr, snd (the (map_of (entries s) h))))"
  have e: "map_of (entries s) h = Some (pr, t) \<and> entry (pr, h) = (h, pr, t)" if "(h, pr, t) \<in> set (entries s)" for h pr t
    using that hm.entry_iff [OF sec_okD(1) [OF ok], of h "(pr, t)"] by (simp add: entry_def)
  let ?es = "map entry (rev (sorted_index s))"
  have in_index: "\<exists>t. (h, pr, t) \<in> set (entries s)" if "(pr, h) \<in> set (sorted_index s)" for pr h
    using that sec_okD(5) [OF ok] by auto
  have "(\<lambda>x. entry (case x of (k, pr, t) \<Rightarrow> (pr, k))) ` set (entries s) = (\<lambda>x. x) ` set (entries s)"
    by (rule image_cong) (use e in auto)
  then have "set ?es = set (entries s)"
    using sec_okD(5) [OF ok] by (simp add: image_image)
  moreover have "distinct ?es"
    using sec_okD(4) [OF ok] by (auto simp: distinct_map inj_on_def entry_def)
  moreover have "distinct (entries s)" by (rule hm.distinct_entries [OF sec_okD(1) [OF ok]])
  ultimately have "mset ?es = mset (entries s)"
    using set_eq_iff_mset_eq_distinct by blast
  moreover have "sorted_wrt by_priority ?es"
    using sec_okD(3) [OF ok]
    by (simp add: rev_map sorted_wrt_map sorted_wrt_rev by_priority_def entry_def split_def del: less_eq_prod_simp)
  moreover have "section_iter s = map (snd \<circ> snd) ?es"
  proof -
    have "List.map_filter (\<lambda>(_, h). map_option snd (map_of (entries s) h)) xs = map (snd \<circ> snd) (map entry xs)"
      if "set xs \<subseteq> set (sorted_index s)" for xs
      using that
    proof (induction xs)
      case (Cons x xs)
      obtain pr h where x: "x = (pr, h)" by (cases x)
      then obtain t where "(h, pr, t) \<in> set (entries s)" using in_index [of pr h] Cons.prems by auto
      then show ?case using Cons e [of h pr t] by (simp add: x map_filter_simps)
    qed (simp add: map_filter_simps)
    then show ?thesis by (simp add: section_iter_def)
  qed
  ultimately show ?thesis
    unfolding section_consistent_def using sec_okD(6) [OF ok] by blast
qed

lemma consolidate_not_None:
  assumes inv: "pool_inv hash_of p" and hash: "hash_fixes_inputs hash_of" and kind: "\<forall>r. t \<noteq> Reveal r"
  shows "consolidate hash_of t p \<noteq> None"
proof (cases t)
  case (ValueTransfer v)
  then show ?thesis using vtc.remove_inv [OF inv hash, of v] by auto
next
  case (DataRequest d)
  then show ?thesis using drc.remove_inv [OF inv hash, of d] by auto
next
  case (Stake s)
  then show ?thesis using stc.remove_inv [OF inv hash, of s] by auto
next
  case (Commit co)
  have "pool_ok hash_of p" "pool_rep p (\<lambda>_. {#}) None" using inv by (simp_all add: pool_inv_def)
  from remove_inputs_rep [OF this hash, of "commit_collateral co"] show ?thesis
    using Commit by (auto simp: extra_ok_def)
qed (use kind in simp_all)

text \<open>Claim C4: the pool of transactions stays consistent. After any sequence of the operations of
  \<open>pool_op\<close> that does not panic (all but \<open>clear_stake_transactions\<close>, \<open>clear_unstake_transactions\<close> and
  \<open>vt_retain\<close>, which leave weights or outputs of removed transactions behind), the total weight of each kind is the sum of the weights of its transactions, the iterators
  list every transaction exactly once in descending order of priority, and the map of outputs lists for
  every output exactly the value transfers, data requests and stake transactions that spend it. So
  removing a transaction by its hash, and taking out a transaction of a block other than a reveal,
  never finds an invalid map of outputs.\<close>

theorem pool_run_consistent:
  assumes "run_ops (pool_step c) ops (new_pool one) = Some p" and "hash_fixes_inputs (p_hash c)"
  shows "section_consistent vt_weight (vts p) \<and> section_consistent dr_weight (drs p)
     \<and> section_consistent st_weight (sts p) \<and> section_consistent ut_weight (uts p)
     \<and> (\<forall>ptr. set (opm_get (output_pointer_map p) ptr) = {k. \<exists>is. (k, is) \<in> pool_spends p \<and> ptr \<in> set is})
     \<and> (\<forall>h. vt_remove_inner h False p \<noteq> None \<and> dr_remove_inner h False p \<noteq> None \<and> st_remove_inner h False p \<noteq> None)
     \<and> (\<forall>t. (\<forall>r. t \<noteq> Reveal r) \<longrightarrow> consolidate (p_hash c) t p \<noteq> None)"
proof -
  have inv: "pool_inv (p_hash c) p" using assms by (intro pool_run_inv)
  then have ok: "pool_ok (p_hash c) p" and "pool_rep p (\<lambda>_. {#}) None" by (simp_all add: pool_inv_def)
  then have "mset (opm_get (output_pointer_map p) ptr) = pool_spenders p ptr" for ptr
    by (simp add: pool_rep_def opm_rep_def)
  then have "set (opm_get (output_pointer_map p) ptr) = set_mset (pool_spenders p ptr)" for ptr
    by (metis set_mset_mset)
  then have "set (opm_get (output_pointer_map p) ptr) = {k. \<exists>is. (k, is) \<in> pool_spends p \<and> ptr \<in> set is}" for ptr
    using in_pool_spenders [of _ p ptr] by blast
  moreover have "vt_remove_inner h False p \<noteq> None \<and> dr_remove_inner h False p \<noteq> None \<and> st_remove_inner h False p \<noteq> None" for h
    using vtc.remove_inner_inv [OF inv, of h] drc.remove_inner_inv [OF inv, of h] stc.remove_inner_inv [OF inv, of h] by auto
  moreover have "section_consistent vt_weight (vts p) \<and> section_consistent dr_weight (drs p)
      \<and> section_consistent st_weight (sts p) \<and> section_consistent ut_weight (uts p)"
    using ok by (auto simp: pool_ok_def intro: section_consistentI)
  ultimately show ?thesis
    using consolidate_not_None [OF inv assms(2)] by blast
qed

section \<open>Double spends\<close>

text \<open>The transactions of the pool that spend outputs, with their hashes.\<close>

definition pool_txs :: "('p, 'f) transactions_pool \<Rightarrow> (hash \<times> transaction) set" where
  "pool_txs p = (\<lambda>(k, _, t). (k, ValueTransfer t)) ` set (entries (vts p))
     \<union> (\<lambda>(k, _, t). (k, DataRequest t)) ` set (entries (drs p)) \<union> (\<lambda>(k, _, t). (k, Stake t)) ` set (entries (sts p))"

lemma mem_kind_txs: "(k, x) \<in> (\<lambda>(k, _, t). (k, C t)) ` S \<longleftrightarrow> (\<exists>pr t. (k, pr, t) \<in> S \<and> x = C t)"
  by (auto simp: image_def Bex_def)

lemma mem_pool_txs:
  "(k, x) \<in> pool_txs p \<longleftrightarrow> (\<exists>pr t. (k, pr, t) \<in> set (entries (vts p)) \<and> x = ValueTransfer t)
     \<or> (\<exists>pr t. (k, pr, t) \<in> set (entries (drs p)) \<and> x = DataRequest t)
     \<or> (\<exists>pr t. (k, pr, t) \<in> set (entries (sts p)) \<and> x = Stake t)"
  by (simp add: pool_txs_def mem_kind_txs)

lemma pool_txs_keeps:
  assumes "keeps (\<lambda>_ is. ok is) p q"
  shows "pool_txs q = {(k, t) \<in> pool_txs p. ok (tx_inputs t)}"
proof (rule set_eqI)
  fix e
  show "e \<in> pool_txs q \<longleftrightarrow> e \<in> {(k, t) \<in> pool_txs p. ok (tx_inputs t)}"
    by (cases e) (auto simp: mem_pool_txs keepsD(1-3) [OF assms])
qed

lemma sec_ok_key:
  assumes "sec_ok key_of weight s" and "(k, pr, t) \<in> set (entries s)"
  shows "key_of t = k"
proof -
  have "map_of (entries s) k = Some (pr, t)"
    using assms(2) hm.entry_iff [OF sec_okD(1) [OF assms(1)], of k "(pr, t)"] by simp
  then show ?thesis by (rule sec_okD(2) [OF assms(1)])
qed

lemma pool_txs_hash: "pool_ok hash_of p \<Longrightarrow> (k, x) \<in> pool_txs p \<Longrightarrow> hash_of x = k"
  unfolding pool_ok_def mem_pool_txs by (auto dest: sec_ok_key)

text \<open>The outputs a transaction of a block spends.\<close>

fun spent_inputs :: "transaction \<Rightarrow> input list" where
  "spent_inputs (Commit t) = commit_collateral t"
| "spent_inputs t = tx_inputs t"

text \<open>A transaction with the hash of \<open>tx\<close> spends its inputs, so it makes no difference whether it is
  dropped beforehand.\<close>

lemma drop_hash:
  assumes ok: "pool_ok hash_of p" and hash: "hash_fixes_inputs hash_of" and tx: "tx_inputs tx \<noteq> []"
    and sub: "pool_txs p' \<subseteq> pool_txs p" "{(k, x) \<in> pool_txs p. k \<noteq> hash_of tx} \<subseteq> pool_txs p'"
  shows "{(k, x) \<in> pool_txs p'. set (tx_inputs tx) \<inter> set (tx_inputs x) = {}}
    = {(k, x) \<in> pool_txs p. set (tx_inputs tx) \<inter> set (tx_inputs x) = {}}"
proof -
  have "k \<noteq> hash_of tx" if "(k, x) \<in> pool_txs p" "set (tx_inputs tx) \<inter> set (tx_inputs x) = {}" for k x
  proof
    assume "k = hash_of tx"
    then have "hash_of x = hash_of tx" using pool_txs_hash [OF ok that(1)] by simp
    then have "tx_inputs x = tx_inputs tx" using hash unfolding hash_fixes_inputs_def by blast
    with that(2) tx show False by simp
  qed
  then show ?thesis using sub by blast
qed

lemma pool_txs_upd:
  "set (entries v) = {e \<in> set (entries (vts p)). fst e \<noteq> h} \<Longrightarrow>
     pool_txs (p\<lparr>vts := v\<rparr>) \<subseteq> pool_txs p \<and> {(k, x) \<in> pool_txs p. k \<noteq> h} \<subseteq> pool_txs (p\<lparr>vts := v\<rparr>)"
  "set (entries d) = {e \<in> set (entries (drs p)). fst e \<noteq> h} \<Longrightarrow>
     pool_txs (p\<lparr>drs := d\<rparr>) \<subseteq> pool_txs p \<and> {(k, x) \<in> pool_txs p. k \<noteq> h} \<subseteq> pool_txs (p\<lparr>drs := d\<rparr>)"
  "set (entries s) = {e \<in> set (entries (sts p)). fst e \<noteq> h} \<Longrightarrow>
     pool_txs (p\<lparr>sts := s\<rparr>) \<subseteq> pool_txs p \<and> {(k, x) \<in> pool_txs p. k \<noteq> h} \<subseteq> pool_txs (p\<lparr>sts := s\<rparr>)"
  by (intro conjI subsetI; clarsimp simp: mem_pool_txs; blast)+

lemma double_spends_gone:
  assumes "pool_ok hash_of p" and "hash_fixes_inputs hash_of" and "tx_inputs tx \<noteq> []"
    and keeps: "keeps (\<lambda>_ is. set (tx_inputs tx) \<inter> set is = {}) p' q"
    and "pool_txs p' \<subseteq> pool_txs p \<and> {(k, x) \<in> pool_txs p. k \<noteq> hash_of tx} \<subseteq> pool_txs p'"
  shows "pool_txs q = {(k, x) \<in> pool_txs p. set (tx_inputs tx) \<inter> set (tx_inputs x) = {}}"
  unfolding pool_txs_keeps [OF keeps] using assms(5) by (intro drop_hash [OF assms(1-3)]) blast+

lemma keeps_uts: "keeps K p q \<Longrightarrow> uts q = uts p"
  unfolding keeps_def by auto

text \<open>Claim C10: a consolidated transaction takes its competitors out of the pool. When a value transfer,
  a data request or a stake transaction with inputs, or a commitment with its collateral, is part of a
  block, taking it out of a reachable pool never panics and leaves exactly those transactions that
  spend none of its inputs; the transaction itself is gone, and unstake transactions are not touched.\<close>

theorem consolidation_removes_double_spends:
  assumes "run_ops (pool_step c) ops (new_pool one) = Some p" and hash: "hash_fixes_inputs (p_hash c)"
    and tx: "spent_inputs tx \<noteq> []"
  shows "\<exists>q. consolidate (p_hash c) tx p = Some q \<and> uts q = uts p
     \<and> pool_txs q = {(k, x) \<in> pool_txs p. set (spent_inputs tx) \<inter> set (tx_inputs x) = {}}"
proof -
  have inv: "pool_inv (p_hash c) p" using assms by (intro pool_run_inv)
  then have ok: "pool_ok (p_hash c) p" and rep: "pool_rep p (\<lambda>_. {#}) None" by (simp_all add: pool_inv_def)
  show ?thesis
  proof (cases tx)
    case (ValueTransfer t)
    obtain r q v where q: "vt_remove (p_hash c) t p = Some (r, q)"
      "keeps (\<lambda>_ is. set (tx_inputs tx) \<inter> set is = {}) (p\<lparr>vts := v\<rparr>) q"
      "set (entries v) = {e \<in> set (entries (vts p)). fst e \<noteq> p_hash c tx}"
      using vtc.remove_inv [OF inv hash, of t] ValueTransfer by auto
    have "tx_inputs tx \<noteq> []" using tx ValueTransfer by simp
    from double_spends_gone [OF ok hash this q(2) pool_txs_upd(1) [OF q(3)]] show ?thesis
      using q(1) keeps_uts [OF q(2)] ValueTransfer by (intro exI [of _ q]) simp
  next
    case (DataRequest t)
    obtain r q v where q: "dr_remove (p_hash c) t p = Some (r, q)"
      "keeps (\<lambda>_ is. set (tx_inputs tx) \<inter> set is = {}) (p\<lparr>drs := v\<rparr>) q"
      "set (entries v) = {e \<in> set (entries (drs p)). fst e \<noteq> p_hash c tx}"
      using drc.remove_inv [OF inv hash, of t] DataRequest by auto
    have "tx_inputs tx \<noteq> []" using tx DataRequest by simp
    from double_spends_gone [OF ok hash this q(2) pool_txs_upd(2) [OF q(3)]] show ?thesis
      using q(1) keeps_uts [OF q(2)] DataRequest by (intro exI [of _ q]) simp
  next
    case (Stake t)
    obtain r q v where q: "st_remove (p_hash c) t p = Some (r, q)"
      "keeps (\<lambda>_ is. set (tx_inputs tx) \<inter> set is = {}) (p\<lparr>sts := v\<rparr>) q"
      "set (entries v) = {e \<in> set (entries (sts p)). fst e \<noteq> p_hash c tx}"
      using stc.remove_inv [OF inv hash, of t] Stake by auto
    have "tx_inputs tx \<noteq> []" using tx Stake by simp
    from double_spends_gone [OF ok hash this q(2) pool_txs_upd(3) [OF q(3)]] show ?thesis
      using q(1) keeps_uts [OF q(2)] Stake by (intro exI [of _ q]) simp
  next
    case (Commit t)
    from remove_inputs_rep [OF ok rep hash, of "commit_collateral t"] show ?thesis
      using Commit pool_txs_keeps [of _ p] keeps_uts [of _ p] by (auto simp: extra_ok_def)
  qed (use tx in simp_all)
qed

section \<open>The size limit\<close>

lemma size_limit_panics:
  assumes "pool_inv hash_of p" and "pool_weight p < 2 ^ 64" and "weight_limit p < total_weight (sts p)"
  shows "remove_transactions_for_size_limit more_vtts p = None"
  using assms
proof (induction "length (entries (vts p)) + length (entries (drs p))" arbitrary: p rule: less_induct)
  case less
  have ok: "pool_ok hash_of p" using less.prems(1) by (simp add: pool_inv_def)
  then have "unat (total_weight (sts p)) = nat_weight st_weight (sts p)"
    using less.prems(2) by (intro unat_total_weight) (auto simp: pool_ok_def pool_weight_def)
  then have over: "\<not> total_transactions_weight p \<le> weight_limit p"
    using unat_total_transactions_weight [OF ok less.prems(2)] less.prems(3)
    by (simp add: word_le_nat_alt word_less_nat_alt pool_weight_def)
  have v: "remove_transactions_for_size_limit more_vtts p' = None" if "vt_remove_inner h False p = Some (Some t, p')" for h t p'
  proof -
    obtain s m where s: "vt_remove_inner h False p
        = Some (map_option snd (map_of (entries (vts p)) h), p\<lparr>vts := s, output_pointer_map := m\<rparr>)"
      "set (entries s) = {e \<in> set (entries (vts p)). fst e \<noteq> h}" "pool_inv hash_of (p\<lparr>vts := s, output_pointer_map := m\<rparr>)"
      using vtc.remove_inner_inv [OF less.prems(1), of h] by blast
    then have r: "p' = p\<lparr>vts := s, output_pointer_map := m\<rparr>" "set (entries s) \<subseteq> set (entries (vts p))" "pool_inv hash_of p'"
      using that by auto
    then have "nat_weight vt_weight s \<le> nat_weight vt_weight (vts p)"
      using ok by (intro nat_weight_mono) (auto simp: pool_inv_def pool_ok_def)
    then show ?thesis
      using less.hyps [OF vt_remove_inner_less [OF that] r(3)] less.prems(2,3) r(1) by (simp add: pool_weight_def)
  qed
  have d: "remove_transactions_for_size_limit more_vtts p' = None" if "dr_remove_inner h False p = Some (Some t, p')" for h t p'
  proof -
    obtain s m where s: "dr_remove_inner h False p
        = Some (map_option snd (map_of (entries (drs p)) h), p\<lparr>drs := s, output_pointer_map := m\<rparr>)"
      "set (entries s) = {e \<in> set (entries (drs p)). fst e \<noteq> h}" "pool_inv hash_of (p\<lparr>drs := s, output_pointer_map := m\<rparr>)"
      using drc.remove_inner_inv [OF less.prems(1), of h] by blast
    then have r: "p' = p\<lparr>drs := s, output_pointer_map := m\<rparr>" "set (entries s) \<subseteq> set (entries (drs p))" "pool_inv hash_of p'"
      using that by auto
    then have "nat_weight dr_weight s \<le> nat_weight dr_weight (drs p)"
      using ok by (intro nat_weight_mono) (auto simp: pool_inv_def pool_ok_def)
    then show ?thesis
      using less.hyps [OF dr_remove_inner_less [OF that] r(3)] less.prems(2,3) r(1) by (simp add: pool_weight_def)
  qed
  show ?case
    using over by (subst remove_transactions_for_size_limit.simps) (auto split: list.splits option.splits simp: v d)
qed

lemma nat_weight_insert:
  "hm_wf (entries s) \<Longrightarrow> map_of (entries s) k = None \<Longrightarrow>
   nat_weight weight (section_insert weight k pr t s) = nat_weight weight s + unat (weight t)"
proof -
  assume "hm_wf (entries s)" "map_of (entries s) k = None"
  then have "mset (AList.update k (pr, t) (entries s)) = add_mset (k, pr, t) (mset (entries s))"
    by (rule hm.mset_insert_new)
  then have "sum_mset (mset (map (\<lambda>(k, p, t). unat (weight t)) (AList.update k (pr, t) (entries s))))
      = unat (weight t) + sum_mset (mset (map (\<lambda>(k, p, t). unat (weight t)) (entries s)))" by simp
  then show ?thesis
    unfolding sum_mset_sum_list by (simp add: nat_weight_def section_insert_def)
qed


section \<open>An instance\<close>

text \<open>A hash function that fixes the inputs: it encodes them.\<close>

fun enc_bytes :: "u8 list \<Rightarrow> u8 list" where
  "enc_bytes [] = [0]"
| "enc_bytes (b # bs) = 1 # b # enc_bytes bs"

fun enc_index :: "nat \<Rightarrow> u8 list" where
  "enc_index 0 = [0]"
| "enc_index (Suc n) = 1 # enc_index n"

fun enc_inputs :: "input list \<Rightarrow> u8 list" where
  "enc_inputs [] = [0]"
| "enc_inputs (i # is) = 1 # enc_bytes (transaction_id i) @ enc_index (unat (output_index i)) @ enc_inputs is"

lemma enc_bytes_inj: "enc_bytes xs @ r = enc_bytes ys @ s \<Longrightarrow> xs = ys \<and> r = s"
proof (induction xs arbitrary: ys)
  case Nil
  then show ?case by (cases ys) auto
next
  case (Cons x xs)
  then show ?case by (cases ys) auto
qed

lemma enc_index_inj: "enc_index m @ r = enc_index n @ s \<Longrightarrow> m = n \<and> r = s"
proof (induction m arbitrary: n)
  case 0
  then show ?case by (cases n) auto
next
  case (Suc m)
  then show ?case by (cases n) auto
qed

lemma enc_inputs_inj: "enc_inputs xs = enc_inputs ys \<Longrightarrow> xs = ys"
proof (induction xs arbitrary: ys)
  case Nil
  then show ?case by (cases ys) auto
next
  case (Cons x xs)
  then obtain y ys' where ys: "ys = y # ys'" by (cases ys) auto
  then have b: "enc_bytes (transaction_id x) @ (enc_index (unat (output_index x)) @ enc_inputs xs)
      = enc_bytes (transaction_id y) @ (enc_index (unat (output_index y)) @ enc_inputs ys')"
    using Cons.prems by simp
  then have "transaction_id x = transaction_id y" using enc_bytes_inj by blast
  moreover have r: "enc_index (unat (output_index x)) @ enc_inputs xs = enc_index (unat (output_index y)) @ enc_inputs ys'"
    using enc_bytes_inj [OF b] by blast
  moreover have "output_index x = output_index y" "enc_inputs xs = enc_inputs ys'"
    using enc_index_inj [OF r] by (auto simp: word_unat_eq_iff)
  ultimately show ?case using Cons.IH ys by (cases x; cases y) simp
qed

definition sample_pool_context :: "(u64, u64) pool_context" where
  "sample_pool_context = \<lparr>p_hash = \<lambda>t. enc_inputs (tx_inputs t), p_proof_pkh = \<lambda>_. [], p_pkh_of = id,
     p_prio = \<lambda>fee _. fee, p_more_vtts = \<lambda>f v d. d * f \<le> v\<rparr>"

lemma sample_hash_fixes_inputs: "hash_fixes_inputs (p_hash sample_pool_context)"
  by (auto simp: hash_fixes_inputs_def sample_pool_context_def dest: enc_inputs_inj)

definition sample_input :: "u8 \<Rightarrow> input" where
  "sample_input n = \<lparr>transaction_id = [n], output_index = 0\<rparr>"

definition sample_vt :: "u8 list \<Rightarrow> vt_transaction" where
  "sample_vt ns = \<lparr>vt_inputs = map sample_input ns, vt_outputs = [], vt_signatures = []\<rparr>"

definition sample_st :: "u8 list \<Rightarrow> stake_tx" where
  "sample_st ns = \<lparr>st_inputs = map sample_input ns,
     st_output = \<lparr>so_authorization = \<lparr>ks_signature = [], ks_public_key = []\<rparr>,
       so_key = StakeKey [1] [2], so_value = 7\<rparr>, st_change = None, st_signatures = []\<rparr>"

text \<open>Three value transfers, two of which spend the same output, and a stake transaction.\<close>

definition sample_mempool :: "(u64, u64) transactions_pool" where
  "sample_mempool = (new_pool 1)
     \<lparr>vts := \<lparr>entries = [([1, 1, 1, 0, 0, 0], 5, sample_vt [1]),
                          ([1, 1, 1, 0, 0, 1, 1, 2, 0, 0, 0], 7, sample_vt [1, 2]),
                          ([1, 1, 3, 0, 0, 0], 1, sample_vt [3])],
               sorted_index = [(1, [1, 1, 3, 0, 0, 0]), (5, [1, 1, 1, 0, 0, 0]), (7, [1, 1, 1, 0, 0, 1, 1, 2, 0, 0, 0])],
               total_weight = 532\<rparr>,
      sts := \<lparr>entries = [([1, 1, 4, 0, 0, 0], 9, sample_st [4])], sorted_index = [(9, [1, 1, 4, 0, 0, 0])], total_weight = 238\<rparr>,
      output_pointer_map := [(sample_input 1, [[1, 1, 1, 0, 0, 0], [1, 1, 1, 0, 0, 1, 1, 2, 0, 0, 0]]),
        (sample_input 2, [[1, 1, 1, 0, 0, 1, 1, 2, 0, 0, 0]]), (sample_input 3, [[1, 1, 3, 0, 0, 0]]),
        (sample_input 4, [[1, 1, 4, 0, 0, 0]])]\<rparr>"

lemma size_limit_fits:
  "total_transactions_weight p \<le> weight_limit p \<Longrightarrow> remove_transactions_for_size_limit more_vtts p = Some ([], p)"
  by (subst remove_transactions_for_size_limit.simps) simp

lemmas sample_mempool_simps = sample_pool_context_def sample_vt_def sample_st_def sample_input_def vt_contains_def st_contains_def
  new_pool_def empty_section_def section_insert_def push_hash_def size_limit_fits total_transactions_weight_def vt_weight_def
  st_weight_def saturating_add_def saturating_mul_def len_u32_def INPUT_SIZE_def OUTPUT_SIZE_def GAMMA_def Let_def
  insort_insert_key_def STAKE_OUTPUT_WEIGHT_def

lemma sample_mempool_run:
  "run_ops (pool_step sample_pool_context)
     [AddTx (ValueTransfer (sample_vt [1])) 5, AddTx (ValueTransfer (sample_vt [1, 2])) 7,
      AddTx (ValueTransfer (sample_vt [3])) 1, AddTx (Stake (sample_st [4])) 9] (new_pool 1) = Some sample_mempool"
  by (simp add: sample_mempool_simps sample_mempool_def)

theorem pool_run_consistent_witness:
  "section_consistent vt_weight (vts sample_mempool)
   \<and> section_iter (vts sample_mempool) = [sample_vt [1, 2], sample_vt [1], sample_vt [3]]
   \<and> consolidate (p_hash sample_pool_context) (ValueTransfer (sample_vt [1])) sample_mempool \<noteq> None"
proof -
  have "section_iter (vts sample_mempool) = [sample_vt [1, 2], sample_vt [1], sample_vt [3]]"
    by (simp add: sample_mempool_def section_iter_def map_filter_simps)
  then show ?thesis
    using pool_run_consistent [OF sample_mempool_run sample_hash_fixes_inputs] by blast
qed

theorem consolidation_removes_double_spends_witness:
  "\<exists>q. consolidate (p_hash sample_pool_context) (ValueTransfer (sample_vt [1])) sample_mempool = Some q
     \<and> pool_txs q = {([1, 1, 3, 0, 0, 0], ValueTransfer (sample_vt [3])), ([1, 1, 4, 0, 0, 0], Stake (sample_st [4]))}"
proof -
  have "{(k, x) \<in> pool_txs sample_mempool. set (spent_inputs (ValueTransfer (sample_vt [1]))) \<inter> set (tx_inputs x) = {}}
      = {([1, 1, 3, 0, 0, 0], ValueTransfer (sample_vt [3])), ([1, 1, 4, 0, 0, 0], Stake (sample_st [4]))}"
    by (auto simp: pool_txs_def sample_mempool_def sample_vt_def sample_st_def sample_input_def new_pool_def)
  then show ?thesis
    using consolidation_removes_double_spends [OF sample_mempool_run sample_hash_fixes_inputs, of "ValueTransfer (sample_vt [1])"]
    by (auto simp: sample_vt_def)
qed


end
