(* ===== verification/Spec2Isabelle.thy ===== *)
theory Spec2Isabelle
  imports Stakes_Ops Reputation_Engine Epochs Transactions Data_Request Tapi Tallying Merkle Block Superblock Superblock_Votes Superblock_Committee Tx_Pool Tx_Pool_Props Tx_Pool_Run
begin

text \<open>
  A verification of the consensus data structures of witnet-rust: what a node keeps about stakes,
  reputation, epochs, data requests, superblocks and pending transactions, as implemented in
  src/data_structures, src/reputation and src/crypto.

  \<^bold>\<open>The program.\<close> Validators stake coins; the stakes tracker ranks them by power, the product of coins and
  their age. Data requests travel through commit, reveal and tally stages in the data
  request pool, and the tally pays witnesses according to their answers. The reputation engine
  weighs identities by recent honest work. Blocks are made of transactions taken from the
  transactions pool and commit to them through Merkle roots. Every few epochs a committee drawn
  from the active identities signs a superblock, whose votes the superblock state counts. Changes
  of the protocol are activated when enough blocks signal them, which the version registry records.

  \<^bold>\<open>Theories and code.\<close>
  \<^item> \<open>Prelude\<close>: outcomes of Rust calls, machine integers, maps and sets of the standard library, the
    locales \<open>entry_map\<close> (contract of the two maps) and \<open>refinement\<close> (a step function that
    implements an abstract one, lifted to runs).
  \<^item> \<open>Wit\<close> (wit.rs, capabilities.rs), \<open>Stake\<close> (staking/stake.rs, errors.rs), \<open>Stakes\<close>
    (staking/stakes.rs, helpers.rs): record \<open>stakes\<close> with an explicit heap for the entries the three
    indexes share. \<open>Stakes_Inv\<close> has the invariant \<open>stakes_wf\<close>, \<open>Stakes_Ops\<close> the refinement to the map
    \<open>ledger\<close>, the rank and its resets, and the queries.
  \<^item> \<open>Trs\<close> and \<open>Ars\<close> (reputation/src/trs.rs, ars.rs), \<open>Reputation_Engine\<close> (\<^verbatim>\<open>ReputationEngine\<close> of
    chain/mod.rs): packets of reputation with a cached total per identity, the window of active
    identities, and the engine with its threshold cache, which refines the engine without cache.
  \<^item> \<open>Epochs\<close> (\<^verbatim>\<open>EpochConstants\<close> of chain/mod.rs, proto/versioning.rs, lib.rs) and \<open>Tapi\<close>
    (chain/tapi.rs): time, protocol versions and the activation of improvements.
  \<^item> \<open>Transactions\<close> (transaction.rs, chain/mod.rs), \<open>Data_Request\<close> (\<^verbatim>\<open>DataRequestState\<close>,
    \<^verbatim>\<open>DataRequestPool\<close>) and \<open>Tallying\<close> (data_request.rs): weights, the state machine of requests,
    the pool with its index by epoch, and the transaction that resolves a request.
  \<^item> \<open>Merkle\<close> (crypto/src/merkle.rs) and \<open>Block\<close> (blocks of chain/mod.rs, hashes of
    transaction.rs and versioning.rs).
  \<^item> \<open>Superblock\<close> (superblock.rs): votes mempool, consensus, committees, construction of
    superblocks; \<open>Superblock_Votes\<close> and \<open>Superblock_Committee\<close> have the lemmas.
  \<^item> \<open>Tx_Pool\<close> (\<^verbatim>\<open>TransactionsPool\<close> of chain/mod.rs); \<open>Tx_Pool_Props\<close> has the invariant of one
    operation, with the locales \<open>spending_kind\<close> and \<open>consolidated_kind\<close> for the three kinds of
    transactions that spend outputs, \<open>Tx_Pool_Run\<close> the properties of sequences of operations.

  State is passed explicitly. An operation that can fail returns an \<open>outcome\<close>, or an option whose
  \<open>None\<close> is a panic, so every early return, error and \<^verbatim>\<open>unwrap\<close> of the source is a branch.

  \<^bold>\<open>What the lemmas show.\<close>
  \<^item> Invariants over every sequence of the operations that \<open>stakes_op\<close>, \<open>pool_reachable\<close>, \<open>sb_op\<close> and
    \<open>pool_op\<close> list: the stakes tracker (as long as its operations succeed), the request pool, the
    votes mempool and the transactions pool stay consistent with their indexes and counters. Left
    out of these lists, and modelled as definitions, are \<open>reserve_collateral\<close> of the tracker and
    \<open>clear_stake_transactions\<close>, \<open>clear_unstake_transactions\<close> and \<open>vt_retain\<close> of the transactions
    pool: the last three do not keep the invariant.
  \<^item> Refinement: the tracker implements a map from keys to stakes, the engine with its cache the
    engine without; the three Merkle roots agree.
  \<^item> Conservation: total stake, trapezoid and tally neither create nor lose value, up to what each
    theorem names.
  \<^item> Liveness and termination: a request reaches its tally within a bound that depends on its extra
    rounds; the recursion over missed epochs ends.
  \<^item> Safety of consensus: two different verdicts need members that voted for both superblocks.
  \<^item> Round trips: epochs and timestamps, inclusion proofs, pointers to transactions of a block.
  \<^item> Defects: four theorems show runs that lose or corrupt state or panic (a refused stake, a refused
    penalization, a tally out of stage, a vote signed twice), and the theorem on the size limit of
    the pool includes the case in which the node panics.

  \<^bold>\<open>Bounds.\<close> No definition uses fuel: every loop is structural or has a termination proof. Words have
  the width of the source. Theorems on sums assume that the sums fit, where the code does not check:
  fewer than \<^verbatim>\<open>2^32\<close> entries in the rank, stakes below \<^verbatim>\<open>2^32\<close> wits, committees below \<^verbatim>\<open>2^62\<close>
  members, timestamps within \<^verbatim>\<open>2^62\<close>. The supply of coins and the number of identities are far
  below these limits. The bounds are hypotheses of the theorems, with witnesses that meet them.

  \<^bold>\<open>Parameters.\<close> SHA-256, hashes of public keys, the protobuf encoders, address parsing, the
  priorities of the transactions pool and the floating point functions (the triangle of the
  reputation trapezoid, the comparison of weights in the pool) are arguments of the definitions.

  \<^bold>\<open>Not modelled.\<close> The validations of blocks and transactions, the pool of unspent outputs, keys,
  signatures and VRF proofs, the RADON interpreter, the actors of the node (asynchronous messages,
  network, database, JSON-RPC), the wallet, the bridges, peers, storage, configuration and command
  line: they are input and output, calls of third-party libraries, or clients of the structures
  here. Of the actors only the guard under which a transaction enters the pool is used. Serialization
  is generated code. Locks are left out, because the operations take exclusive references.
\<close>

end
